(* ===== verification/Prelude.thy ===== *)
theory Prelude
  imports Main "HOL-Library.Word" "HOL-Library.Char_ord" "HOL-Library.Sublist"
begin

text \<open>
  Shared vocabulary of the development: the machine integers of the source, bytes and
  byte strings, the parts of the Rust standard library the source calls (ASCII case
  folding, checked splitting, iterator adaptors), and the generic lemmas on lists,
  options and words that the component theories use.

  A byte is an Isabelle \<open>char\<close>, which has exactly 256 values, so a Rust byte slice,
  \<open>Vec<u8>\<close> or (UTF-8) \<open>str\<close> is a \<open>char list\<close> and a literal \<open>b"ip6"\<close> is \<open>''ip6''\<close>.
  A \<open>usize\<close> is a \<open>nat\<close>.
\<close>

unbundle bit_operations_syntax

named_theorems io_simps \<open>when an action on the operating system succeeds\<close>
named_theorems inv_intros \<open>what operations keep of the invariants\<close>

type_synonym u8 = "8 word"
type_synonym u16 = "16 word"
type_synonym u32 = "32 word"
type_synonym u64 = "64 word"
type_synonym u128 = "128 word"
type_synonym i32 = "32 word"
type_synonym bytes = "char list"
type_synonym ('e, 'a) result = "'e + 'a"

section \<open>Bytes\<close>

definition byte :: "char \<Rightarrow> u8" where
  "byte c = of_char c"

definition to_ascii_lower :: "char \<Rightarrow> char" where
  "to_ascii_lower c = (if CHR ''A'' \<le> c \<and> c \<le> CHR ''Z'' then char_of (of_char c + (32 :: nat)) else c)"

definition to_ascii_lowercase :: "bytes \<Rightarrow> bytes" where
  "to_ascii_lowercase = map to_ascii_lower"

definition eq_ignore_ascii_case :: "bytes \<Rightarrow> bytes \<Rightarrow> bool" where
  "eq_ignore_ascii_case a b = (to_ascii_lowercase a = to_ascii_lowercase b)"

text \<open>\<open>u8::is_ascii_whitespace\<close>: space, tab, line feed, form feed, carriage return.\<close>

definition is_ascii_whitespace :: "char \<Rightarrow> bool" where
  "is_ascii_whitespace c = (c \<in> {CHR 0x20, CHR 0x09, CHR 0x0A, CHR 0x0C, CHR 0x0D})"

definition trim_ascii_start :: "bytes \<Rightarrow> bytes" where
  "trim_ascii_start = dropWhile is_ascii_whitespace"

definition trim_ascii_end :: "bytes \<Rightarrow> bytes" where
  "trim_ascii_end xs = rev (dropWhile is_ascii_whitespace (rev xs))"

definition trim_ascii :: "bytes \<Rightarrow> bytes" where
  "trim_ascii xs = trim_ascii_end (trim_ascii_start xs)"

section \<open>Slices and iterators\<close>

definition split_at_checked :: "'a list \<Rightarrow> nat \<Rightarrow> ('a list \<times> 'a list) option" where
  "split_at_checked xs n = (if n \<le> length xs then Some (take n xs, drop n xs) else None)"

definition get :: "'a list \<Rightarrow> nat \<Rightarrow> 'a option" where
  "get xs i = (if i < length xs then Some (xs ! i) else None)"

definition checked_sub :: "nat \<Rightarrow> nat \<Rightarrow> nat option" where
  "checked_sub a b = (if b \<le> a then Some (a - b) else None)"

definition saturating_sub :: "'a :: len word \<Rightarrow> 'a word \<Rightarrow> 'a word" where
  "saturating_sub a b = (if b \<le> a then a - b else 0)"

definition saturating_inc :: "'a :: len word \<Rightarrow> 'a word" where
  "saturating_inc a = (if a = - 1 then a else a + 1)"

definition usize_max :: nat where
  "usize_max = 2 ^ 64 - 1"

definition saturating_add :: "nat \<Rightarrow> nat \<Rightarrow> nat" where
  "saturating_add a b = min (a + b) usize_max"

lemma saturating_add_code [code]: "saturating_add a b = nat (min (int a + int b) (2 ^ 64 - 1))"
  by (simp add: saturating_add_def usize_max_def min_def) linarith

text \<open>\<open>Iterator::find_map\<close>.\<close>

fun find_map :: "('a \<Rightarrow> 'b option) \<Rightarrow> 'a list \<Rightarrow> 'b option" where
  "find_map f [] = None"
| "find_map f (x # xs) = (case f x of None \<Rightarrow> find_map f xs | Some y \<Rightarrow> Some y)"

text \<open>A half-open range of \<open>u8\<close> values, as a \<open>for\<close> loop visits it.\<close>

definition u8_range :: "u8 \<Rightarrow> u8 \<Rightarrow> u8 list" where
  "u8_range lo hi = map of_nat [unat lo..<unat hi]"

section \<open>State machines\<close>

text \<open>The states reachable from an initial state, and invariants of all of them.\<close>

inductive reachable :: "('s \<Rightarrow> bool) \<Rightarrow> ('s \<Rightarrow> 's \<Rightarrow> bool) \<Rightarrow> 's \<Rightarrow> bool"
  for init :: "'s \<Rightarrow> bool" and step :: "'s \<Rightarrow> 's \<Rightarrow> bool" where
  start: "init s \<Longrightarrow> reachable init step s"
| move: "reachable init step s \<Longrightarrow> step s t \<Longrightarrow> reachable init step t"

locale inductive_invariant =
  fixes init :: "'s \<Rightarrow> bool" and step :: "'s \<Rightarrow> 's \<Rightarrow> bool" and inv :: "'s \<Rightarrow> bool"
  assumes init_inv: "init s \<Longrightarrow> inv s"
    and step_inv: "inv s \<Longrightarrow> step s t \<Longrightarrow> inv t"
begin

lemma invariant: "reachable init step s \<Longrightarrow> inv s"
  by (induction rule: reachable.induct) (auto intro: init_inv step_inv)

end

section \<open>Lemmas on bytes\<close>

lemma char_all_iff: "(\<forall>c :: char. P c) \<longleftrightarrow> (\<forall>n < 256. P (char_of (n :: nat)))"
proof
  assume "\<forall>n < 256. P (char_of (n :: nat))"
  then have "P (char_of (of_char c :: nat))" for c
    by (metis nat_of_char_less_256)
  then show "\<forall>c. P c" by simp
qed simp

lemma of_char_ascii_lower:
  "(of_char (to_ascii_lower c) :: nat) =
     (if 65 \<le> (of_char c :: nat) \<and> (of_char c :: nat) \<le> 90 then of_char c + 32 else of_char c)"
  by (simp add: to_ascii_lower_def less_eq_char_def)

lemma to_ascii_lower_Char [simp]:
  "to_ascii_lower (Char b0 b1 b2 b3 b4 b5 b6 b7) =
     (if (b0 \<or> b1 \<or> b2 \<or> b3 \<or> b4) \<and> \<not> (b4 \<and> b3 \<and> (b2 \<or> b1 \<and> b0)) \<and> \<not> b5 \<and> b6 \<and> \<not> b7
      then Char b0 b1 b2 b3 b4 True b6 b7 else Char b0 b1 b2 b3 b4 b5 b6 b7)"
  by (cases b0; cases b1; cases b2; cases b3; cases b4; cases b5; cases b6; cases b7)
     (simp_all add: to_ascii_lower_def less_eq_char_def char_of_def bit_0)

lemma ascii_lower_idem [simp]: "to_ascii_lower (to_ascii_lower c) = to_ascii_lower c"
  by (simp add: of_char_ascii_lower flip: of_char_eq_iff [where ?'a = nat])

lemma lowercase_idem [simp]: "to_ascii_lowercase (to_ascii_lowercase s) = to_ascii_lowercase s"
  by (simp add: to_ascii_lowercase_def)

lemma lowercase_length [simp]: "length (to_ascii_lowercase s) = length s"
  by (simp add: to_ascii_lowercase_def)

lemma lowercase_append [simp]:
  "to_ascii_lowercase (s @ t) = to_ascii_lowercase s @ to_ascii_lowercase t"
  by (simp add: to_ascii_lowercase_def)

lemma lowercase_Nil [simp]: "to_ascii_lowercase [] = []"
  by (simp add: to_ascii_lowercase_def)

lemma lowercase_Cons [simp]:
  "to_ascii_lowercase (c # s) = to_ascii_lower c # to_ascii_lowercase s"
  by (simp add: to_ascii_lowercase_def)

lemma lowercase_eq_Nil [simp]: "to_ascii_lowercase s = [] \<longleftrightarrow> s = []"
  by (simp add: to_ascii_lowercase_def)

lemma lowercase_take [simp]: "to_ascii_lowercase (take n s) = take n (to_ascii_lowercase s)"
  by (simp add: to_ascii_lowercase_def take_map)

lemma lowercase_drop [simp]: "to_ascii_lowercase (drop n s) = drop n (to_ascii_lowercase s)"
  by (simp add: to_ascii_lowercase_def drop_map)

lemma ascii_lower_dash [simp]: "to_ascii_lower c = CHR ''-'' \<longleftrightarrow> c = CHR ''-''"
  by (cases c) auto

lemma dash_ascii_lower [simp]: "CHR ''-'' = to_ascii_lower c \<longleftrightarrow> c = CHR ''-''"
  by (metis ascii_lower_dash)

lemma lowercase_eq_length: "to_ascii_lowercase u = to_ascii_lowercase v \<Longrightarrow> length u = length v"
  by (metis lowercase_length)

lemma lowercase_eq_appendD:
  "to_ascii_lowercase s = a @ d # b \<Longrightarrow>
   \<exists>s1 z s2. s = s1 @ z # s2 \<and> to_ascii_lowercase s1 = a \<and> to_ascii_lower z = d \<and> to_ascii_lowercase s2 = b"
  unfolding to_ascii_lowercase_def by (auto simp: map_eq_append_conv map_eq_Cons_conv)

section \<open>Lemmas on options, slices and iterators\<close>

lemma find_map_SomeD:
  assumes "find_map f xs = Some y"
  shows "\<exists>ys x zs. xs = ys @ x # zs \<and> f x = Some y \<and> (\<forall>z \<in> set ys. f z = None)"
  using assms
proof (induction xs)
  case (Cons x xs)
  show ?case
  proof (cases "f x")
    case None
    with Cons obtain ys u zs where "xs = ys @ u # zs" "f u = Some y" "\<forall>z \<in> set ys. f z = None"
      by auto
    with None have "x # xs = (x # ys) @ u # zs \<and> f u = Some y \<and> (\<forall>z \<in> set (x # ys). f z = None)"
      by simp
    then show ?thesis by blast
  next
    case (Some z)
    with Cons.prems have "x # xs = [] @ x # xs \<and> f x = Some y \<and> (\<forall>z \<in> set []. f z = None)"
      by simp
    then show ?thesis by blast
  qed
qed simp

lemma find_map_None_iff: "find_map f xs = None \<longleftrightarrow> (\<forall>x \<in> set xs. f x = None)"
  by (induction xs) (auto split: option.splits)

lemma split_at_checked_Some_iff:
  "split_at_checked xs n = Some (ys, zs) \<longleftrightarrow> xs = ys @ zs \<and> length ys = n"
  by (auto simp: split_at_checked_def)

lemma split_at_checked_append [simp]:
  "length ys = n \<Longrightarrow> split_at_checked (ys @ zs) n = Some (ys, zs)"
  by (simp add: split_at_checked_Some_iff)

lemma case_split_at_checked_Some:
  "(case split_at_checked xs n of None \<Rightarrow> None | Some (a, b) \<Rightarrow> f a b) = Some z \<longleftrightarrow>
     (\<exists>a b. xs = a @ b \<and> length a = n \<and> f a b = Some z)"
  by (auto simp: split_at_checked_def) (metis append_take_drop_id length_take min_absorb2)

lemma split_list_at:
  assumes "length xs = m + Suc n"
  shows "\<exists>us q ws. xs = us @ q # ws \<and> length us = m \<and> length ws = n"
  using assms id_take_nth_drop [of m xs]
  by (intro exI [of _ "take m xs"] exI [of _ "xs ! m"] exI [of _ "drop (Suc m) xs"]) simp

lemma ex_length_Suc: "(\<exists>xs. length xs = Suc n \<and> P xs) \<longleftrightarrow> (\<exists>x xs. length xs = n \<and> P (x # xs))"
  by (auto simp: length_Suc_conv)

lemma length_concat_const: "\<forall>c \<in> set cs. length c = n \<Longrightarrow> length (concat cs) = n * length cs"
  by (induction cs) auto

lemma suffix_drop_iff: "suffix xs ys \<longleftrightarrow> length xs \<le> length ys \<and> drop (length ys - length xs) ys = xs"
  by (auto simp: suffix_def) (metis append_take_drop_id)

lemma suffix_drop_same_length:
  "length xs = length ys \<Longrightarrow> suffix (drop k xs) ys \<longleftrightarrow> drop k xs = drop k ys"
  by (auto simp: suffix_drop_iff) (metis diff_diff_cancel drop_all length_drop nat_le_linear)+

lemma u8_mod_4_iff: "m mod 4 = (0 :: u8) \<longleftrightarrow> unat m mod 4 = 0"
proof -
  have "unat (m mod 4) = unat m mod 4" by (simp add: unat_mod)
  then show ?thesis by (simp only: unsigned_eq_0_iff flip: unsigned_eq_0_iff [of "m mod 4", where ?'a = nat])
qed

lemma u8_dvd_4: "4 dvd (m :: u8) \<Longrightarrow> m mod 4 = 0"
proof -
  assume "4 dvd m"
  then obtain k where "m = 4 * k" by (rule dvdE)
  then have "unat m = 4 * unat k mod 256" by (simp add: unat_word_ariths)
  then have "unat m mod 4 = 0" by (simp add: mod_mod_cancel)
  then show ?thesis by (simp only: u8_mod_4_iff)
qed

lemma unat_saturating_inc: "unat (saturating_inc (a :: u32)) = min (unat a + 1) (2 ^ 32 - 1)"
proof (cases "a = - 1")
  case False
  have "unat a \<noteq> 2 ^ 32 - 1"
  proof
    assume "unat a = 2 ^ 32 - 1"
    then have "unat a = unat (- 1 :: u32)" by (simp add: unsigned_minus_1_eq_mask mask_eq_exp_minus_1)
    with False show False by (metis unsigned_word_eqI)
  qed
  moreover have "unat a < 2 ^ 32" using unsigned_less [where ?'a = nat, of a] by simp
  ultimately have "unat a + 1 < 2 ^ 32" by linarith
  with False show ?thesis by (simp add: saturating_inc_def unat_word_ariths)
qed (simp add: saturating_inc_def unsigned_minus_1_eq_mask mask_eq_exp_minus_1)

lemma set_u8_range: "set (u8_range lo hi) = {p. lo \<le> p \<and> p < hi}"
proof -
  have "p \<in> of_nat ` {unat lo..<unat hi} \<longleftrightarrow> lo \<le> p \<and> p < hi" for p
  proof
    assume "p \<in> of_nat ` {unat lo..<unat hi}"
    then obtain n where n: "p = of_nat n" "unat lo \<le> n" "n < unat hi" by auto
    then have "n < 2 ^ 8" using unsigned_less [of hi, where ?'a = nat] by simp
    with n have "unat p = n" by (simp add: unat_of_nat)
    with n show "lo \<le> p \<and> p < hi" by (simp add: word_le_nat_alt word_less_nat_alt)
  next
    assume "lo \<le> p \<and> p < hi"
    then have "unat lo \<le> unat p \<and> unat p < unat hi"
      by (simp add: word_le_nat_alt word_less_nat_alt)
    then show "p \<in> of_nat ` {unat lo..<unat hi}"
      by (intro image_eqI [of _ _ "unat p"]) simp_all
  qed
  then show ?thesis by (auto simp: u8_range_def)
qed

end
