(* ===== verification/Std_Text.thy ===== *)
theory Std_Text
  imports Prelude
begin

text \<open>
  The text routines of the Rust standard library the source calls: lowercase hexadecimal
  and decimal formatting, UTF-8 validation, splitting and searching of strings, lines of a
  file, and \<open>u32::from_str\<close>. Each comes with the lemma that says what it computes.
\<close>

section \<open>Formatting\<close>

text \<open>\<open>{:x}\<close> and \<open>{:0width$x}\<close>: the minimal lowercase hexadecimal digits, padded with zeros.\<close>

fun hex_string :: "nat \<Rightarrow> string" where
  "hex_string n = (if n < 16 then [''0123456789abcdef'' ! n]
     else hex_string (n div 16) @ [''0123456789abcdef'' ! (n mod 16)])"

declare hex_string.simps [simp del]

definition format_lower_hex :: "nat \<Rightarrow> nat \<Rightarrow> string" where
  "format_lower_hex width n =
     (let s = hex_string n in replicate (width - length s) CHR ''0'' @ s)"

fun dec_string :: "nat \<Rightarrow> string" where
  "dec_string n = (if n < 10 then [''0123456789'' ! n]
     else dec_string (n div 10) @ [''0123456789'' ! (n mod 10)])"

declare dec_string.simps [simp del]

section \<open>UTF-8\<close>

definition utf8_between :: "nat \<Rightarrow> nat \<Rightarrow> char \<Rightarrow> bool" where
  "utf8_between lo hi c \<longleftrightarrow> lo \<le> of_char c \<and> of_char c \<le> hi"

fun utf8_valid :: "bytes \<Rightarrow> bool" where
  "utf8_valid [] = True"
| "utf8_valid (a # r) =
    (if utf8_between 0x00 0x7F a then utf8_valid r
     else if utf8_between 0xC2 0xDF a then
       (case r of b # r' \<Rightarrow> utf8_between 0x80 0xBF b \<and> utf8_valid r' | _ \<Rightarrow> False)
     else if utf8_between 0xE0 0xEF a then
       (case r of b # c # r' \<Rightarrow>
          utf8_between (if a = CHR 0xE0 then 0xA0 else 0x80) (if a = CHR 0xED then 0x9F else 0xBF) b \<and>
          utf8_between 0x80 0xBF c \<and> utf8_valid r'
        | _ \<Rightarrow> False)
     else if utf8_between 0xF0 0xF4 a then
       (case r of b # c # d # r' \<Rightarrow>
          utf8_between (if a = CHR 0xF0 then 0x90 else 0x80) (if a = CHR 0xF4 then 0x8F else 0xBF) b \<and>
          utf8_between 0x80 0xBF c \<and> utf8_between 0x80 0xBF d \<and> utf8_valid r'
        | _ \<Rightarrow> False)
     else False)"

definition from_utf8 :: "bytes \<Rightarrow> bytes option" where
  "from_utf8 s = (if utf8_valid s then Some s else None)"

text \<open>
  \<open>String::from_utf8_lossy\<close>: the length of the sequence at the head of the input and whether
  it is complete; what is not becomes one U+FFFD.
\<close>

fun utf8_seq :: "bytes \<Rightarrow> bool \<times> nat" where
  "utf8_seq [] = (True, 0)"
| "utf8_seq (a # r) =
    (if utf8_between 0x00 0x7F a then (True, 1)
     else if utf8_between 0xC2 0xDF a then
       (case r of b # _ \<Rightarrow> if utf8_between 0x80 0xBF b then (True, 2) else (False, 1) | _ \<Rightarrow> (False, 1))
     else if utf8_between 0xE0 0xEF a then
       (case r of
          b # r' \<Rightarrow>
            if utf8_between (if a = CHR 0xE0 then 0xA0 else 0x80) (if a = CHR 0xED then 0x9F else 0xBF) b then
              (case r' of c # _ \<Rightarrow> if utf8_between 0x80 0xBF c then (True, 3) else (False, 2) | _ \<Rightarrow> (False, 2))
            else (False, 1)
        | _ \<Rightarrow> (False, 1))
     else if utf8_between 0xF0 0xF4 a then
       (case r of
          b # r' \<Rightarrow>
            if utf8_between (if a = CHR 0xF0 then 0x90 else 0x80) (if a = CHR 0xF4 then 0x8F else 0xBF) b then
              (case r' of
                 c # r'' \<Rightarrow>
                   if utf8_between 0x80 0xBF c then
                     (case r'' of d # _ \<Rightarrow> if utf8_between 0x80 0xBF d then (True, 4) else (False, 3)
                      | _ \<Rightarrow> (False, 3))
                   else (False, 2)
               | _ \<Rightarrow> (False, 2))
            else (False, 1)
        | _ \<Rightarrow> (False, 1))
     else (False, 1))"

function from_utf8_lossy :: "bytes \<Rightarrow> bytes" where
  "from_utf8_lossy s = (if s = [] then []
     else case utf8_seq s of (ok, n) \<Rightarrow>
       (if ok then take (max n 1) s else [CHR 0xEF, CHR 0xBF, CHR 0xBD]) @ from_utf8_lossy (drop (max n 1) s))"
  by pat_completeness auto
termination
  by (relation "measure length") (auto split: list.splits)

declare from_utf8_lossy.simps [simp del]

section \<open>Splitting and searching\<close>

text \<open>\<open>slice::chunks(n)\<close>, for a positive \<open>n\<close>.\<close>

fun chunks :: "nat \<Rightarrow> 'a list \<Rightarrow> 'a list list" where
  "chunks n xs = (if xs = [] \<or> n = 0 then [] else take n xs # chunks n (drop n xs))"

declare chunks.simps [simp del]

text \<open>\<open>str::split(c)\<close> and \<open>str::split_once(c)\<close>.\<close>

fun split_char :: "char \<Rightarrow> bytes \<Rightarrow> bytes list" where
  "split_char d [] = [[]]"
| "split_char d (c # s) =
    (if c = d then [] # split_char d s
     else (case split_char d s of [] \<Rightarrow> [[c]] | w # ws \<Rightarrow> (c # w) # ws))"

fun split_once :: "char \<Rightarrow> bytes \<Rightarrow> (bytes \<times> bytes) option" where
  "split_once d [] = None"
| "split_once d (c # s) =
    (if c = d then Some ([], s) else map_option (\<lambda>(a, b). (c # a, b)) (split_once d s))"

definition starts_with :: "bytes \<Rightarrow> bytes \<Rightarrow> bool" where
  "starts_with s p \<longleftrightarrow> take (length p) s = p"

text \<open>\<open>str::find(pat)\<close>: the offset of the first occurrence.\<close>

fun find_str :: "bytes \<Rightarrow> bytes \<Rightarrow> nat option" where
  "find_str [] p = (if p = [] then Some 0 else None)"
| "find_str (c # s) p = (if starts_with (c # s) p then Some 0 else map_option Suc (find_str s p))"

text \<open>\<open>str::match_indices(pat).count()\<close>: non-overlapping occurrences of a non-empty pattern.\<close>

function match_count :: "bytes \<Rightarrow> bytes \<Rightarrow> nat" where
  "match_count s p = (if s = [] \<or> p = [] then 0
     else if starts_with s p then Suc (match_count (drop (length p) s) p)
     else match_count (tl s) p)"
  by pat_completeness auto
termination
  by (relation "measure (\<lambda>(s, p). length s)") (auto simp: neq_Nil_conv)

declare match_count.simps [simp del]

definition strip_suffix_char :: "bytes \<Rightarrow> char \<Rightarrow> bytes option" where
  "strip_suffix_char s c = (if s \<noteq> [] \<and> last s = c then Some (butlast s) else None)"

text \<open>\<open>str::lines\<close>: split at every line feed, a carriage return before it removed too.\<close>

fun split_inclusive :: "char \<Rightarrow> bytes \<Rightarrow> bytes list" where
  "split_inclusive d [] = []"
| "split_inclusive d (c # s) =
    (if c = d then [c] # split_inclusive d s
     else (case split_inclusive d s of [] \<Rightarrow> [[c]] | w # ws \<Rightarrow> (c # w) # ws))"

definition strip_line_end :: "bytes \<Rightarrow> bytes" where
  "strip_line_end l = (case strip_suffix_char l (CHR 0x0A) of None \<Rightarrow> l
     | Some l' \<Rightarrow> (case strip_suffix_char l' (CHR 0x0D) of None \<Rightarrow> l' | Some l'' \<Rightarrow> l''))"

definition lines :: "bytes \<Rightarrow> bytes list" where
  "lines s = map strip_line_end (split_inclusive (CHR 0x0A) s)"

section \<open>Numbers\<close>

text \<open>\<open>char::to_digit(radix)\<close>.\<close>

definition to_digit :: "u64 \<Rightarrow> char \<Rightarrow> u64 option" where
  "to_digit radix c =
    (let n = (of_char c :: u64);
         d = (if 48 \<le> n \<and> n \<le> 57 then n - 48
              else if 97 \<le> n \<and> n \<le> 122 then n - 87
              else if 65 \<le> n \<and> n \<le> 90 then n - 55 else 36)
     in if d < radix then Some d else None)"

definition u32_max :: u64 where
  "u32_max = 0xFFFFFFFF"

fun u32_digits :: "bytes \<Rightarrow> u64 \<Rightarrow> u64 option" where
  "u32_digits [] acc = Some acc"
| "u32_digits (c # s) acc =
    (case to_digit 10 c of None \<Rightarrow> None
     | Some d \<Rightarrow> if acc * 10 + d \<le> u32_max then u32_digits s (acc * 10 + d) else None)"

text \<open>
  \<open>u32::from_str\<close>: an optional plus sign, then at least one decimal digit. The checked
  arithmetic on \<open>u32\<close> is done in 64 bits, where no step of it can wrap.
\<close>

definition u32_from_str :: "bytes \<Rightarrow> u32 option" where
  "u32_from_str s =
    (let ds = (case s of [] \<Rightarrow> [] | c # r \<Rightarrow> if c = CHR ''+'' then r else s)
     in if ds = [] then None else map_option ucast (u32_digits ds 0))"

section \<open>Lemmas\<close>

subsection \<open>Hexadecimal digits\<close>

lemma hex_string_length_pos: "hex_string n \<noteq> []"
  by (subst hex_string.simps) simp

lemma hex_string_length_le: "n < 16 ^ w \<Longrightarrow> 0 < w \<Longrightarrow> length (hex_string n) \<le> w"
proof (induction w arbitrary: n)
  case (Suc w)
  show ?case
  proof (cases "n < 16")
    case True
    then show ?thesis by (subst hex_string.simps) simp
  next
    case False
    with Suc.prems have "0 < w" by (cases w) auto
    moreover have "n div 16 < 16 ^ w" using Suc.prems by (simp add: less_mult_imp_div_less)
    ultimately have "length (hex_string (n div 16)) \<le> w" by (rule Suc.IH [rotated])
    with False show ?thesis by (subst hex_string.simps) simp
  qed
qed simp

text \<open>The padded rendering is the list of base-16 digits, most significant first.\<close>

definition hex_digits :: "nat \<Rightarrow> nat \<Rightarrow> string" where
  "hex_digits w n = map (\<lambda>i. ''0123456789abcdef'' ! (n div 16 ^ i mod 16)) (rev [0..<w])"

lemma hex_digits_length [simp]: "length (hex_digits w n) = w"
  by (simp add: hex_digits_def)

lemma hex_digits_Suc:
  "hex_digits (Suc w) n = hex_digits w (n div 16) @ [''0123456789abcdef'' ! (n mod 16)]"
proof -
  have "rev [0..<Suc w] = map Suc (rev [0..<w]) @ [0]"
    by (simp add: rev_map [symmetric] map_Suc_upt upt_conv_Cons del: upt_Suc)
  then show ?thesis by (simp add: hex_digits_def div_mult2_eq del: upt_Suc)
qed

lemma hex_digits_0 [simp]: "hex_digits 0 n = []"
  by (simp add: hex_digits_def)

lemma hex_digits_zero: "hex_digits w 0 = replicate w CHR ''0''"
  by (induction w) (simp_all add: hex_digits_Suc replicate_append_same)

lemma format_lower_hex_eq:
  "n < 16 ^ w \<Longrightarrow> 0 < w \<Longrightarrow> format_lower_hex w n = hex_digits w n"
proof (induction w arbitrary: n)
  case (Suc w)
  show ?case
  proof (cases "n < 16")
    case True
    then have "hex_string n = [''0123456789abcdef'' ! n]"
      by (subst hex_string.simps) simp
    with True show ?thesis
      by (simp add: format_lower_hex_def hex_digits_Suc hex_digits_zero)
  next
    case False
    with Suc.prems have "0 < w" by (cases w) auto
    moreover have "n div 16 < 16 ^ w" using Suc.prems by (simp add: less_mult_imp_div_less)
    ultimately have "format_lower_hex w (n div 16) = hex_digits w (n div 16)"
      by (rule Suc.IH [rotated])
    moreover have "hex_string n = hex_string (n div 16) @ [''0123456789abcdef'' ! (n mod 16)]"
      using False by (subst hex_string.simps) simp
    ultimately show ?thesis
      by (simp add: format_lower_hex_def hex_digits_Suc Let_def)
  qed
qed simp

lemma hex_digits_mod: "hex_digits w (n mod 16 ^ w) = hex_digits w n"
proof (induction w arbitrary: n)
  case (Suc w)
  have "n mod 16 ^ Suc w div 16 = (n div 16) mod 16 ^ w"
    by (simp add: div_mult2_eq mod_mult2_eq)
  moreover have "n mod 16 ^ Suc w mod 16 = n mod 16" by (simp add: mod_mod_cancel)
  ultimately show ?case by (simp only: hex_digits_Suc Suc.IH)
qed simp

subsection \<open>UTF-8 and chunks\<close>

lemma utf8_valid_ascii: "\<forall>c \<in> set s. of_char c < (128 :: nat) \<Longrightarrow> utf8_valid s"
  by (induction s) (auto simp: utf8_between_def)

lemma concat_chunks: "0 < n \<Longrightarrow> concat (chunks n xs) = xs"
proof (induction n xs rule: chunks.induct)
  case (1 n xs)
  then show ?case by (subst chunks.simps) auto
qed

lemma chunks_append: "0 < n \<Longrightarrow> length xs = n \<Longrightarrow> chunks n (xs @ ys) = xs # chunks n ys"
  by (subst chunks.simps) auto

lemma chunks_Nil [simp]: "chunks n [] = []"
  by (subst chunks.simps) simp

lemma set_chunks_subset: "l \<in> set (chunks n xs) \<Longrightarrow> set l \<subseteq> set xs"
proof (induction n xs rule: chunks.induct)
  case (1 n xs)
  then show ?case
    by (subst (asm) chunks.simps) (auto split: if_splits dest: in_set_takeD in_set_dropD)
qed

lemma chunks_concat: "\<forall>c \<in> set cs. length c = n \<Longrightarrow> 0 < n \<Longrightarrow> chunks n (concat cs) = cs"
  by (induction cs) (auto simp: chunks_append)

lemma chunks_full: "0 < n \<Longrightarrow> length xs = n * k \<Longrightarrow> length (chunks n xs) = k \<and> (\<forall>c \<in> set (chunks n xs). length c = n)"
proof (induction k arbitrary: xs)
  case (Suc k)
  then have len: "n \<le> length xs" "length (drop n xs) = n * k" by simp_all
  have eq: "chunks n xs = take n xs # chunks n (drop n xs)"
    using len Suc.prems(1) by (subst chunks.simps) auto
  have IH: "length (chunks n (drop n xs)) = k" "\<forall>c \<in> set (chunks n (drop n xs)). length c = n"
    using Suc.IH [OF Suc.prems(1) len(2)] by blast+
  have "length (take n xs) = n" using len(1) by (rule length_take [THEN trans, OF min_absorb2])
  then have "\<forall>c \<in> set (take n xs # chunks n (drop n xs)). length c = n"
    using IH(2) by (simp only: list.set) blast
  moreover have "length (take n xs # chunks n (drop n xs)) = Suc k" using IH(1) by simp
  ultimately show ?case by (simp only: eq)
qed simp

lemma chunks_map: "chunks n (map f xs) = map (map f) (chunks n xs)"
proof (induction n xs rule: chunks.induct)
  case (1 n xs)
  show ?case
  proof (cases "xs = [] \<or> n = 0")
    case True
    then show ?thesis by (simp add: chunks.simps [of n])
  next
    case False
    then show ?thesis
      using 1 by (simp add: chunks.simps [of n xs] chunks.simps [of n "map f xs"] take_map drop_map)
  qed
qed

lemma map_length_chunks: "length xs = length ys \<Longrightarrow> map length (chunks n xs) = map length (chunks n ys)"
proof (induction n xs arbitrary: ys rule: chunks.induct)
  case (1 n xs)
  show ?case
  proof (cases "xs = [] \<or> n = 0")
    case True
    with "1.prems" show ?thesis by (auto simp: chunks.simps [of n])
  next
    case False
    then show ?thesis
      using 1 by (auto simp: chunks.simps [of n xs] chunks.simps [of n ys])
  qed
qed

subsection \<open>Splitting and counting\<close>

lemma split_char_none: "d \<notin> set s \<Longrightarrow> split_char d s = [s]"
  by (induction s) auto

lemma split_char_first: "d \<notin> set a \<Longrightarrow> split_char d (a @ d # b) = a # split_char d b"
  by (induction a) auto

lemma split_char_induct [case_names none first]:
  assumes "\<And>s. d \<notin> set s \<Longrightarrow> P s" and "\<And>a b. d \<notin> set a \<Longrightarrow> P b \<Longrightarrow> P (a @ d # b)"
  shows "P s"
proof (induction "length s" arbitrary: s rule: less_induct)
  case less
  show ?case
  proof (cases "d \<in> set s")
    case True
    then obtain a b where "s = a @ d # b" "d \<notin> set a" by (auto dest: split_list_first)
    with less [of b] assms(2) show ?thesis by simp
  qed (rule assms(1))
qed

lemma split_char_map:
  assumes "\<And>c. f c = d \<longleftrightarrow> c = d"
  shows "split_char d (map f s) = map (map f) (split_char d s)"
proof (induction s)
  case (Cons c s)
  then show ?case by (cases "split_char d s") (auto simp: assms)
qed simp

lemma starts_with_append_sep:
  assumes "d \<notin> set p"
  shows "starts_with (a @ d # b) p \<longleftrightarrow> starts_with a p"
proof (cases "length p \<le> length a")
  case False
  then have "d \<in> set (take (length p) (a @ d # b))" by (simp add: take_Cons' split: if_splits)
  with assms have "take (length p) (a @ d # b) \<noteq> p" by metis
  moreover have "a \<noteq> p" using False by auto
  ultimately show ?thesis using False by (simp add: starts_with_def)
qed (simp add: starts_with_def)

lemma match_count_append_sep:
  assumes "d \<notin> set p" and "p \<noteq> []"
  shows "match_count (a @ d # b) p = match_count a p + match_count b p"
proof (induction "length a" arbitrary: a rule: less_induct)
  case less
  show ?case
  proof (cases a)
    case Nil
    have "\<not> starts_with (d # b) p" using starts_with_append_sep [OF assms(1), of "[]" b] assms(2)
      by (simp add: starts_with_def)
    with Nil assms show ?thesis
      by (simp add: match_count.simps [of "d # b"] match_count.simps [of "[]"])
  next
    case (Cons c r)
    show ?thesis
    proof (cases "starts_with a p")
      case True
      then have "length p \<le> length a" by (auto simp: starts_with_def min_def dest!: arg_cong [of _ _ length] split: if_splits)
      then have "match_count (drop (length p) a @ d # b) p = match_count (drop (length p) a) p + match_count b p"
        using Cons assms(2) by (intro less) simp
      moreover have "match_count (a @ d # b) p = Suc (match_count (drop (length p) a @ d # b) p)"
        using True \<open>length p \<le> length a\<close> starts_with_append_sep [OF assms(1), of a b] assms(2)
        by (subst match_count.simps) simp
      moreover have "match_count a p = Suc (match_count (drop (length p) a) p)"
        using True Cons assms(2) by (subst match_count.simps) simp
      ultimately show ?thesis by simp
    next
      case False
      have "match_count (a @ d # b) p = match_count (r @ d # b) p"
        using False Cons starts_with_append_sep [OF assms(1), of a b] assms(2)
        by (subst match_count.simps) simp
      moreover have "match_count a p = match_count r p"
        using False Cons assms(2) by (subst match_count.simps) simp
      ultimately show ?thesis using less [of r] Cons by simp
    qed
  qed
qed

lemma match_count_split_char:
  assumes "d \<notin> set p" and "p \<noteq> []"
  shows "match_count s p = sum_list (map (\<lambda>w. match_count w p) (split_char d s))"
  by (induction s rule: split_char_induct [where d = d])
    (simp_all add: split_char_none split_char_first match_count_append_sep [OF assms])

lemma match_count_zero_iff: "p \<noteq> [] \<Longrightarrow> match_count s p = 0 \<longleftrightarrow> find_str s p = None"
proof (induction s)
  case (Cons c s)
  then show ?case by (simp add: match_count.simps [of "c # s"])
qed (simp add: match_count.simps)

lemma find_str_bound: "find_str s p = Some n \<Longrightarrow> n + length p \<le> length s"
proof (induction s arbitrary: n)
  case (Cons c s)
  show ?case
  proof (cases "starts_with (c # s) p")
    case True
    with Cons.prems show ?thesis
      by (auto simp: starts_with_def min_def dest!: arg_cong [of _ _ length] split: if_splits)
  qed (use Cons in auto)
qed (simp split: if_splits)

lemma split_inclusive_length: "l \<in> set (split_inclusive d s) \<Longrightarrow> length l \<le> length s"
proof (induction s arbitrary: l)
  case (Cons c s)
  then show ?case by (cases "split_inclusive d s") (fastforce split: if_splits)+
qed simp

lemma lines_length: "l \<in> set (lines s) \<Longrightarrow> length l \<le> length s"
proof -
  have "length (strip_line_end w) \<le> length w" for w
    by (auto simp: strip_line_end_def strip_suffix_char_def split: option.splits)
  then show "l \<in> set (lines s) \<Longrightarrow> length l \<le> length s"
    using split_inclusive_length [of _ "CHR 0x0A" s] by (auto simp: lines_def intro: order.trans)
qed

end
