(* ===== verification/Net_Text.thy ===== *)
theory Net_Text
  imports Std_Text
begin

text \<open>
  IP addresses of the Rust standard library as text: \<open>Display\<close> and \<open>FromStr\<close> of \<open>Ipv4Addr\<close>,
  \<open>Ipv6Addr\<close>, \<open>IpAddr\<close> and \<open>SocketAddr\<close>, which the configuration and the command line read and
  the diagnostics print. The reader follows the parser of \<open>core::net\<close>: every reader takes the
  rest of the input and returns its result with what it did not consume, and \<open>None\<close> leaves
  the input where it was.
\<close>

datatype ip_addr = V4 u32 | V6 u128

text \<open>The scope of an IPv6 socket address is read and dropped by every caller.\<close>

type_synonym socket_addr = "ip_addr \<times> u16"

section \<open>Display\<close>

definition octets :: "u32 \<Rightarrow> nat list" where
  "octets a = map (\<lambda>i. unat (drop_bit (8 * i) a AND 0xFF)) [3, 2, 1, 0]"

definition segments :: "u128 \<Rightarrow> u16 list" where
  "segments a = map (\<lambda>i. ucast (drop_bit (16 * i) a)) [7, 6, 5, 4, 3, 2, 1, 0]"

fun join_with :: "string \<Rightarrow> string list \<Rightarrow> string" where
  "join_with sep [] = []"
| "join_with sep [w] = w"
| "join_with sep (w # ws) = w @ sep @ join_with sep ws"

definition show_ipv4 :: "u32 \<Rightarrow> string" where
  "show_ipv4 a = join_with ''.'' (map dec_string (octets a))"

text \<open>The first longest run of zero segments, as its start and length.\<close>

fun zero_run :: "nat \<Rightarrow> u16 list \<Rightarrow> nat \<times> nat \<Rightarrow> nat \<times> nat \<Rightarrow> nat \<times> nat" where
  "zero_run i [] current longest = longest"
| "zero_run i (s # ss) current longest =
    (if s = 0 then
       let current' = ((if snd current = 0 then i else fst current), snd current + 1)
       in zero_run (i + 1) ss current' (if snd current' > snd longest then current' else longest)
     else zero_run (i + 1) ss (0, 0) longest)"

definition fmt_subslice :: "u16 list \<Rightarrow> string" where
  "fmt_subslice ss = join_with '':'' (map (\<lambda>s. hex_string (unat s)) ss)"

definition show_ipv6 :: "u128 \<Rightarrow> string" where
  "show_ipv6 a =
    (if drop_bit 32 a = 0xFFFF then ''::ffff:'' @ show_ipv4 (ucast a)
     else
       let ss = segments a; (start, len) = zero_run 0 ss (0, 0) (0, 0)
       in if len > 1 then fmt_subslice (take start ss) @ ''::'' @ fmt_subslice (drop (start + len) ss)
          else fmt_subslice ss)"

fun show_ip :: "ip_addr \<Rightarrow> string" where
  "show_ip (V4 a) = show_ipv4 a"
| "show_ip (V6 a) = show_ipv6 a"

fun show_socket_addr :: "socket_addr \<Rightarrow> string" where
  "show_socket_addr (V4 a, port) = show_ipv4 a @ '':'' @ dec_string (unat port)"
| "show_socket_addr (V6 a, port) = ''['' @ show_ipv6 a @ '']:'' @ dec_string (unat port)"

section \<open>Reading\<close>

text \<open>
  The digits of a number. With \<open>max_digits\<close> a longer run of digits fails; without it the
  value fails as soon as it passes \<open>tmax\<close>, the largest value of the type.
\<close>

fun digit_run :: "u64 \<Rightarrow> nat option \<Rightarrow> u64 \<Rightarrow> bytes \<Rightarrow> u64 \<Rightarrow> nat \<Rightarrow> (u64 \<times> nat \<times> bytes) option" where
  "digit_run radix max_digits tmax [] result count = Some (result, count, [])"
| "digit_run radix max_digits tmax (c # s) result count =
    (case to_digit radix c of
       None \<Rightarrow> Some (result, count, c # s)
     | Some d \<Rightarrow>
         (case max_digits of
            Some m \<Rightarrow> if count + 1 > m then None
                      else digit_run radix max_digits tmax s (result * radix + d) (count + 1)
          | None \<Rightarrow> if result * radix + d > tmax then None
                    else digit_run radix max_digits tmax s (result * radix + d) (count + 1)))"

definition read_number :: "u64 \<Rightarrow> nat option \<Rightarrow> bool \<Rightarrow> u64 \<Rightarrow> bytes \<Rightarrow> (u64 \<times> bytes) option" where
  "read_number radix max_digits allow_zero_prefix tmax s =
    (case digit_run radix max_digits tmax s 0 0 of
       None \<Rightarrow> None
     | Some (result, count, rest) \<Rightarrow>
         if count = 0 then None
         else if \<not> allow_zero_prefix \<and> take 1 s = ''0'' \<and> count > 1 then None
         else if result > tmax then None
         else Some (result, rest))"

fun read_given_char :: "char \<Rightarrow> bytes \<Rightarrow> bytes option" where
  "read_given_char t [] = None"
| "read_given_char t (c # s) = (if c = t then Some s else None)"

definition read_separator :: "char \<Rightarrow> nat \<Rightarrow> (bytes \<Rightarrow> ('a \<times> bytes) option) \<Rightarrow> bytes \<Rightarrow> ('a \<times> bytes) option" where
  "read_separator sep index inner s =
    (if index > 0 then (case read_given_char sep s of None \<Rightarrow> None | Some s' \<Rightarrow> inner s') else inner s)"

fun read_ipv4_groups :: "nat list \<Rightarrow> bytes \<Rightarrow> (u64 list \<times> bytes) option" where
  "read_ipv4_groups [] s = Some ([], s)"
| "read_ipv4_groups (i # is) s =
    (case read_separator CHR ''.'' i (read_number 10 (Some 3) False 255) s of
       None \<Rightarrow> None
     | Some (n, s') \<Rightarrow> map_option (\<lambda>(ns, r). (n # ns, r)) (read_ipv4_groups is s'))"

text \<open>A value from its big-endian groups of \<open>k\<close> bits.\<close>

definition from_be :: "nat \<Rightarrow> u64 list \<Rightarrow> 'a :: len word" where
  "from_be k ns = foldl (\<lambda>acc n. push_bit k acc OR ucast n) 0 ns"

definition read_ipv4_addr :: "bytes \<Rightarrow> (u64 list \<times> bytes) option" where
  "read_ipv4_addr s = read_ipv4_groups [0, 1, 2, 3] s"

text \<open>
  \<open>read_groups\<close> on \<open>limit\<close> slots: the groups read, whether the last two came from an embedded
  IPv4 address, and the rest of the input.
\<close>

function read_groups :: "nat \<Rightarrow> nat \<Rightarrow> bytes \<Rightarrow> u64 list \<times> bool \<times> bytes" where
  "read_groups limit i s =
    (if i \<ge> limit then ([], False, s)
     else
       (case (if i < limit - 1 then read_separator CHR '':'' i read_ipv4_addr s else None) of
          Some (os, s') \<Rightarrow> ([from_be 8 (take 2 os), from_be 8 (drop 2 os)], True, s')
        | None \<Rightarrow>
            (case read_separator CHR '':'' i (read_number 16 (Some 4) True 0xFFFF) s of
               None \<Rightarrow> ([], False, s)
             | Some (g, s') \<Rightarrow> (case read_groups limit (i + 1) s' of (gs, v4, r) \<Rightarrow> (g # gs, v4, r)))))"
  by pat_completeness auto
termination
  by (relation "measure (\<lambda>(limit, i, s). limit - i)") auto

declare read_groups.simps [simp del]

definition read_ipv6_addr :: "bytes \<Rightarrow> (u128 \<times> bytes) option" where
  "read_ipv6_addr s =
    (case read_groups 8 0 s of (head, head_ipv4, s1) \<Rightarrow>
       if length head = 8 then Some (from_be 16 head, s1)
       else if head_ipv4 then None
       else
         (case read_given_char CHR '':'' s1 of None \<Rightarrow> None
          | Some s2 \<Rightarrow>
            (case read_given_char CHR '':'' s2 of None \<Rightarrow> None
             | Some s3 \<Rightarrow>
               (case read_groups (8 - (length head + 1)) 0 s3 of (tail, _, s4) \<Rightarrow>
                  Some ((from_be 16
                    (head @ replicate (8 - length head - length tail) 0 @ tail)), s4)))))"

definition parse_with :: "(bytes \<Rightarrow> ('a \<times> bytes) option) \<Rightarrow> bytes \<Rightarrow> 'a option" where
  "parse_with inner s = (case inner s of Some (x, []) \<Rightarrow> Some x | _ \<Rightarrow> None)"

definition read_ip_addr :: "bytes \<Rightarrow> (ip_addr \<times> bytes) option" where
  "read_ip_addr s =
    (case read_ipv4_addr s of
       Some (os, r) \<Rightarrow> Some (V4 (from_be 8 os), r)
     | None \<Rightarrow> map_option (\<lambda>(a, r). (V6 a, r)) (read_ipv6_addr s))"

definition read_port :: "bytes \<Rightarrow> (u16 \<times> bytes) option" where
  "read_port s = (case read_given_char CHR '':'' s of None \<Rightarrow> None
     | Some s' \<Rightarrow> map_option (\<lambda>(n, r). (ucast n, r)) (read_number 10 None True 0xFFFF s'))"

definition read_scope_id :: "bytes \<Rightarrow> (u64 \<times> bytes) option" where
  "read_scope_id s = (case read_given_char CHR ''%'' s of None \<Rightarrow> None
     | Some s' \<Rightarrow> read_number 10 None True u32_max s')"

definition read_socket_addr_v4 :: "bytes \<Rightarrow> (socket_addr \<times> bytes) option" where
  "read_socket_addr_v4 s = (case read_ipv4_addr s of None \<Rightarrow> None
     | Some (os, s') \<Rightarrow> map_option (\<lambda>(p, r). ((V4 (from_be 8 os), p), r)) (read_port s'))"

definition read_socket_addr_v6 :: "bytes \<Rightarrow> (socket_addr \<times> bytes) option" where
  "read_socket_addr_v6 s =
    (case read_given_char CHR ''['' s of None \<Rightarrow> None
     | Some s1 \<Rightarrow>
       (case read_ipv6_addr s1 of None \<Rightarrow> None
        | Some (a, s2) \<Rightarrow>
          (let s3 = (case read_scope_id s2 of Some (_, r) \<Rightarrow> r | None \<Rightarrow> s2)
           in (case read_given_char CHR '']'' s3 of None \<Rightarrow> None
               | Some s4 \<Rightarrow> map_option (\<lambda>(p, r). ((V6 a, p), r)) (read_port s4)))))"

definition ipv6_from_str :: "bytes \<Rightarrow> u128 option" where
  "ipv6_from_str s = parse_with read_ipv6_addr s"

definition ip_from_str :: "bytes \<Rightarrow> ip_addr option" where
  "ip_from_str s = parse_with read_ip_addr s"

definition socket_addr_from_str :: "bytes \<Rightarrow> socket_addr option" where
  "socket_addr_from_str s =
    parse_with (\<lambda>s. case read_socket_addr_v4 s of Some x \<Rightarrow> Some x | None \<Rightarrow> read_socket_addr_v6 s) s"

end
