(* ===== verification/Config_Error.thy ===== *)
theory Config_Error
  imports Net_Text
begin

text \<open>
  \<open>src/src/config/error.rs\<close>: configuration diagnostics. A \<open>Range<usize>\<close> is the pair of its
  bounds, a path the text it displays as, and what a \<open>Display\<close> implementation writes is the
  value of a function.
\<close>

section \<open>Errors\<close>

datatype config_error_kind =
    NotUtf8
  | UnknownDirective string
  | MissingValue string
  | DirectiveBeforeNetwork string
  | GlobalAfterNetwork string
  | InvalidNumber string string
  | InvalidDnsName string
  | InvalidChoice string string
  | MissingCompanionDirective string string
  | DuplicateDirective string u32
  | MissingResolvesTo
  | NetworkMissingPrefixLen
  | NetworkInvalidAddress
  | NetworkPrefixLenNotANumber
  | NetworkPrefixLenOutOfRange u32
  | NetworkPrefixNotNibbleAligned u8
  | NetworkHostBitsSet string
  | NetworkPrefixTooShort u8
  | NetworkIsSingleAddress
  | DuplicateNetwork u32
  | PlaceholderMissing
  | PlaceholderRepeated nat
  | DashedDigitsNotNibbleMultipleOfFour u8
  | ResolvesToInvalidName string
  | ForwardNameTooLong string
  | DuplicateForwardPattern u32
  | InvalidListenAddress
  | InvalidUpstreamAddress

record config_error =
  ce_line :: u32
  ce_snippet :: bytes
  ce_span :: "(nat \<times> nat) option"
  ce_kind :: config_error_kind

fun message :: "config_error_kind \<Rightarrow> string" where
  "message NotUtf8 = ''line is not valid UTF-8''"
| "message (UnknownDirective keyword) = ''unknown directive `'' @ keyword @ ''`''"
| "message (MissingValue keyword) = ''`'' @ keyword @ ''` requires a value''"
| "message (DirectiveBeforeNetwork keyword) =
    ''`'' @ keyword @ ''` appears before any `network` directive''"
| "message (GlobalAfterNetwork keyword) =
    ''`'' @ keyword @ ''` is a global setting and must appear before the first `network`''"
| "message (InvalidNumber what allowed) = ''`'' @ what @ ''` is not a valid number''"
| "message (InvalidDnsName what) = ''`'' @ what @ ''` is not a valid DNS name''"
| "message (InvalidChoice what allowed) = ''invalid value for `'' @ what @ ''`''"
| "message (MissingCompanionDirective missing present) =
    ''`'' @ present @ ''` is set but `'' @ missing @ ''` is missing; a SOA record needs both''"
| "message (DuplicateDirective keyword first_line) =
    ''duplicate `'' @ keyword @ ''` for this network (first set on line '' @
    dec_string (unat first_line) @ '')''"
| "message MissingResolvesTo = ''this `network` has no `resolves to` directive''"
| "message NetworkMissingPrefixLen = ''network is missing a prefix length, e.g. `/64`''"
| "message NetworkInvalidAddress = ''not a valid IPv6 address''"
| "message NetworkPrefixLenNotANumber = ''prefix length is not a number''"
| "message (NetworkPrefixLenOutOfRange m) =
    ''prefix length /'' @ dec_string (unat m) @ '' is out of range (0-128)''"
| "message (NetworkPrefixNotNibbleAligned m) =
    ''prefix length /'' @ dec_string (unat m) @ '' is not nibble-aligned (must be a multiple of 4)''"
| "message (NetworkHostBitsSet suggestion) = ''network has bits set below its prefix length''"
| "message (NetworkPrefixTooShort m) =
    ''prefix length /'' @ dec_string (unat m) @
    '' would make this server authoritative for all of ip6.arpa''"
| "message NetworkIsSingleAddress = ''/128 is a single address, leaving no digits for %DIGITS%''"
| "message (DuplicateNetwork first_line) =
    ''network is already configured on line '' @ dec_string (unat first_line)"
| "message PlaceholderMissing = ''`resolves to` must contain %DIGITS% or %DIGITS-DASHED%''"
| "message (PlaceholderRepeated count) =
    ''`resolves to` contains %DIGITS%/%DIGITS-DASHED% '' @ dec_string count @
    '' times, expected exactly once''"
| "message (DashedDigitsNotNibbleMultipleOfFour host_nibbles) =
    ''%DIGITS-DASHED% needs a host part that is a multiple of 4 hex digits wide, but this network'' @
    [CHR 0x27] @ ''s is '' @ dec_string (unat host_nibbles)"
| "message (ResolvesToInvalidName reason) =
    ''`resolves to` is not a valid DNS name: '' @ reason"
| "message (ForwardNameTooLong reason) =
    ''the widest name this template can produce is invalid: '' @ reason"
| "message (DuplicateForwardPattern first_line) =
    ''this `resolves to` pattern is already used on line '' @ dec_string (unat first_line)"
| "message InvalidListenAddress = ''not a valid IP address or address:port''"
| "message InvalidUpstreamAddress = ''not a valid IP address''"

definition hint :: "config_error_kind \<Rightarrow> string option" where
  "hint k = (case k of
     NetworkMissingPrefixLen \<Rightarrow> Some
       ''a `network` without a prefix length is what made AllKnowingDNS claim the whole ip6.arpa namespace''
   | NetworkPrefixNotNibbleAligned _ \<Rightarrow>
       Some (''expected /0, /4, /8, '' @ [CHR 0xE2, CHR 0x80, CHR 0xA6] @ '' /128'')
   | NetworkHostBitsSet suggestion \<Rightarrow> Some (''did you mean `'' @ suggestion @ ''`?'')
   | PlaceholderMissing \<Rightarrow> Some ''e.g. `resolves to ipv6-%DIGITS%.example.net`''
   | DashedDigitsNotNibbleMultipleOfFour _ \<Rightarrow>
       Some ''prefix length must leave a multiple of 4 hex digits, e.g. /48, /96''
   | InvalidListenAddress \<Rightarrow>
       Some ''e.g. `listen 2001:db8::1`, `listen 0.0.0.0`, `listen [::]:5353`''
   | InvalidNumber _ allowed \<Rightarrow> Some (''expected '' @ allowed)
   | InvalidChoice _ allowed \<Rightarrow> Some (''expected '' @ allowed)
   | InvalidDnsName _ \<Rightarrow> Some ''e.g. `ns1.example.net.` (a trailing dot is optional)''
   | GlobalAfterNetwork _ \<Rightarrow> Some
       ''indentation is decorative in this format, so globals are recognised by position''
   | _ \<Rightarrow> None)"

definition show_config_error :: "config_error \<Rightarrow> string" where
  "show_config_error e = message (ce_kind e)"

section \<open>Reports\<close>

record config_errors =
  cs_path :: "string option"
  cs_errors :: "config_error list"

definition config_errors_new :: "config_error list \<Rightarrow> config_errors" where
  "config_errors_new errors = \<lparr>cs_path = None, cs_errors = errors\<rparr>"

definition with_path :: "config_errors \<Rightarrow> string \<Rightarrow> config_errors" where
  "with_path es path = es\<lparr>cs_path := Some path\<rparr>"

definition config_errors_is_empty :: "config_errors \<Rightarrow> bool" where
  "config_errors_is_empty es = (cs_errors es = [])"

definition config_errors_len :: "config_errors \<Rightarrow> nat" where
  "config_errors_len es = length (cs_errors es)"

text \<open>The caret line of one error: the padding, with tabs mirrored, and the carets.\<close>

definition caret_line :: "config_error \<Rightarrow> string \<times> string" where
  "caret_line err =
    (case ce_span err of
       Some (start, stop) \<Rightarrow>
         (map (\<lambda>b. if b = CHR 0x09 then CHR 0x09 else CHR '' '') (take start (ce_snippet err)),
          replicate (max (stop - start) 1) CHR ''^'')
     | None \<Rightarrow> ([], replicate (max (length (ce_snippet err)) 1) CHR ''^''))"

definition newline :: string where
  "newline = [CHR 0x0A]"

definition show_error_block :: "string \<Rightarrow> config_error \<Rightarrow> string" where
  "show_error_block path err =
    (let num = dec_string (unat (ce_line err));
         gutter = replicate (length num) CHR '' '';
         (pad, carets) = caret_line err
     in ''error: '' @ message (ce_kind err) @ newline @
        gutter @ ''--> '' @ path @ '':'' @ dec_string (unat (ce_line err)) @ newline @
        gutter @ '' |'' @ newline @
        num @ '' | '' @ ce_snippet err @ newline @
        (case hint (ce_kind err) of
           Some h \<Rightarrow> gutter @ '' | '' @ pad @ carets @ '' '' @ h @ newline
         | None \<Rightarrow> gutter @ '' | '' @ pad @ carets @ newline))"

fun show_error_blocks :: "string \<Rightarrow> nat \<Rightarrow> config_error list \<Rightarrow> string" where
  "show_error_blocks path i [] = []"
| "show_error_blocks path i (err # errs) =
    (if i > 0 then newline else []) @ show_error_block path err @ show_error_blocks path (i + 1) errs"

definition show_config_errors :: "config_errors \<Rightarrow> string" where
  "show_config_errors es =
    (let path = (case cs_path es of None \<Rightarrow> ''<config>'' | Some p \<Rightarrow> p);
         n = length (cs_errors es);
         plural = (if n = 1 then ''error'' else ''errors'')
     in show_error_blocks path 0 (cs_errors es) @
        newline @ ''aborting due to '' @ dec_string n @ '' configuration '' @ plural)"

end
