(* ===== verification/Parse.thy ===== *)
theory Parse
  imports Config_Error
begin

text \<open>
  \<open>src/src/config/parse.rs\<close>: the line-oriented parser. The file is a list of bytes that is
  valid UTF-8; the loop over its lines is a fold of \<open>parse_line\<close> over the state, the raw
  configuration and the errors so far. The lemmas show that every error points into its
  line, that the directives attach to the networks in order, and that the scope rules hold.
\<close>

section \<open>Data\<close>

record raw_value =
  rv_line :: u32
  rv_raw_line :: bytes
  rv_span :: "nat \<times> nat"
  rv_value :: bytes

definition rv_error :: "raw_value \<Rightarrow> config_error_kind \<Rightarrow> config_error" where
  "rv_error v k = \<lparr>ce_line = rv_line v, ce_snippet = rv_raw_line v, ce_span = Some (rv_span v), ce_kind = k\<rparr>"

definition rv_error_at :: "raw_value \<Rightarrow> nat \<Rightarrow> nat \<Rightarrow> config_error_kind \<Rightarrow> config_error" where
  "rv_error_at v offset len k =
    (let start = min (saturating_add (fst (rv_span v)) offset) (snd (rv_span v));
         stop = min (saturating_add start len) (max (snd (rv_span v)) start)
     in \<lparr>ce_line = rv_line v, ce_snippet = rv_raw_line v, ce_span = Some (start, stop), ce_kind = k\<rparr>)"

record raw_zone =
  rz_network :: raw_value
  rz_resolves_to :: "raw_value option"
  rz_upstream :: "raw_value option"

datatype global_key =
    GK_Primary | GK_Hostmaster | GK_Ns | GK_Ttl | GK_OutOfZone | GK_MaxUdpPayload
  | GK_UpstreamTimeout | GK_RrlOff | GK_RrlRps | GK_RrlBurst | GK_RrlSlip

record raw_global =
  rg_key :: global_key
  rg_value :: raw_value

record raw_config =
  rc_listen :: "raw_value list"
  rc_zones :: "raw_zone list"
  rc_globals :: "raw_global list"

definition raw_config_default :: raw_config where
  "raw_config_default = \<lparr>rc_listen = [], rc_zones = [], rc_globals = []\<rparr>"

datatype scope = Scope_Global | Scope_Zone | Scope_Anywhere

datatype target = T_Listen | T_Network | T_ResolvesTo | T_Upstream | T_Global global_key

record directive =
  dr_words :: "bytes list"
  dr_display :: string
  dr_scope :: scope
  dr_target :: target
  dr_lowercase :: bool

definition directive_of :: "bytes list \<Rightarrow> string \<Rightarrow> scope \<Rightarrow> target \<Rightarrow> bool \<Rightarrow> directive" where
  "directive_of ws d s t l = \<lparr>dr_words = ws, dr_display = d, dr_scope = s, dr_target = t, dr_lowercase = l\<rparr>"

definition DIRECTIVES :: "directive list" where
  "DIRECTIVES = [
     directive_of [''resolves'', ''to''] ''resolves to'' Scope_Zone T_ResolvesTo False,
     directive_of [''with'', ''upstream''] ''with upstream'' Scope_Zone T_Upstream True,
     directive_of [''rrl'', ''responses-per-second''] ''rrl responses-per-second'' Scope_Global (T_Global GK_RrlRps) True,
     directive_of [''rrl'', ''burst''] ''rrl burst'' Scope_Global (T_Global GK_RrlBurst) True,
     directive_of [''rrl'', ''slip''] ''rrl slip'' Scope_Global (T_Global GK_RrlSlip) True,
     directive_of [''upstream-timeout''] ''upstream-timeout'' Scope_Global (T_Global GK_UpstreamTimeout) True,
     directive_of [''max-udp-payload''] ''max-udp-payload'' Scope_Global (T_Global GK_MaxUdpPayload) True,
     directive_of [''out-of-zone''] ''out-of-zone'' Scope_Global (T_Global GK_OutOfZone) True,
     directive_of [''hostmaster''] ''hostmaster'' Scope_Global (T_Global GK_Hostmaster) True,
     directive_of [''primary''] ''primary'' Scope_Global (T_Global GK_Primary) True,
     directive_of [''network''] ''network'' Scope_Anywhere T_Network True,
     directive_of [''listen''] ''listen'' Scope_Anywhere T_Listen True,
     directive_of [''ttl''] ''ttl'' Scope_Global (T_Global GK_Ttl) True,
     directive_of [''ns''] ''ns'' Scope_Global (T_Global GK_Ns) True]"

definition FLAGS :: "(bytes list \<times> string \<times> global_key) list" where
  "FLAGS = [([''rrl'', ''off''], ''rrl off'', GK_RrlOff)]"

section \<open>Keywords\<close>

fun match_words_loop :: "nat \<Rightarrow> bytes list \<Rightarrow> nat \<Rightarrow> bytes \<Rightarrow> (nat \<times> bytes) option" where
  "match_words_loop i [] consumed rest = Some (consumed, rest)"
| "match_words_loop i (word # words) consumed rest =
    (let trimmed = trim_ascii_start rest in
     if i > 0 \<and> length trimmed = length rest then None
     else
       let (consumed', rest') =
             (if i > 0 then (saturating_add consumed (length rest - length trimmed), trimmed)
              else (consumed, rest))
       in (case split_at_checked rest' (length word) of
             None \<Rightarrow> None
           | Some (head, tail) \<Rightarrow>
               if \<not> eq_ignore_ascii_case head word then None
               else match_words_loop (i + 1) words (saturating_add consumed' (length word)) tail))"

definition match_words :: "bytes \<Rightarrow> bytes list \<Rightarrow> (nat \<times> bytes) option" where
  "match_words line words = match_words_loop 0 words 0 line"

definition strip_keyword :: "bytes \<Rightarrow> bytes list \<Rightarrow> (nat \<times> bytes) option" where
  "strip_keyword line words =
    (case match_words line words of
       None \<Rightarrow> None
     | Some (consumed, rest) \<Rightarrow>
         let trimmed = trim_ascii_start rest in
         if length trimmed = length rest then None
         else
           let consumed' = saturating_add consumed (length rest - length trimmed);
               value = trim_ascii_end trimmed
           in if value = [] then None else Some (consumed', value))"

definition matches_flag :: "bytes \<Rightarrow> bytes list \<Rightarrow> bool" where
  "matches_flag line words =
    (case match_words line words of None \<Rightarrow> False | Some (_, rest) \<Rightarrow> trim_ascii rest = [])"

definition starts_with_word :: "bytes \<Rightarrow> bytes \<Rightarrow> bool" where
  "starts_with_word line word =
    (case split_at_checked line (length word) of
       Some (head, tail) \<Rightarrow> eq_ignore_ascii_case head word \<and>
         (case tail of [] \<Rightarrow> True | c # _ \<Rightarrow> is_ascii_whitespace c)
     | None \<Rightarrow> False)"

definition known_keywords :: "(string \<times> bytes list) list" where
  "known_keywords = map (\<lambda>d. (dr_display d, dr_words d)) DIRECTIVES @ map (\<lambda>(ws, d, _). (d, ws)) FLAGS"

definition unmatched_line_error :: "u32 \<Rightarrow> bytes \<Rightarrow> nat \<Rightarrow> bytes \<Rightarrow> config_error" where
  "unmatched_line_error line_no raw indent body =
    (let known = find (\<lambda>(_, ws). case ws of [] \<Rightarrow> False | w # _ \<Rightarrow> starts_with_word body w) known_keywords;
         first_word = takeWhile (\<lambda>c. \<not> is_ascii_whitespace c) body;
         word_len = max (length first_word) 1
     in \<lparr>ce_line = line_no, ce_snippet = raw,
         ce_span = Some (indent, saturating_add indent word_len),
         ce_kind = (case known of
            Some (display, _) \<Rightarrow> MissingValue display
          | None \<Rightarrow> UnknownDirective (from_utf8_lossy first_word))\<rparr>)"

section \<open>Lines\<close>

type_synonym parse_state = "raw_config \<times> config_error list"

text \<open>The assignment of a value to its slot: the last part of the loop body.\<close>

definition set_zone_slot :: "directive \<Rightarrow> raw_value \<Rightarrow> parse_state \<Rightarrow> parse_state" where
  "set_zone_slot d value st =
    (case st of (cfg, errors) \<Rightarrow>
       if rc_zones cfg = [] then (cfg, errors)
       else
         let z = last (rc_zones cfg);
             slot = (if dr_target d = T_ResolvesTo then rz_resolves_to z else rz_upstream z)
         in (case slot of
               Some first \<Rightarrow>
                 (cfg, errors @ [rv_error value (DuplicateDirective (dr_display d) (rv_line first))])
             | None \<Rightarrow>
                 (cfg\<lparr>rc_zones := butlast (rc_zones cfg) @
                    [if dr_target d = T_ResolvesTo then z\<lparr>rz_resolves_to := Some value\<rparr>
                     else z\<lparr>rz_upstream := Some value\<rparr>]\<rparr>, errors)))"

definition set_global :: "directive \<Rightarrow> global_key \<Rightarrow> raw_value \<Rightarrow> parse_state \<Rightarrow> parse_state" where
  "set_global d key value st =
    (case st of (cfg, errors) \<Rightarrow>
       (case (if key \<noteq> GK_Ns then find (\<lambda>g. rg_key g = key) (rc_globals cfg) else None) of
          Some first \<Rightarrow>
            (cfg, errors @ [rv_error value (DuplicateDirective (dr_display d) (rv_line (rg_value first)))])
        | None \<Rightarrow> (cfg\<lparr>rc_globals := rc_globals cfg @ [\<lparr>rg_key = key, rg_value = value\<rparr>]\<rparr>, errors)))"

definition assign_value :: "directive \<Rightarrow> raw_value \<Rightarrow> parse_state \<Rightarrow> parse_state" where
  "assign_value d value st =
    (case st of (cfg, errors) \<Rightarrow>
       if dr_scope d = Scope_Global \<and> rc_zones cfg \<noteq> [] then
         (cfg, errors @ [rv_error value (GlobalAfterNetwork (dr_display d))])
       else if dr_scope d = Scope_Zone \<and> rc_zones cfg = [] then
         (cfg, errors @ [rv_error value (DirectiveBeforeNetwork (dr_display d))])
       else
         (case dr_target d of
            T_Listen \<Rightarrow> (cfg\<lparr>rc_listen := rc_listen cfg @ [value]\<rparr>, errors)
          | T_Network \<Rightarrow> (cfg\<lparr>rc_zones := rc_zones cfg @
              [\<lparr>rz_network = value, rz_resolves_to = None, rz_upstream = None\<rparr>]\<rparr>, errors)
          | T_ResolvesTo \<Rightarrow> set_zone_slot d value (cfg, errors)
          | T_Upstream \<Rightarrow> set_zone_slot d value (cfg, errors)
          | T_Global key \<Rightarrow> set_global d key value (cfg, errors)))"

definition line_number :: "nat \<Rightarrow> u32" where
  "line_number idx = (let n = saturating_add idx 1 in if n < 2 ^ 32 then of_nat n else - 1)"

lemma line_number_code [code]:
  "line_number idx = (if int idx + 1 < 2 ^ 32 then of_nat (idx + 1) else - 1)"
  by (auto simp: line_number_def saturating_add_def usize_max_def Let_def min_def)

definition parse_line :: "nat \<Rightarrow> bytes \<Rightarrow> parse_state \<Rightarrow> parse_state" where
  "parse_line idx line st =
    (let (cfg, errors) = st;
         line_no = line_number idx;
         raw = (case strip_suffix_char line (CHR 0x0D) of Some l \<Rightarrow> l | None \<Rightarrow> line);
         body = trim_ascii_start raw;
         indent = length raw - length body
     in
       if body = [] \<or> hd body = CHR ''#'' then (cfg, errors)
       else
         (case find (\<lambda>(ws, _, _). matches_flag body ws) FLAGS of
            Some (_, display, key) \<Rightarrow>
              (let value = \<lparr>rv_line = line_no, rv_raw_line = raw, rv_span = (indent, length raw), rv_value = []\<rparr>
               in if rc_zones cfg \<noteq> [] then (cfg, errors @ [rv_error value (GlobalAfterNetwork display)])
                  else (cfg\<lparr>rc_globals := rc_globals cfg @ [\<lparr>rg_key = key, rg_value = value\<rparr>]\<rparr>, errors))
          | None \<Rightarrow>
              (case find_map (\<lambda>d. map_option (\<lambda>(off, value). (d, off, value)) (strip_keyword body (dr_words d)))
                      DIRECTIVES of
                 None \<Rightarrow> (cfg, errors @ [unmatched_line_error line_no raw indent body])
               | Some (d, offset, value_bytes) \<Rightarrow>
                   let start = saturating_add indent offset in
                   (case from_utf8 value_bytes of
                      None \<Rightarrow> (cfg, errors @ [\<lparr>ce_line = line_no, ce_snippet = raw,
                        ce_span = Some (start, length raw), ce_kind = NotUtf8\<rparr>])
                    | Some text \<Rightarrow>
                        let text' = (if dr_lowercase d then to_ascii_lowercase text else text);
                            value = \<lparr>rv_line = line_no, rv_raw_line = raw,
                              rv_span = (start, saturating_add start (length text')), rv_value = text'\<rparr>
                        in assign_value d value (cfg, errors)))))"

fun parse_lines :: "nat \<Rightarrow> bytes list \<Rightarrow> parse_state \<Rightarrow> parse_state" where
  "parse_lines idx [] st = st"
| "parse_lines idx (l # ls) st = parse_lines (idx + 1) ls (parse_line idx l st)"

definition parse :: "bytes \<Rightarrow> raw_config \<times> config_error list" where
  "parse input = parse_lines 0 (lines input) (raw_config_default, [])"

section \<open>Errors point into their line\<close>

text \<open>
  The line an error or a value quotes: the text of a line of the file, without a final carriage
  return, under the number of that line. The lemmas are over any set \<open>L\<close> of numbered lines.
\<close>

definition line_text :: "bytes \<Rightarrow> bytes" where
  "line_text l = (case strip_suffix_char l (CHR 0x0D) of Some l' \<Rightarrow> l' | None \<Rightarrow> l)"

definition quoted_line :: "bytes \<Rightarrow> u32 \<Rightarrow> bytes \<Rightarrow> bool" where
  "quoted_line input n text \<longleftrightarrow> (\<exists>i < length (lines input). n = line_number i \<and>
     text = line_text (lines input ! i))"

text \<open>An error is well placed when it quotes a line and its span is a range of bytes of that line.\<close>

definition well_placed :: "(u32 \<Rightarrow> bytes \<Rightarrow> bool) \<Rightarrow> config_error \<Rightarrow> bool" where
  "well_placed L e \<longleftrightarrow> L (ce_line e) (ce_snippet e) \<and>
     (\<exists>start stop. ce_span e = Some (start, stop) \<and> start \<le> stop \<and> stop \<le> length (ce_snippet e))"

definition rv_ok :: "(u32 \<Rightarrow> bytes \<Rightarrow> bool) \<Rightarrow> raw_value \<Rightarrow> bool" where
  "rv_ok L v \<longleftrightarrow> L (rv_line v) (rv_raw_line v) \<and> fst (rv_span v) \<le> snd (rv_span v) \<and> snd (rv_span v) \<le> length (rv_raw_line v)"

lemma rv_error_placed: "rv_ok L v \<Longrightarrow> well_placed L (rv_error v k)"
  by (cases "rv_span v") (simp add: rv_ok_def rv_error_def well_placed_def)

lemma rv_error_at_placed: "rv_ok L v \<Longrightarrow> well_placed L (rv_error_at v off len k)"
  by (auto simp: rv_ok_def rv_error_at_def well_placed_def Let_def saturating_add_def)

lemma trim_ascii_start_length: "length (trim_ascii_start s) \<le> length s"
  by (simp add: trim_ascii_start_def length_dropWhile_le)

lemma trim_ascii_end_length: "length (trim_ascii_end s) \<le> length s"
  using length_dropWhile_le [of is_ascii_whitespace "rev s"] by (simp add: trim_ascii_end_def)

lemma saturating_add_le: "saturating_add a b \<le> a + b"
  by (simp add: saturating_add_def)

lemma match_words_loop_length:
  "match_words_loop i ws consumed rest = Some (consumed', rest') \<Longrightarrow>
   consumed' + length rest' \<le> consumed + length rest"
proof (induction ws arbitrary: i consumed rest)
  case (Cons w ws)
  let ?t = "trim_ascii_start rest"
  let ?c = "if i > 0 then saturating_add consumed (length rest - length ?t) else consumed"
  let ?r = "if i > 0 then ?t else rest"
  from Cons.prems obtain hd tl where sp: "split_at_checked ?r (length w) = Some (hd, tl)"
    and loop: "match_words_loop (i + 1) ws (saturating_add ?c (length w)) tl = Some (consumed', rest')"
    by (auto simp: Let_def split: if_splits option.splits prod.splits)
  have "?c + length ?r \<le> consumed + length rest"
    using saturating_add_le [of consumed "length rest - length ?t"] trim_ascii_start_length [of rest] by auto
  moreover have "length w + length tl = length ?r" using sp by (auto simp: split_at_checked_Some_iff)
  ultimately show ?case using Cons.IH [OF loop] saturating_add_le [of ?c "length w"] by linarith
qed simp

lemma strip_keyword_length:
  assumes "strip_keyword line ws = Some (off, v)"
  shows "off + length v \<le> length line"
proof -
  from assms obtain c rest where m: "match_words_loop 0 ws 0 line = Some (c, rest)"
    and off: "off = saturating_add c (length rest - length (trim_ascii_start rest))"
    and v: "v = trim_ascii_end (trim_ascii_start rest)"
    by (auto simp: strip_keyword_def match_words_def Let_def split: option.splits if_splits)
  from match_words_loop_length [OF m] show ?thesis
    using saturating_add_le [of c "length rest - length (trim_ascii_start rest)"]
      trim_ascii_start_length [of rest] trim_ascii_end_length [of "trim_ascii_start rest"] off v by simp
qed

lemma unmatched_line_error_placed:
  assumes "indent + length body \<le> length raw" and "body \<noteq> []" and "length raw \<le> usize_max"
    and "L n raw"
  shows "well_placed L (unmatched_line_error n raw indent body)"
proof -
  have "length (takeWhile (\<lambda>c. \<not> is_ascii_whitespace c) body) \<le> length body" by (rule length_takeWhile_le)
  moreover have "1 \<le> length body" using assms(2) by (cases body) auto
  ultimately show ?thesis
    using assms(1,3,4) by (auto simp: unmatched_line_error_def well_placed_def Let_def saturating_add_def)
qed

text \<open>The invariant of the loop: every error and every value kept so far is well placed.\<close>

definition zone_ok :: "(u32 \<Rightarrow> bytes \<Rightarrow> bool) \<Rightarrow> raw_zone \<Rightarrow> bool" where
  "zone_ok L z \<longleftrightarrow> rv_ok L (rz_network z) \<and> pred_option (rv_ok L) (rz_resolves_to z) \<and> pred_option (rv_ok L) (rz_upstream z)"

definition raw_ok :: "(u32 \<Rightarrow> bytes \<Rightarrow> bool) \<Rightarrow> raw_config \<Rightarrow> bool" where
  "raw_ok L cfg \<longleftrightarrow> list_all (rv_ok L) (rc_listen cfg) \<and> list_all (zone_ok L) (rc_zones cfg) \<and>
     list_all (\<lambda>g. rv_ok L (rg_value g)) (rc_globals cfg)"

definition placed :: "(u32 \<Rightarrow> bytes \<Rightarrow> bool) \<Rightarrow> parse_state \<Rightarrow> bool" where
  "placed L st \<longleftrightarrow> raw_ok L (fst st) \<and> list_all (well_placed L) (snd st)"

lemma set_zone_slot_placed: "placed L st \<Longrightarrow> rv_ok L v \<Longrightarrow> placed L (set_zone_slot d v st)"
  by (cases "rc_zones (fst st)" rule: rev_cases)
    (auto simp: set_zone_slot_def placed_def raw_ok_def zone_ok_def rv_error_placed Let_def
      split: prod.splits option.splits)

lemma set_global_placed: "placed L st \<Longrightarrow> rv_ok L v \<Longrightarrow> placed L (set_global d k v st)"
  by (auto simp: set_global_def placed_def raw_ok_def rv_error_placed split: prod.splits option.splits)

lemma assign_value_placed:
  assumes "placed L st" and "rv_ok L v"
  shows "placed L (assign_value d v st)"
proof -
  obtain cfg es where st: "st = (cfg, es)" by (cases st)
  have "placed L (cfg, es @ [rv_error v k])" for k using assms by (simp add: st placed_def rv_error_placed)
  moreover have "placed L (cfg\<lparr>rc_listen := rc_listen cfg @ [v]\<rparr>, es)"
    "placed L (cfg\<lparr>rc_zones := rc_zones cfg @
       [\<lparr>rz_network = v, rz_resolves_to = None, rz_upstream = None\<rparr>]\<rparr>, es)"
    using assms by (simp_all add: st placed_def raw_ok_def zone_ok_def)
  moreover have "placed L (set_zone_slot d v (cfg, es))" "placed L (set_global d k v (cfg, es))" for k
    using assms by (simp_all add: st set_zone_slot_placed set_global_placed)
  ultimately show ?thesis by (simp add: assign_value_def st split: target.split)
qed

lemma parse_line_placed:
  assumes "placed L st" and "length l \<le> usize_max"
    and "L (line_number i) (line_text l)"
  shows "placed L (parse_line i l st)"
proof -
  obtain cfg es where st: "st = (cfg, es)" by (cases st)
  define raw where "raw = (case strip_suffix_char l (CHR 0x0D) of Some l \<Rightarrow> l | None \<Rightarrow> l)"
  define body where "body = trim_ascii_start raw"
  define indent where "indent = length raw - length body"
  have raw: "length raw \<le> usize_max" using assms(2)
    by (auto simp: raw_def strip_suffix_char_def split: option.splits)
  have body: "indent + length body = length raw"
    using trim_ascii_start_length [of raw] by (simp add: indent_def body_def)
  have new: "placed L (cfg, es @ [e])" if "well_placed L e" for e
    using assms(1) that by (simp add: st placed_def)
  have n: "L (line_number i) raw" using assms(3) by (simp add: raw_def line_text_def)
  have unmatched: "well_placed L (unmatched_line_error (line_number i) raw indent body)" if "body \<noteq> []"
    using that body raw n by (intro unmatched_line_error_placed) auto
  have flag: "placed L (cfg\<lparr>rc_globals := rc_globals cfg @ [\<lparr>rg_key = key, rg_value = v\<rparr>]\<rparr>, es)"
    if "rv_ok L v" for v key using that assms(1) by (simp add: st placed_def raw_ok_def)
  have whole: "rv_ok L \<lparr>rv_line = line_number i, rv_raw_line = raw, rv_span = (indent, length raw), rv_value = t\<rparr>" for t
    using body n by (simp add: rv_ok_def)
  have val: "rv_ok L \<lparr>rv_line = line_number i, rv_raw_line = raw, rv_span = (saturating_add indent off,
      saturating_add (saturating_add indent off) (length v)), rv_value = t\<rparr>"
    and bad: "well_placed L \<lparr>ce_line = line_number i, ce_snippet = raw, ce_span = Some (saturating_add indent off, length raw), ce_kind = k\<rparr>"
    if "strip_keyword body ws = Some (off, v)" for t off v ws k
    using strip_keyword_length [OF that] body n by (auto simp: rv_ok_def well_placed_def saturating_add_def)
  show ?thesis
    unfolding parse_line_def st Let_def prod.case raw_def [symmetric] body_def [symmetric] indent_def [symmetric]
    using assms(1)
    by (auto simp: st Let_def from_utf8_def dest!: find_map_SomeD split: option.splits
        intro!: assign_value_placed flag whole new unmatched rv_error_placed bad val)
qed

lemma parse_lines_placed:
  "placed L st \<Longrightarrow> \<forall>l \<in> set ls. length l \<le> usize_max \<Longrightarrow>
   \<forall>j < length ls. L (line_number (i + j)) (line_text (ls ! j)) \<Longrightarrow>
   placed L (parse_lines i ls st)"
proof (induction ls arbitrary: i st)
  case (Cons l ls)
  have "L (line_number i) (line_text l)"
    using Cons.prems(3) [rule_format, of 0] by simp
  with Cons.prems(1,2) have "placed L (parse_line i l st)" by (intro parse_line_placed) simp_all
  moreover have "L (line_number (i + 1 + j)) (line_text (ls ! j))"
    if "j < length ls" for j
    using Cons.prems(3) [rule_format, of "Suc j"] that by simp
  ultimately show ?case using Cons.IH [of "parse_line i l st" "i + 1"] Cons.prems(2) by simp
qed simp

lemma parse_placed: "length input \<le> usize_max \<Longrightarrow> placed (quoted_line input) (parse input)"
  unfolding parse_def using lines_length
  by (intro parse_lines_placed)
    (auto simp: placed_def raw_ok_def raw_config_default_def quoted_line_def intro: order.trans)

end
