(* ===== verification/Dns_Lib.thy ===== *)
theory Dns_Lib
  imports Prelude
begin

text \<open>
  The interface to the DNS library the program is built on (\<open>hickory_proto\<close>), which is
  not part of the repository. Its data (record types, classes, record data, records) are
  datatypes and records with the constructors and fields the source names; its code is
  the record \<open>dns_lib\<close> of operations, a parameter of every definition that calls it.

  What the program relies on is the locale \<open>dns_laws\<close>: the documented behaviour of names
  (a name is its list of labels, compared without regard to ASCII case; \<open>num_labels\<close> does
  not count a leading \<open>*\<close> label) and of \<open>Record::from_rdata\<close>. The locale is interpreted on
  \<open>rfc_lib\<close>, names under the limits of RFC 1035, which the witnesses use.
\<close>

section \<open>Data\<close>

datatype record_type =
    RT_A | RT_AAAA | RT_ANY | RT_AXFR | RT_IXFR | RT_NS | RT_PTR | RT_SOA | RT_Other u16

datatype dns_class = CL_IN | CL_ANY | CL_Other u16

datatype response_code = NoError | ServFail | NXDomain | NotImp | Refused | BADVERS

datatype 'n rdata =
    RD_PTR 'n
  | RD_AAAA u128
  | RD_NS 'n
  | RD_SOA 'n 'n u32 i32 i32 i32 u32
  | RD_Other record_type

record 'n rr =
  rr_name :: 'n
  rr_class :: dns_class
  rr_ttl :: u32
  rr_data :: "'n rdata"

section \<open>Operations\<close>

text \<open>
  A failing operation returns its error as the text \<open>ProtoError\<close> displays, the only use
  the source makes of it.
\<close>

record 'n dns_lib =
  from_labels :: "bytes list \<Rightarrow> (string, 'n) result"
  from_str_relaxed :: "bytes \<Rightarrow> (string, 'n) result"
  set_fqdn :: "'n \<Rightarrow> bool \<Rightarrow> 'n"
  is_fqdn :: "'n \<Rightarrow> bool"
  num_labels :: "'n \<Rightarrow> u8"
  iter :: "'n \<Rightarrow> bytes list"
  name_eq :: "'n \<Rightarrow> 'n \<Rightarrow> bool"
  zone_of :: "'n \<Rightarrow> 'n \<Rightarrow> bool"
  append_label :: "'n \<Rightarrow> bytes \<Rightarrow> (string, 'n) result"
  from_rdata :: "'n \<Rightarrow> u32 \<Rightarrow> 'n rdata \<Rightarrow> 'n rr"
  record_type_of :: "'n rr \<Rightarrow> record_type"

text \<open>The labels of a name as they are compared: ASCII lowercase.\<close>

definition folded :: "'n dns_lib \<Rightarrow> 'n \<Rightarrow> bytes list" where
  "folded H n = map to_ascii_lowercase (iter H n)"

text \<open>The limits of RFC 1035: labels of 1 to 63 bytes, at most 255 bytes on the wire.\<close>

definition wire_length :: "bytes list \<Rightarrow> nat" where
  "wire_length ls = sum_list (map (\<lambda>l. length l + 1) ls) + 1"

definition rfc1035_labels :: "bytes list \<Rightarrow> bool" where
  "rfc1035_labels ls \<longleftrightarrow> list_all (\<lambda>l. 1 \<le> length l \<and> length l \<le> 63) ls \<and> wire_length ls \<le> 255"

lemma rfc1035_labels_code [code]:
  "rfc1035_labels ls \<longleftrightarrow> list_all (\<lambda>l. l \<noteq> [] \<and> int (length l) \<le> 63) ls \<and> int (wire_length ls) \<le> 255"
proof -
  have "1 \<le> length l \<and> length l \<le> 63 \<longleftrightarrow> l \<noteq> [] \<and> int (length l) \<le> 63" for l :: bytes by (cases l) auto
  then show ?thesis by (simp add: rfc1035_labels_def)
qed

definition counted_labels :: "bytes list \<Rightarrow> nat" where
  "counted_labels ls = (case ls of [] \<Rightarrow> 0 | l # ls' \<Rightarrow> if l = ''*'' then length ls' else length ls)"

fun rdata_type :: "'n rdata \<Rightarrow> record_type" where
  "rdata_type (RD_PTR n) = RT_PTR"
| "rdata_type (RD_AAAA a) = RT_AAAA"
| "rdata_type (RD_NS n) = RT_NS"
| "rdata_type (RD_SOA m r s rf rt e mi) = RT_SOA"
| "rdata_type (RD_Other t) = t"

section \<open>What the program relies on\<close>

locale dns_laws =
  fixes H :: "'n dns_lib"
  assumes from_labels_iter: "from_labels H ls = Inr n \<Longrightarrow> iter H n = ls"
    and from_labels_lengths: "map length ls = map length ls' \<Longrightarrow>
      isl (from_labels H ls) = isl (from_labels H ls')"
    and from_labels_rfc1035: "rfc1035_labels ls \<Longrightarrow> \<not> isl (from_labels H ls)"
    and iter_set_fqdn: "iter H (set_fqdn H n b) = iter H n"
    and is_fqdn_set_fqdn: "is_fqdn H (set_fqdn H n b) = b"
    and num_labels_counted: "unat (num_labels H n) = counted_labels (iter H n)"
    and name_eq_folded: "name_eq H n m \<longleftrightarrow> is_fqdn H n = is_fqdn H m \<and> folded H n = folded H m"
    and zone_of_suffix: "zone_of H n m \<longleftrightarrow> suffix (folded H n) (folded H m)"
    and append_label_iter: "append_label H n l = Inr m \<Longrightarrow> iter H m = iter H n @ [l]"
    and from_rdata_fields: "from_rdata H n t d = \<lparr>rr_name = n, rr_class = CL_IN, rr_ttl = t, rr_data = d\<rparr>"
    and record_type_of_data: "record_type_of H r = rdata_type (rr_data r)"
begin

lemma folded_set_fqdn [simp]: "folded H (set_fqdn H n b) = folded H n"
  by (simp add: folded_def iter_set_fqdn)

lemma folded_from_labels: "from_labels H ls = Inr n \<Longrightarrow> folded H n = map to_ascii_lowercase ls"
  by (simp add: folded_def from_labels_iter)

lemma name_eq_refl: "name_eq H n n"
  by (simp add: name_eq_folded)

lemma name_eq_sym: "name_eq H a b \<longleftrightarrow> name_eq H b a"
  by (auto simp: name_eq_folded)

lemma name_eq_trans: "name_eq H a b \<Longrightarrow> name_eq H b c \<Longrightarrow> name_eq H a c"
  by (simp add: name_eq_folded)

lemma zone_of_refl: "zone_of H n n"
  by (simp add: zone_of_suffix)

lemma zone_of_trans: "zone_of H a b \<Longrightarrow> zone_of H b c \<Longrightarrow> zone_of H a c"
  by (auto simp: zone_of_suffix intro: suffix_order.trans)

lemma zone_of_cong: "name_eq H a a' \<Longrightarrow> name_eq H b b' \<Longrightarrow> zone_of H a b = zone_of H a' b'"
  by (simp add: zone_of_suffix name_eq_folded)

lemma from_labels_cases:
  assumes "map length ls = map length ls'" and "from_labels H ls = Inr n"
  obtains m where "from_labels H ls' = Inr m" and "iter H m = ls'"
  using from_labels_lengths [OF assms(1)] assms(2) from_labels_iter [of ls']
  by (cases "from_labels H ls'") auto

end

section \<open>Names under RFC 1035\<close>

text \<open>
  A name is its labels and the flag that it is absolute. A pair whose labels break the
  limits stands for no name and is read as the root.
\<close>

type_synonym rfc_name = "bytes list \<times> bool"

definition rfc_labels :: "rfc_name \<Rightarrow> bytes list" where
  "rfc_labels n = (if rfc1035_labels (fst n) then fst n else [])"

definition rfc_make :: "bytes list \<Rightarrow> bool \<Rightarrow> (string, rfc_name) result" where
  "rfc_make ls b = (if rfc1035_labels ls then Inr (ls, b) else Inl ''invalid name'')"

definition rfc_parse :: "bytes \<Rightarrow> bytes list" where
  "rfc_parse s = (let parts = foldr (\<lambda>c acc. if c = CHR ''.'' then [] # acc
       else (c # hd acc) # tl acc) s [[]] in if last parts = [] then butlast parts else parts)"

definition rfc_lib :: "rfc_name dns_lib" where
  "rfc_lib = \<lparr>
     from_labels = (\<lambda>ls. rfc_make ls True),
     from_str_relaxed = (\<lambda>s. rfc_make (rfc_parse s) (s \<noteq> [] \<and> last s = CHR ''.'')),
     set_fqdn = (\<lambda>n b. (fst n, b)),
     is_fqdn = snd,
     num_labels = (\<lambda>n. of_nat (counted_labels (rfc_labels n))),
     iter = rfc_labels,
     name_eq = (\<lambda>a b. snd a = snd b \<and>
       map to_ascii_lowercase (rfc_labels a) = map to_ascii_lowercase (rfc_labels b)),
     zone_of = (\<lambda>a b. let la = map to_ascii_lowercase (rfc_labels a);
       lb = map to_ascii_lowercase (rfc_labels b)
       in length la \<le> length lb \<and> drop (length lb - length la) lb = la),
     append_label = (\<lambda>n l. rfc_make (rfc_labels n @ [l]) (snd n)),
     from_rdata = (\<lambda>n t d. \<lparr>rr_name = n, rr_class = CL_IN, rr_ttl = t, rr_data = d\<rparr>),
     record_type_of = (\<lambda>r. rdata_type (rr_data r))\<rparr>"

lemma rfc_lib_sel:
  "from_labels rfc_lib ls = rfc_make ls True"
  "set_fqdn rfc_lib n b = (fst n, b)"
  "is_fqdn rfc_lib n = snd n"
  "iter rfc_lib n = rfc_labels n"
  "from_rdata rfc_lib n t d = \<lparr>rr_name = n, rr_class = CL_IN, rr_ttl = t, rr_data = d\<rparr>"
  "record_type_of rfc_lib r = rdata_type (rr_data r)"
  by (simp_all add: rfc_lib_def)

text \<open>Evaluates the limits on concrete labels.\<close>

lemmas rfc_eval = rfc_lib_sel rfc_make_def rfc_labels_def rfc1035_labels_def wire_length_def

lemma rfc1035_labels_length: "rfc1035_labels ls \<Longrightarrow> length ls \<le> 127"
proof -
  assume *: "rfc1035_labels ls"
  have "list_all (\<lambda>l. 1 \<le> length l \<and> length l \<le> 63) ks \<Longrightarrow>
      2 * length ks \<le> sum_list (map (\<lambda>l. length l + 1) ks)" for ks :: "bytes list"
    by (induction ks) auto
  with * show ?thesis by (fastforce simp: rfc1035_labels_def wire_length_def)
qed

lemma counted_labels_le: "counted_labels ls \<le> length ls"
  by (cases ls) (auto simp: counted_labels_def)

lemma length_le_counted: "length ls \<le> Suc (counted_labels ls)"
  by (cases ls) (auto simp: counted_labels_def)

lemma rfc1035_labels_cong:
  "map length ls = map length ls' \<Longrightarrow> rfc1035_labels ls = rfc1035_labels ls'"
proof -
  assume *: "map length ls = map length ls'"
  have "list_all P (map length ks) = list_all (\<lambda>l. P (length l)) ks"
    and "map (\<lambda>l. length l + 1) ks = map (\<lambda>n. n + 1) (map length ks)" for P and ks :: "bytes list"
    by (simp_all add: list_all_iff)
  then have "rfc1035_labels ks \<longleftrightarrow> list_all (\<lambda>n. 1 \<le> n \<and> n \<le> 63) (map length ks) \<and>
      sum_list (map (\<lambda>n. n + 1) (map length ks)) + 1 \<le> 255" for ks :: "bytes list"
    by (simp only: rfc1035_labels_def wire_length_def)
  with * show ?thesis by presburger
qed

interpretation rfc: dns_laws rfc_lib
proof unfold_locales
  fix n :: rfc_name
  have "length (rfc_labels n) \<le> 127"
    by (simp add: rfc_labels_def rfc1035_labels_length)
  then have "counted_labels (rfc_labels n) < 2 ^ 8"
    using counted_labels_le [of "rfc_labels n"] by simp
  then show "unat (num_labels rfc_lib n) = counted_labels (iter rfc_lib n)"
    by (simp add: rfc_lib_def unat_of_nat)
qed (auto simp: rfc_lib_def rfc_make_def rfc_labels_def folded_def Let_def suffix_drop_iff
    dest: rfc1035_labels_cong split: if_splits)

end
