(* ===== verification/Nibble.thy ===== *)
theory Nibble
  imports Dns_Lib Std_Text
begin

text \<open>
  \<open>src/src/nibble.rs\<close>: conversions between IPv6 addresses and \<open>ip6.arpa\<close> names, one
  label per nibble. The definitions follow the source function by function; addresses are
  128-bit words. The lemmas characterise each function exactly: the names
  \<open>ptr_name_to_addr\<close> accepts, the zone names \<open>netmask_to_ptr_name\<close> builds and how the
  suffix order on them mirrors the prefix order on addresses, the digit strings of the
  host part, and the dashed grouping.
\<close>

section \<open>The functions of nibble.rs\<close>

definition ADDR_NIBBLES :: u8 where
  "ADDR_NIBBLES = 32"

definition PTR_QUERY_LABELS :: u8 where
  "PTR_QUERY_LABELS = ADDR_NIBBLES + 2"

definition HEX_LOWER :: bytes where
  "HEX_LOWER = ''0123456789abcdef''"

definition hex_val :: "char \<Rightarrow> u8 option" where
  "hex_val b =
    (if CHR ''0'' \<le> b \<and> b \<le> CHR ''9'' then Some (byte b - byte CHR ''0'')
     else if CHR ''a'' \<le> b \<and> b \<le> CHR ''f'' then Some (byte b - byte CHR ''a'' + 10)
     else if CHR ''A'' \<le> b \<and> b \<le> CHR ''F'' then Some (byte b - byte CHR ''A'' + 10)
     else None)"

definition mask_bits :: "u8 \<Rightarrow> u128" where
  "mask_bits m =
    (if m = 0 then 0
     else if m \<ge> 128 then - 1
     else NOT (drop_bit (unat m) (- 1)))"

fun ptr_nibble_loop :: "u8 list \<Rightarrow> bytes list \<Rightarrow> u128 \<Rightarrow> (bytes list \<times> u128) option" where
  "ptr_nibble_loop [] labels addr = Some (labels, addr)"
| "ptr_nibble_loop (position # ps) [] addr = None"
| "ptr_nibble_loop (position # ps) (label # labels) addr =
    (case label of
       [digit] \<Rightarrow>
         (case hex_val digit of
            None \<Rightarrow> None
          | Some value \<Rightarrow>
              ptr_nibble_loop ps labels (addr OR push_bit (unat (position * 4)) (ucast value)))
     | _ \<Rightarrow> None)"

definition ptr_name_to_addr :: "'n dns_lib \<Rightarrow> 'n \<Rightarrow> u128 option" where
  "ptr_name_to_addr H name =
    (if num_labels H name \<noteq> PTR_QUERY_LABELS then None
     else
       (case ptr_nibble_loop (u8_range 0 ADDR_NIBBLES) (iter H name) 0 of
          None \<Rightarrow> None
        | Some (labels, addr) \<Rightarrow>
            (case labels of
               [] \<Rightarrow> None
             | l1 # labels' \<Rightarrow>
                 if \<not> eq_ignore_ascii_case l1 ''ip6'' then None
                 else
                   (case labels' of
                      [] \<Rightarrow> None
                    | l2 # _ \<Rightarrow>
                        if \<not> eq_ignore_ascii_case l2 ''arpa'' then None else Some addr))))"

fun ptr_zone_loop :: "u8 list \<Rightarrow> u128 \<Rightarrow> bytes list \<Rightarrow> bytes list option" where
  "ptr_zone_loop [] pfx labels = Some labels"
| "ptr_zone_loop (position # ps) pfx labels =
    (let nibble = unat (drop_bit (unat (position * 4)) pfx AND 0xF)
     in (case get HEX_LOWER nibble of
           None \<Rightarrow> None
         | Some digit \<Rightarrow> ptr_zone_loop ps pfx (labels @ [[digit]])))"

definition netmask_to_ptr_name :: "'n dns_lib \<Rightarrow> u128 \<Rightarrow> u8 \<Rightarrow> 'n option" where
  "netmask_to_ptr_name H pfx msk =
    (if msk > 128 \<or> msk mod 4 \<noteq> 0 then None
     else
       (let ptr_nibbles = msk div 4
        in (case ptr_zone_loop (u8_range (ADDR_NIBBLES - ptr_nibbles) ADDR_NIBBLES) pfx [] of
              None \<Rightarrow> None
            | Some labels \<Rightarrow>
                (case from_labels H (labels @ [''ip6''] @ [''arpa'']) of
                   Inl _ \<Rightarrow> None
                 | Inr name \<Rightarrow> Some (set_fqdn H name True)))))"

definition host_digits :: "u128 \<Rightarrow> u8 \<Rightarrow> bytes option" where
  "host_digits addr host_nibbles =
    (if host_nibbles > ADDR_NIBBLES then None
     else
       (let width = unat host_nibbles
        in if width = 0 then Some []
           else
             (let host = addr AND NOT (mask_bits (128 - host_nibbles * 4))
              in Some (format_lower_hex width (unat host)))))"

fun digits_loop :: "bytes \<Rightarrow> u128 \<Rightarrow> u128 option" where
  "digits_loop [] host = Some host"
| "digits_loop (b # digits) host =
    (case hex_val b of
       None \<Rightarrow> None
     | Some value \<Rightarrow> digits_loop digits (push_bit 4 host OR ucast value))"

definition digits_to_host :: "bytes \<Rightarrow> u8 \<Rightarrow> u128 option" where
  "digits_to_host digits host_nibbles =
    (if length digits \<noteq> unat host_nibbles then None else digits_loop digits 0)"

fun dash_loop :: "nat \<Rightarrow> bytes list \<Rightarrow> bytes \<Rightarrow> bytes" where
  "dash_loop i [] out = out"
| "dash_loop i (chunk # cs) out =
    dash_loop (Suc i) cs
      ((if i > 0 then out @ ''-'' else out) @ (case from_utf8 chunk of None \<Rightarrow> [] | Some s \<Rightarrow> s))"

definition dash_group :: "bytes \<Rightarrow> bytes" where
  "dash_group digits = dash_loop 0 (chunks 4 digits) []"

fun undash_loop :: "nat list \<Rightarrow> nat \<Rightarrow> bytes \<Rightarrow> bytes \<Rightarrow> (bytes \<times> bytes) option" where
  "undash_loop [] groups input out = Some (input, out)"
| "undash_loop (g # gs) groups input out =
    (case split_at_checked input 4 of
       None \<Rightarrow> None
     | Some (chunk, rest) \<Rightarrow>
         (if g + 1 < groups then
            (case split_at_checked rest 1 of
               None \<Rightarrow> None
             | Some (dash, rest') \<Rightarrow>
                 if dash \<noteq> ''-'' then None else undash_loop gs groups rest' (out @ chunk))
          else undash_loop gs groups rest (out @ chunk)))"

definition undash_group :: "bytes \<Rightarrow> u8 \<Rightarrow> bytes option" where
  "undash_group input host_nibbles =
    (let groups = unat host_nibbles div 4
     in if groups = 0 then None
        else
          (case undash_loop [0..<groups] groups input [] of
             None \<Rightarrow> None
           | Some (rest, out) \<Rightarrow> if rest = [] then Some out else None))"

section \<open>Hexadecimal digits\<close>

lemma hex_val_lower: "hex_val (to_ascii_lower c) = hex_val c"
proof -
  have "\<forall>c. hex_val (to_ascii_lower c) = hex_val c" by code_simp
  then show ?thesis by blast
qed

lemma hex_val_SomeD:
  assumes "hex_val c = Some v"
  shows "unat v < 16" and "to_ascii_lower c = HEX_LOWER ! unat v"
proof -
  have "\<forall>c. case hex_val c of None \<Rightarrow> True
      | Some v \<Rightarrow> unat v < 16 \<and> to_ascii_lower c = HEX_LOWER ! unat v" by code_simp
  with assms show "unat v < 16" and "to_ascii_lower c = HEX_LOWER ! unat v"
    by (auto dest!: spec [of _ c])
qed

lemma hex_val_digit: "n < 16 \<Longrightarrow> hex_val (HEX_LOWER ! n) = Some (of_nat n)"
proof -
  have "\<forall>n \<in> set [0..<16]. hex_val (HEX_LOWER ! n) = Some (of_nat n)" by code_simp
  then show "n < 16 \<Longrightarrow> ?thesis" by simp
qed

lemma hex_val_Some_iff:
  "hex_val c = Some v \<longleftrightarrow> unat v < 16 \<and> to_ascii_lower c = HEX_LOWER ! unat v"
  using hex_val_SomeD hex_val_digit [of "unat v"] hex_val_lower [of c] by auto

lemma HEX_LOWER_eq_iff: "m < 16 \<Longrightarrow> n < 16 \<Longrightarrow> HEX_LOWER ! m = HEX_LOWER ! n \<longleftrightarrow> m = n"
proof -
  have "\<forall>m \<in> set [0..<16]. \<forall>n \<in> set [0..<16]. HEX_LOWER ! m = HEX_LOWER ! n \<longrightarrow> m = n" by code_simp
  then show "m < 16 \<Longrightarrow> n < 16 \<Longrightarrow> ?thesis" by auto
qed

lemma lower_HEX_LOWER [simp]: "n < 16 \<Longrightarrow> to_ascii_lower (HEX_LOWER ! n) = HEX_LOWER ! n"
  using hex_val_digit [of n] by (simp add: hex_val_Some_iff unat_of_nat)

lemma HEX_LOWER_ascii: "n < 16 \<Longrightarrow> of_char (HEX_LOWER ! n) < (128 :: nat)"
proof -
  have "\<forall>n \<in> set [0..<16]. of_char (HEX_LOWER ! n) < (128 :: nat)" by code_simp
  then show "n < 16 \<Longrightarrow> ?thesis" by simp
qed

lemma length_HEX_LOWER [simp]: "length HEX_LOWER = 16"
  by (simp add: HEX_LOWER_def)

section \<open>Nibbles and masks\<close>

definition nibble :: "u128 \<Rightarrow> nat \<Rightarrow> nat" where
  "nibble a i = unat (drop_bit (4 * i) a AND 0xF)"

lemma nibble_take_bit: "nibble a i = take_bit 4 (drop_bit (4 * i) (unat a))"
proof -
  have "drop_bit (4 * i) a AND 0xF = take_bit 4 (drop_bit (4 * i) a)"
    by (simp add: take_bit_eq_mask mask_eq_exp_minus_1)
  moreover have "take_bit 128 (unat a) = unat a"
    using unsigned_less [of a, where ?'a = nat] by (simp add: take_bit_nat_eq_self)
  ultimately show ?thesis
    by (simp add: nibble_def unsigned_take_bit_eq unsigned_drop_bit_eq)
qed

lemma nibble_less [simp]: "nibble a i < 16"
  by (simp add: nibble_take_bit take_bit_eq_mod)

lemma bit_nibble: "bit (nibble a i) j \<longleftrightarrow> j < 4 \<and> bit a (4 * i + j)"
  by (auto simp: nibble_take_bit bit_take_bit_iff bit_drop_bit_eq bit_unsigned_iff dest: bit_imp_le_length)

lemma nibble_eq_div: "nibble a i = unat a div 16 ^ i mod 16"
  by (simp add: nibble_take_bit take_bit_eq_mod drop_bit_eq_div power_mult)

lemma bit_mask_bits: "bit (mask_bits m) j \<longleftrightarrow> j < 128 \<and> 128 \<le> j + unat m"
proof -
  consider "m = 0" | "128 \<le> m" | "m \<noteq> 0" "m < 128" by fastforce
  then show ?thesis
  proof cases
    case 2
    then have "128 \<le> unat m" by (simp add: word_le_nat_alt)
    with 2 show ?thesis by (auto simp: mask_bits_def bit_simps)
  next
    case 3
    then show ?thesis by (auto simp: mask_bits_def bit_simps)
  qed (simp add: mask_bits_def)
qed

lemma u128_eq_iff_bits: "(a :: u128) = b \<longleftrightarrow> (\<forall>j < 128. bit a j = bit b j)"
  by (auto simp: bit_eq_iff dest: bit_imp_le_length)

lemma u128_eq_iff_nibbles: "(a :: u128) = b \<longleftrightarrow> (\<forall>i < 32. nibble a i = nibble b i)"
proof
  assume *: "\<forall>i < 32. nibble a i = nibble b i"
  have "bit a j = bit b j" if "j < 128" for j
  proof -
    from that have "j div 4 < 32" by auto
    with * have "bit (nibble a (j div 4)) (j mod 4) = bit (nibble b (j div 4)) (j mod 4)" by simp
    then show ?thesis by (simp add: bit_nibble)
  qed
  then show "a = b" by (simp add: u128_eq_iff_bits)
qed simp

text \<open>The address assembled from nibbles, least significant first, starting at nibble \<open>k\<close>.\<close>

fun combine :: "nat \<Rightarrow> nat list \<Rightarrow> u128" where
  "combine k [] = 0"
| "combine k (v # vs) = push_bit (4 * k) (of_nat v) OR combine (Suc k) vs"

lemma bit_less_16: "v < 16 \<Longrightarrow> bit (v :: nat) j \<Longrightarrow> j < 4"
  using bit_take_bit_iff [of 4 v j] by (simp add: take_bit_nat_eq_self)

lemma bit_combine:
  "list_all (\<lambda>v. v < 16) vs \<Longrightarrow>
   bit (combine k vs) j \<longleftrightarrow> j < 128 \<and> 4 * k \<le> j \<and> j < 4 * (k + length vs) \<and>
     bit (vs ! (j div 4 - k)) (j mod 4)"
proof (induction vs arbitrary: k)
  case (Cons v vs)
  show ?case
  proof (cases "j div 4 = k")
    case True
    then have "4 * k \<le> j" "j - 4 * k = j mod 4" "\<not> 4 * Suc k \<le> j" "j < 4 * (k + length (v # vs))"
      by (auto simp: minus_mult_div_eq_mod)
    with Cons True show ?thesis by (auto simp: bit_simps dest: bit_imp_le_length)
  next
    case False
    have "\<not> bit v (j - 4 * k)" if "4 * k \<le> j"
    proof
      assume "bit v (j - 4 * k)"
      with Cons.prems have "j - 4 * k < 4" by (auto dest: bit_less_16)
      with that False show False by auto
    qed
    moreover have "4 * k \<le> j \<and> j div 4 \<noteq> k \<longleftrightarrow> 4 * Suc k \<le> j" by auto
    ultimately show ?thesis using Cons False
      by (auto simp: bit_simps nth_Cons' dest: bit_imp_le_length)
  qed
qed simp

lemma nibble_combine:
  assumes "list_all (\<lambda>v. v < 16) vs" and "length vs = 32" and "i < 32"
  shows "nibble (combine 0 vs) i = vs ! i"
proof (rule bit_eqI)
  fix j
  have "vs ! i < 16" using assms by (simp add: list_all_length)
  then have "bit (vs ! i) j \<Longrightarrow> j < 4" by (rule bit_less_16)
  then show "bit (nibble (combine 0 vs) i) j = bit (vs ! i) j"
    using assms by (auto simp: bit_nibble bit_combine)
qed

lemma combine_nibbles: "combine 0 (map (nibble a) [0..<32]) = a"
  by (simp add: u128_eq_iff_nibbles nibble_combine list_all_length)

section \<open>Reverse names\<close>

text \<open>A prefix of the labels that spells the nibbles \<open>vs\<close> in either case.\<close>

definition nibble_prefix :: "nat \<Rightarrow> bytes list \<Rightarrow> bytes list \<Rightarrow> nat list \<Rightarrow> bool" where
  "nibble_prefix n ls rest vs \<longleftrightarrow> (\<exists>pre. ls = pre @ rest \<and> length vs = n \<and> list_all (\<lambda>v. v < 16) vs \<and>
     map to_ascii_lowercase pre = map (\<lambda>v. [HEX_LOWER ! v]) vs)"

lemma nibble_prefix_0: "nibble_prefix 0 ls rest vs \<longleftrightarrow> ls = rest \<and> vs = []"
  by (auto simp: nibble_prefix_def)

lemma nibble_prefix_Suc:
  "nibble_prefix (Suc n) ls rest vs \<longleftrightarrow> (\<exists>c v ls' vs'. ls = [c] # ls' \<and> hex_val c = Some v \<and>
     vs = unat v # vs' \<and> nibble_prefix n ls' rest vs')" (is "_ \<longleftrightarrow> ?ex")
proof
  assume "nibble_prefix (Suc n) ls rest vs"
  then obtain pre w ws where *: "ls = pre @ rest" "vs = w # ws" "length ws = n" "w < 16"
    "list_all (\<lambda>v. v < 16) ws" "map to_ascii_lowercase pre = [HEX_LOWER ! w] # map (\<lambda>v. [HEX_LOWER ! v]) ws"
    by (cases vs) (auto simp: nibble_prefix_def)
  then obtain c ps where c: "pre = [c] # ps" "to_ascii_lower c = HEX_LOWER ! w"
    "map to_ascii_lowercase ps = map (\<lambda>v. [HEX_LOWER ! v]) ws"
    by (auto simp: to_ascii_lowercase_def map_eq_Cons_conv)
  have "hex_val c = Some (of_nat w)" "unat (of_nat w :: u8) = w"
    using c(2) *(4) by (simp_all add: hex_val_Some_iff unat_of_nat)
  moreover have "nibble_prefix n (ps @ rest) rest ws"
    unfolding nibble_prefix_def using * c(3) by blast
  ultimately show ?ex using * c(1) by auto
next
  assume ?ex
  then obtain c v ls' vs' pre where *: "ls = [c] # ls'" "hex_val c = Some v" "vs = unat v # vs'"
    "ls' = pre @ rest" "length vs' = n" "list_all (\<lambda>v. v < 16) vs'"
    "map to_ascii_lowercase pre = map (\<lambda>v. [HEX_LOWER ! v]) vs'"
    by (auto simp: nibble_prefix_def)
  then show "nibble_prefix (Suc n) ls rest vs"
    unfolding nibble_prefix_def using hex_val_SomeD [OF *(2)]
    by (intro exI [of _ "[c] # pre"]) auto
qed

lemma ptr_nibble_loop_iff:
  "k \<le> m \<Longrightarrow> m \<le> 32 \<Longrightarrow> ptr_nibble_loop (map of_nat [k..<m]) ls acc = Some (rest, r) \<longleftrightarrow>
    (\<exists>vs. nibble_prefix (m - k) ls rest vs \<and> r = acc OR combine k vs)"
proof (induction "m - k" arbitrary: k ls acc)
  case 0
  then show ?case by (auto simp: nibble_prefix_0)
next
  case (Suc d)
  then have km: "[k..<m] = k # [Suc k..<m]" "m - k = Suc (m - Suc k)" by (auto simp: upt_conv_Cons)
  have pos: "unat (of_nat k * 4 :: u8) = 4 * k"
    using Suc by (simp add: unat_word_ariths unat_of_nat)
  have "ptr_nibble_loop (map of_nat [k..<m]) ls acc = Some (rest, r) \<longleftrightarrow>
    (\<exists>c v ls'. ls = [c] # ls' \<and> hex_val c = Some v \<and>
      ptr_nibble_loop (map of_nat [Suc k..<m]) ls' (acc OR push_bit (4 * k) (ucast v)) = Some (rest, r))"
    using km(1) pos by (cases ls) (auto split: list.splits option.splits)
  also have "\<dots> \<longleftrightarrow> (\<exists>c v ls' vs. ls = [c] # ls' \<and> hex_val c = Some v \<and>
      nibble_prefix (m - Suc k) ls' rest vs \<and> r = acc OR combine k (unat v # vs))"
    using Suc by (simp add: or.assoc)
  also have "\<dots> \<longleftrightarrow> (\<exists>vs. nibble_prefix (m - k) ls rest vs \<and> r = acc OR combine k vs)"
    unfolding km(2) nibble_prefix_Suc by blast
  finally show ?case .
qed

text \<open>The labels of the \<open>ip6.arpa\<close> name of an address.\<close>

definition ptr_labels :: "u128 \<Rightarrow> bytes list" where
  "ptr_labels a = map (\<lambda>i. [HEX_LOWER ! nibble a i]) [0..<32] @ [''ip6'', ''arpa'']"

lemma ptr_labels_eq_iff: "ptr_labels a = ptr_labels b \<longleftrightarrow> a = b"
  by (auto simp: ptr_labels_def u128_eq_iff_nibbles HEX_LOWER_eq_iff)

lemma folded_ptr_labels: "map to_ascii_lowercase (ptr_labels a) = ptr_labels a"
  by (simp add: ptr_labels_def)

lemma length_ptr_labels [simp]: "length (ptr_labels a) = 34"
  by (simp add: ptr_labels_def)

lemma ptr_labels_alt:
  "ptr_labels a = map (\<lambda>v. [HEX_LOWER ! v]) (map (nibble a) [0..<32]) @ [''ip6'', ''arpa'']"
  by (simp add: ptr_labels_def)

lemma hex_label_not_star: "to_ascii_lowercase l = [HEX_LOWER ! v] \<Longrightarrow> v < 16 \<Longrightarrow> l \<noteq> ''*''"
proof
  assume "to_ascii_lowercase l = [HEX_LOWER ! v]" "v < 16" "l = ''*''"
  then have "hex_val CHR ''*'' = Some (of_nat v)" by (simp add: hex_val_Some_iff unat_of_nat)
  moreover have "hex_val CHR ''*'' = None" by code_simp
  ultimately show False by simp
qed

lemma u8_range_ADDR: "u8_range 0 ADDR_NIBBLES = map of_nat [0..<32]"
  by (simp add: u8_range_def ADDR_NIBBLES_def)

context dns_laws
begin

lemma ptr_name_to_addr_iff: "ptr_name_to_addr H n = Some a \<longleftrightarrow> folded H n = ptr_labels a"
proof
  assume "ptr_name_to_addr H n = Some a"
  then obtain l1 l2 ls where cnt: "num_labels H n = PTR_QUERY_LABELS"
    and loop: "ptr_nibble_loop (u8_range 0 ADDR_NIBBLES) (iter H n) 0 = Some (l1 # l2 # ls, a)"
    and eq: "eq_ignore_ascii_case l1 ''ip6''" "eq_ignore_ascii_case l2 ''arpa''"
    by (auto simp: ptr_name_to_addr_def split: if_splits option.splits list.splits)
  from loop obtain pre vs where vs: "iter H n = pre @ l1 # l2 # ls" "length vs = 32"
    "list_all (\<lambda>v. v < 16) vs" "map to_ascii_lowercase pre = map (\<lambda>v. [HEX_LOWER ! v]) vs"
    "a = combine 0 vs"
    by (auto simp: u8_range_ADDR ptr_nibble_loop_iff nibble_prefix_def)
  have "length pre = 32" using vs(2,4) by (metis length_map)
  then obtain l pre' where pre: "pre = l # pre'" by (cases pre) auto
  with vs obtain v vs' where v: "vs = v # vs'" "to_ascii_lowercase l = [HEX_LOWER ! v]" "v < 16" by auto
  have "l \<noteq> ''*''" using v(2,3) by (rule hex_label_not_star)
  then have "unat (num_labels H n) = length (iter H n)"
    using vs pre by (simp add: num_labels_counted counted_labels_def)
  then have "ls = []" using cnt vs \<open>length pre = 32\<close>
    by (simp add: PTR_QUERY_LABELS_def ADDR_NIBBLES_def)
  moreover have "map (nibble a) [0..<32] = vs"
    using vs by (auto intro!: nth_equalityI simp: nibble_combine)
  ultimately show "folded H n = ptr_labels a"
    using vs eq by (simp add: folded_def ptr_labels_alt eq_ignore_ascii_case_def del: map_map)
next
  assume "folded H n = ptr_labels a"
  then obtain pre l1 l2 where n: "iter H n = pre @ [l1, l2]"
    "map to_ascii_lowercase pre = map (\<lambda>v. [HEX_LOWER ! v]) (map (nibble a) [0..<32])"
    "to_ascii_lowercase l1 = ''ip6''" "to_ascii_lowercase l2 = ''arpa''"
    by (auto simp: folded_def ptr_labels_alt map_eq_append_conv simp del: map_map)
  then have "length pre = 32" by (metis length_map length_upt diff_zero)
  with n obtain l pre' where pre: "pre = l # pre'" "to_ascii_lowercase l = [HEX_LOWER ! nibble a 0]"
    by (cases pre) (auto simp: upt_conv_Cons)
  have "l \<noteq> ''*''" using pre(2) by (rule hex_label_not_star) simp
  with n pre \<open>length pre = 32\<close> have "unat (num_labels H n) = unat PTR_QUERY_LABELS"
    by (simp add: num_labels_counted counted_labels_def PTR_QUERY_LABELS_def ADDR_NIBBLES_def)
  then have "num_labels H n = PTR_QUERY_LABELS" by (rule unsigned_word_eqI)
  moreover have "ptr_nibble_loop (u8_range 0 ADDR_NIBBLES) (iter H n) 0 = Some ([l1, l2], a)"
    unfolding u8_range_ADDR using n
    by (subst ptr_nibble_loop_iff) (auto intro!: exI [of _ "map (nibble a) [0..<32]"]
        simp: combine_nibbles nibble_prefix_def list_all_length simp del: map_map)
  ultimately show "ptr_name_to_addr H n = Some a"
    using n(3,4) by (simp add: ptr_name_to_addr_def eq_ignore_ascii_case_def)
qed
end

lemma ptr_zone_loop_eq:
  "k \<le> 32 \<Longrightarrow> ptr_zone_loop (map of_nat [k..<32]) p ls = Some (ls @ map (\<lambda>i. [HEX_LOWER ! nibble p i]) [k..<32])"
proof (induction "32 - k" arbitrary: k ls)
  case (Suc d)
  then have km: "k < 32" "[k..<32] = k # [Suc k..<32]" by (auto simp: upt_conv_Cons)
  have "unat (of_nat k * 4 :: u8) = 4 * k"
    using km by (simp add: unat_word_ariths unat_of_nat)
  then have "unat (drop_bit (unat (of_nat k * 4 :: u8)) p AND 0xF) = nibble p k"
    by (simp add: nibble_def)
  then show ?case using Suc km
    by (simp add: get_def Let_def del: upt_Suc)
qed simp

lemma drop_ptr_labels:
  "q \<le> 32 \<Longrightarrow> drop (32 - q) (ptr_labels p) = map (\<lambda>i. [HEX_LOWER ! nibble p i]) [32 - q..<32] @ [''ip6'', ''arpa'']"
  by (simp add: ptr_labels_def drop_map)

lemma aligned_u8:
  fixes m :: u8
  assumes "m \<le> 128"
  shows "unat (m div 4) = unat m div 4" "unat m div 4 \<le> 32" "unat (ADDR_NIBBLES - m div 4) = 32 - unat m div 4"
proof -
  have m: "unat m \<le> 128" using assms by (simp add: word_le_nat_alt)
  show q: "unat (m div 4) = unat m div 4" by (simp add: unat_div)
  show "unat m div 4 \<le> 32" using m by simp
  then show "unat (ADDR_NIBBLES - m div 4) = 32 - unat m div 4"
    using q by (simp add: ADDR_NIBBLES_def unat_sub word_le_nat_alt)
qed

lemma rfc1035_ptr_labels: "q \<le> 32 \<Longrightarrow> rfc1035_labels (drop (32 - q) (ptr_labels p))"
proof -
  assume q: "q \<le> 32"
  have "sum_list (map (\<lambda>l. length l + 1) (map (\<lambda>i. [HEX_LOWER ! nibble p i]) is)) = 2 * length is" for "is"
    by (induction "is") auto
  then show ?thesis using q
    by (auto simp: rfc1035_labels_def wire_length_def drop_ptr_labels list_all_iff simp del: map_map)
qed

context dns_laws
begin

lemma netmask_to_ptr_name_None: "netmask_to_ptr_name H p m = None \<longleftrightarrow> m > 128 \<or> m mod 4 \<noteq> 0"
  and netmask_to_ptr_name_SomeD: "netmask_to_ptr_name H p m = Some n \<Longrightarrow>
    m \<le> 128 \<and> m mod 4 = 0 \<and> is_fqdn H n \<and> iter H n = drop (32 - unat m div 4) (ptr_labels p)"
proof -
  have *: "\<exists>n0. from_labels H (drop (32 - unat m div 4) (ptr_labels p)) = Inr n0 \<and>
      netmask_to_ptr_name H p m = Some (set_fqdn H n0 True)" if m: "m \<le> 128" "m mod 4 = 0"
  proof -
    have "u8_range (ADDR_NIBBLES - m div 4) ADDR_NIBBLES = map of_nat [32 - unat m div 4..<32]"
      using aligned_u8 [OF m(1)] by (simp add: u8_range_def ADDR_NIBBLES_def)
    moreover from aligned_u8 [OF m(1)] obtain n0
      where "from_labels H (drop (32 - unat m div 4) (ptr_labels p)) = Inr n0"
      using from_labels_rfc1035 [OF rfc1035_ptr_labels, of "unat m div 4" p] by (cases "from_labels H (drop (32 - unat m div 4) (ptr_labels p))") auto
    ultimately show ?thesis using m
      by (simp add: netmask_to_ptr_name_def ptr_zone_loop_eq drop_ptr_labels aligned_u8 Let_def not_less)
  qed
  have "netmask_to_ptr_name H p m \<noteq> None" if "\<not> (m > 128 \<or> m mod 4 \<noteq> 0)"
  proof -
    from that have "m \<le> 128" "m mod 4 = 0" by (simp_all only: not_less de_Morgan_disj not_not)
    from * [OF this] show ?thesis by auto
  qed
  moreover have "netmask_to_ptr_name H p m = None" if "m > 128 \<or> m mod 4 \<noteq> 0"
    using that by (simp only: netmask_to_ptr_name_def if_True)
  ultimately show "netmask_to_ptr_name H p m = None \<longleftrightarrow> m > 128 \<or> m mod 4 \<noteq> 0"
    by metis
  assume "netmask_to_ptr_name H p m = Some n"
  moreover from this have "m \<le> 128 \<and> m mod 4 = 0"
    by (auto simp: netmask_to_ptr_name_def split: if_splits)
  ultimately show "m \<le> 128 \<and> m mod 4 = 0 \<and> is_fqdn H n \<and> iter H n = drop (32 - unat m div 4) (ptr_labels p)"
    using * by (auto simp: iter_set_fqdn is_fqdn_set_fqdn dest: from_labels_iter)
qed

end

lemma masked_eq_iff_nibbles:
  assumes "unat m mod 4 = 0" "unat m \<le> 128"
  shows "a AND mask_bits m = p AND mask_bits m \<longleftrightarrow> (\<forall>i. 32 - unat m div 4 \<le> i \<and> i < 32 \<longrightarrow> nibble a i = nibble p i)"
proof
  assume eq: "a AND mask_bits m = p AND mask_bits m"
  show "\<forall>i. 32 - unat m div 4 \<le> i \<and> i < 32 \<longrightarrow> nibble a i = nibble p i"
  proof (intro allI impI bit_eqI)
    fix i j assume i: "32 - unat m div 4 \<le> i \<and> i < 32"
    have "bit (a AND mask_bits m) (4 * i + j) = bit (p AND mask_bits m) (4 * i + j)" using eq by simp
    then show "bit (nibble a i) j = bit (nibble p i) j"
      using i assms by (auto simp: bit_nibble bit_and_iff bit_mask_bits)
  qed
next
  assume *: "\<forall>i. 32 - unat m div 4 \<le> i \<and> i < 32 \<longrightarrow> nibble a i = nibble p i"
  have "bit a j = bit p j" if "j < 128" "128 \<le> j + unat m" for j
  proof -
    have "32 - unat m div 4 \<le> j div 4 \<and> j div 4 < 32" using that assms by auto
    with * have "bit (nibble a (j div 4)) (j mod 4) = bit (nibble p (j div 4)) (j mod 4)" by simp
    then show ?thesis by (simp add: bit_nibble)
  qed
  then show "a AND mask_bits m = p AND mask_bits m"
    by (auto simp: u128_eq_iff_bits bit_and_iff bit_mask_bits)
qed

context dns_laws
begin
lemma zone_of_ptr_iff:
  assumes z: "netmask_to_ptr_name H p m = Some z" and n: "folded H n = ptr_labels a"
  shows "zone_of H z n \<longleftrightarrow> a AND mask_bits m = p AND mask_bits m"
proof -
  from netmask_to_ptr_name_SomeD [OF z] have m: "unat m \<le> 128" "unat m mod 4 = 0"
    and it: "iter H z = drop (32 - unat m div 4) (ptr_labels p)"
    by (simp_all only: u8_mod_4_iff) (simp_all add: word_le_nat_alt)
  have "folded H z = drop (32 - unat m div 4) (ptr_labels p)"
    by (simp add: folded_def it drop_map folded_ptr_labels flip: drop_map)
  then have "zone_of H z n \<longleftrightarrow> drop (32 - unat m div 4) (ptr_labels p) = drop (32 - unat m div 4) (ptr_labels a)"
    by (simp add: zone_of_suffix n suffix_drop_same_length)
  also have "\<dots> \<longleftrightarrow> (\<forall>i. 32 - unat m div 4 \<le> i \<and> i < 32 \<longrightarrow> nibble a i = nibble p i)"
    using m by (auto simp: drop_ptr_labels HEX_LOWER_eq_iff)
  finally show ?thesis using m by (simp add: masked_eq_iff_nibbles)
qed
end

section \<open>Host digits\<close>

lemma host_part_mod:
  assumes "h \<le> ADDR_NIBBLES"
  shows "unat (a AND NOT (mask_bits (128 - h * 4))) = unat a mod 16 ^ unat h"
proof -
  have h: "unat h \<le> 32" using assms by (simp add: word_le_nat_alt ADDR_NIBBLES_def)
  then have "unat (h * 4) = unat h * 4" by (simp add: unat_word_ariths)
  with h have m: "unat (128 - h * 4) = 128 - 4 * unat h"
    by (simp add: unat_sub word_le_nat_alt)
  have "a AND NOT (mask_bits (128 - h * 4)) = take_bit (4 * unat h) a"
    using h by (auto simp: u128_eq_iff_bits bit_and_iff bit_not_iff bit_mask_bits bit_take_bit_iff m)
  then have "unat (a AND NOT (mask_bits (128 - h * 4))) = take_bit (4 * unat h) (unat a)"
    by (simp only: unsigned_take_bit_eq)
  then show ?thesis by (simp add: take_bit_eq_mod power_mult)
qed

lemma host_digits_eq:
  "host_digits a h = (if h > ADDR_NIBBLES then None else Some (hex_digits (unat h) (unat a)))"
proof (cases "h > ADDR_NIBBLES \<or> unat h = 0")
  case True
  then show ?thesis by (auto simp: host_digits_def)
next
  case False
  then have h: "h \<le> ADDR_NIBBLES" "0 < unat h" by (auto simp: not_less)
  have "format_lower_hex (unat h) (unat a mod 16 ^ unat h) = hex_digits (unat h) (unat a mod 16 ^ unat h)"
    using h by (intro format_lower_hex_eq) simp_all
  with False h show ?thesis by (simp add: host_digits_def host_part_mod hex_digits_mod)
qed

text \<open>The number a list of base-16 digits denotes, most significant first.\<close>

definition hex_number :: "nat list \<Rightarrow> nat" where
  "hex_number vs = foldl (\<lambda>n v. n * 16 + v) 0 vs"

lemma foldl_hex: "foldl (\<lambda>n v. n * 16 + v) (n :: nat) vs = n * 16 ^ length vs + hex_number vs"
  unfolding hex_number_def
proof (induction vs arbitrary: n)
  case (Cons v vs)
  show ?case using Cons [of "n * 16 + v"] Cons [of v] by (simp add: algebra_simps)
qed simp

lemma hex_number_snoc [simp]: "hex_number (vs @ [v]) = hex_number vs * 16 + v"
  by (simp add: hex_number_def)

lemma hex_number_Nil [simp]: "hex_number [] = 0"
  by (simp add: hex_number_def)

lemma hex_number_less: "list_all (\<lambda>v. v < 16) vs \<Longrightarrow> hex_number vs < 16 ^ length vs"
  by (induction vs rule: rev_induct) auto

lemma hex_digits_number: "list_all (\<lambda>v. v < 16) vs \<Longrightarrow> hex_digits (length vs) (hex_number vs) = map (nth HEX_LOWER) vs"
  by (induction vs rule: rev_induct) (auto simp: hex_digits_Suc HEX_LOWER_def)

lemma push_or_add: "v < 16 \<Longrightarrow> push_bit 4 h OR of_nat v = h * 16 + (of_nat v :: u128)"
proof -
  assume v: "v < 16"
  have "push_bit 4 h AND of_nat v = (0 :: u128)"
    by (auto simp: u128_eq_iff_bits bit_simps dest: bit_less_16 [OF v])
  then have "push_bit 4 h OR of_nat v = push_bit 4 h + (of_nat v :: u128)"
    by (rule disjunctive_add_eq_or [symmetric])
  then show ?thesis by (simp add: push_bit_eq_mult)
qed

lemma digits_loop_step:
  "digits_loop (d # ds) acc = Some r \<longleftrightarrow>
    (\<exists>v. v < 16 \<and> to_ascii_lower d = HEX_LOWER ! v \<and> digits_loop ds (acc * 16 + of_nat v) = Some r)"
  (is "_ \<longleftrightarrow> ?ex")
proof
  assume "digits_loop (d # ds) acc = Some r"
  then obtain u where u: "hex_val d = Some u" "digits_loop ds (push_bit 4 acc OR ucast u) = Some r"
    by (auto split: option.splits)
  moreover have "push_bit 4 acc OR ucast u = acc * 16 + ucast u"
    using push_or_add [OF hex_val_SomeD(1) [OF u(1)], of acc] by simp
  ultimately show ?ex
    using hex_val_SomeD [OF u(1)] by (intro exI [of _ "unat u"]) simp
next
  assume ?ex
  then obtain v where v: "v < 16" "to_ascii_lower d = HEX_LOWER ! v"
    "digits_loop ds (acc * 16 + of_nat v) = Some r" by blast
  have "hex_val d = Some (of_nat v)" using v by (simp add: hex_val_Some_iff unat_of_nat)
  moreover have "ucast (of_nat v :: u8) = (of_nat v :: u128)"
    using v(1) by (simp add: unsigned_of_nat take_bit_nat_eq_self)
  ultimately show "digits_loop (d # ds) acc = Some r"
    using v push_or_add [OF v(1), of acc] by simp
qed

lemma digits_loop_iff:
  "digits_loop ds acc = Some r \<longleftrightarrow>
    (\<exists>vs. list_all (\<lambda>v. v < 16) vs \<and> to_ascii_lowercase ds = map (nth HEX_LOWER) vs \<and>
      r = acc * 16 ^ length vs + of_nat (hex_number vs))"
proof (induction ds arbitrary: acc)
  case (Cons d ds)
  have "digits_loop (d # ds) acc = Some r \<longleftrightarrow>
      (\<exists>v. v < 16 \<and> to_ascii_lower d = HEX_LOWER ! v \<and> digits_loop ds (acc * 16 + of_nat v) = Some r)"
    (is "_ \<longleftrightarrow> ?ex") by (rule digits_loop_step)
  also have "\<dots> \<longleftrightarrow> (\<exists>vs. list_all (\<lambda>v. v < 16) vs \<and> to_ascii_lowercase (d # ds) = map (nth HEX_LOWER) vs \<and>
      r = acc * 16 ^ length vs + of_nat (hex_number vs))" (is "_ \<longleftrightarrow> ?vs")
  proof
    assume ?ex
    then show ?vs unfolding Cons.IH
    proof (elim exE conjE)
      fix v vs
      assume *: "v < 16" "to_ascii_lower d = HEX_LOWER ! v" "list_all (\<lambda>v. v < 16) vs"
        "to_ascii_lowercase ds = map (nth HEX_LOWER) vs"
        "r = (acc * 16 + of_nat v) * 16 ^ length vs + of_nat (hex_number vs)"
      have "hex_number (v # vs) = v * 16 ^ length vs + hex_number vs"
        using foldl_hex [of v vs] by (simp add: hex_number_def)
      with * show ?vs by (intro exI [of _ "v # vs"]) (simp add: algebra_simps)
    qed
  next
    assume ?vs
    then obtain v vs where *: "v < 16" "to_ascii_lower d = HEX_LOWER ! v" "list_all (\<lambda>v. v < 16) vs"
      "to_ascii_lowercase ds = map (nth HEX_LOWER) vs"
      "r = acc * 16 ^ length (v # vs) + of_nat (hex_number (v # vs))" by (auto simp: Cons_eq_map_conv)
    have "hex_number (v # vs) = v * 16 ^ length vs + hex_number vs"
      using foldl_hex [of v vs] by (simp add: hex_number_def)
    with * show ?ex unfolding Cons.IH
      by (intro exI [of _ v] conjI exI [of _ vs]) (simp_all add: algebra_simps)
  qed
  finally show ?case .
qed auto

lemma digits_to_host_iff:
  assumes h: "h \<le> ADDR_NIBBLES"
  shows "digits_to_host ds h = Some r \<longleftrightarrow>
    length ds = unat h \<and> to_ascii_lowercase ds = hex_digits (unat h) (unat r) \<and> unat r < 16 ^ unat h"
proof -
  have h: "unat h \<le> 32" using assms by (simp add: word_le_nat_alt ADDR_NIBBLES_def)
  have bound: "(16 :: nat) ^ unat h \<le> 2 ^ 128"
    using power_increasing [of "unat h" 32 "16 :: nat"] h by simp
  show ?thesis
  proof
    assume "digits_to_host ds h = Some r"
    then obtain vs where vs: "length ds = unat h" "list_all (\<lambda>v. v < 16) vs"
      "to_ascii_lowercase ds = map (nth HEX_LOWER) vs" "r = of_nat (hex_number vs)"
      by (auto simp: digits_to_host_def digits_loop_iff split: if_splits)
    then have len: "length vs = unat h" by (metis length_map lowercase_length)
    then have "hex_number vs < 2 ^ 128" using hex_number_less [OF vs(2)] bound by simp
    then have "unat r = hex_number vs" using vs(4) by (simp add: unat_of_nat)
    with vs len hex_number_less [OF vs(2)] hex_digits_number [OF vs(2)]
    show "length ds = unat h \<and> to_ascii_lowercase ds = hex_digits (unat h) (unat r) \<and> unat r < 16 ^ unat h"
      by simp
  next
    assume *: "length ds = unat h \<and> to_ascii_lowercase ds = hex_digits (unat h) (unat r) \<and> unat r < 16 ^ unat h"
    define vs where "vs = map (\<lambda>i. unat r div 16 ^ i mod 16) (rev [0..<unat h])"
    have "hex_number (map (\<lambda>i. n div 16 ^ i mod 16) (rev [0..<w])) = n mod 16 ^ w" for n w :: nat
    proof (induction w arbitrary: n)
      case (Suc w)
      have "rev [0..<Suc w] = map Suc (rev [0..<w]) @ [0]"
        by (simp add: rev_map [symmetric] map_Suc_upt upt_conv_Cons del: upt_Suc)
      then have "hex_number (map (\<lambda>i. n div 16 ^ i mod 16) (rev [0..<Suc w])) = (n div 16) mod 16 ^ w * 16 + n mod 16"
        using Suc [of "n div 16"] by (simp add: div_mult2_eq comp_def del: upt_Suc)
      then show ?case by (simp add: mod_mult2_eq)
    qed (simp add: hex_number_def)
    then have "hex_number vs = unat r" using * by (simp add: vs_def)
    then have "r = 0 * 16 ^ length vs + of_nat (hex_number vs)" by simp
    moreover have "list_all (\<lambda>v. v < 16) vs" by (simp add: vs_def list_all_iff)
    moreover have "to_ascii_lowercase ds = map (nth HEX_LOWER) vs"
      using * by (simp add: hex_digits_def vs_def HEX_LOWER_def)
    ultimately show "digits_to_host ds h = Some r"
      using * by (auto simp: digits_to_host_def digits_loop_iff simp del: mult_zero_left)
  qed
qed

section \<open>Dashed digits\<close>

fun join_dash :: "bytes list \<Rightarrow> bytes" where
  "join_dash [] = []"
| "join_dash [c] = c"
| "join_dash (c # cs) = c @ CHR ''-'' # join_dash cs"

lemma join_dash_Cons: "join_dash (c # cs) = c @ concat (map ((#) (CHR ''-'')) cs)"
  by (induction cs arbitrary: c) simp_all

lemma dash_loop_eq:
  "\<forall>c \<in> set cs. utf8_valid c \<Longrightarrow>
   dash_loop i cs out = out @ (if i > 0 then concat (map ((#) (CHR ''-'')) cs) else join_dash cs)"
  by (induction cs arbitrary: i out) (auto simp: from_utf8_def join_dash_Cons)

lemma dash_group_eq:
  assumes "\<forall>c \<in> set ds. of_char c < (128 :: nat)"
  shows "dash_group ds = join_dash (chunks 4 ds)"
proof -
  have "\<forall>c \<in> set (chunks 4 ds). utf8_valid c"
    using assms by (auto intro!: utf8_valid_ascii dest!: set_chunks_subset)
  then show ?thesis by (simp add: dash_group_def dash_loop_eq)
qed

lemma undash_loop_iff:
  "g < G \<Longrightarrow> undash_loop [g..<G] G inp out = Some (rest, out') \<longleftrightarrow>
    (\<exists>cs. length cs = G - g \<and> (\<forall>c \<in> set cs. length c = 4) \<and> inp = join_dash cs @ rest \<and> out' = out @ concat cs)"
proof (induction "G - g" arbitrary: g inp out)
  case (Suc d)
  show ?case
  proof (cases "Suc g < G")
    case False
    with Suc.prems have g: "[g..<G] = [g]" "G - g = Suc 0" by (auto simp: upt_rec)
    have "undash_loop [g..<G] G inp out = Some (rest, out') \<longleftrightarrow>
        (\<exists>c. inp = c @ rest \<and> length c = 4 \<and> out' = out @ c)"
      using False g(1) by (auto simp: case_split_at_checked_Some)
    also have "\<dots> \<longleftrightarrow> (\<exists>cs. length cs = G - g \<and> (\<forall>c \<in> set cs. length c = 4) \<and>
        inp = join_dash cs @ rest \<and> out' = out @ concat cs)"
      unfolding g(2) by (auto simp: length_Suc_conv)
    finally show ?thesis .
  next
    case True
    then have g: "[g..<G] = g # [Suc g..<G]" "G - g = Suc (G - Suc g)" by (auto simp: upt_rec)
    have IH: "undash_loop [Suc g..<G] G inp' (out @ c) = Some (rest, out') \<longleftrightarrow>
        (\<exists>cs. length cs = G - Suc g \<and> (\<forall>c \<in> set cs. length c = 4) \<and> inp' = join_dash cs @ rest \<and>
           out' = (out @ c) @ concat cs)" for c inp'
      using Suc True by simp
    have "undash_loop [g..<G] G inp out = Some (rest, out') \<longleftrightarrow>
        (\<exists>c inp'. inp = c @ CHR ''-'' # inp' \<and> length c = 4 \<and>
           undash_loop [Suc g..<G] G inp' (out @ c) = Some (rest, out'))"
      using True g(1) by (auto simp: case_split_at_checked_Some)
    also have "\<dots> \<longleftrightarrow> (\<exists>c cs. length cs = G - Suc g \<and> length c = 4 \<and> (\<forall>c \<in> set cs. length c = 4) \<and>
        inp = join_dash (c # cs) @ rest \<and> out' = out @ concat (c # cs))"
    proof -
      have "join_dash (c # cs) = c @ CHR ''-'' # join_dash cs" if "length cs = G - Suc g" for c cs
        using that True by (cases cs) auto
      then show ?thesis unfolding IH by fastforce
    qed
    also have "\<dots> \<longleftrightarrow> (\<exists>cs. length cs = G - g \<and> (\<forall>c \<in> set cs. length c = 4) \<and>
        inp = join_dash cs @ rest \<and> out' = out @ concat cs)"
      unfolding g(2) ex_length_Suc by (simp add: conj_ac del: join_dash.simps)
    finally show ?thesis .
  qed
qed simp

lemma undash_group_iff:
  "undash_group inp h = Some out \<longleftrightarrow>
    4 \<le> unat h \<and> length out = 4 * (unat h div 4) \<and> inp = join_dash (chunks 4 out)"
proof (cases "4 \<le> unat h")
  case True
  let ?G = "unat h div 4"
  from True have G: "0 < ?G" by auto
  then have "undash_group inp h = Some out \<longleftrightarrow> undash_loop [0..<?G] ?G inp [] = Some ([], out)"
    by (auto simp: undash_group_def Let_def split: option.splits)
  also have "\<dots> \<longleftrightarrow> (\<exists>cs. length cs = ?G \<and> (\<forall>c \<in> set cs. length c = 4) \<and> inp = join_dash cs \<and> out = concat cs)"
    using undash_loop_iff [OF G] by simp
  also have "\<dots> \<longleftrightarrow> length out = 4 * ?G \<and> inp = join_dash (chunks 4 out)"
  proof
    assume "\<exists>cs. length cs = ?G \<and> (\<forall>c \<in> set cs. length c = 4) \<and> inp = join_dash cs \<and> out = concat cs"
    then obtain cs where cs: "length cs = ?G" "\<forall>c \<in> set cs. length c = 4" "inp = join_dash cs" "out = concat cs"
      by blast
    then have "length out = 4 * length cs" by (simp add: length_concat_const [of cs 4])
    with cs show "length out = 4 * ?G \<and> inp = join_dash (chunks 4 out)" by (simp add: chunks_concat)
  next
    assume "length out = 4 * ?G \<and> inp = join_dash (chunks 4 out)"
    then show "\<exists>cs. length cs = ?G \<and> (\<forall>c \<in> set cs. length c = 4) \<and> inp = join_dash cs \<and> out = concat cs"
      using chunks_full [of 4 out ?G] concat_chunks [of 4 out] by auto
  qed
  finally show ?thesis using True by simp
next
  case False
  then show ?thesis by (simp add: undash_group_def)
qed

section \<open>The contract of a host-part encoding\<close>

text \<open>
  Templates write the host digits either contiguously or in dashed groups. Both encodings
  satisfy one contract: on the widths \<open>ok\<close> admits, \<open>dec\<close> accepts exactly the encodings of
  the digits of a value that fits the width, in either case.
\<close>

locale host_codec =
  fixes ok :: "u8 \<Rightarrow> bool" and enc :: "bytes \<Rightarrow> bytes" and dec :: "bytes \<Rightarrow> u8 \<Rightarrow> u128 option"
  assumes ok_width: "ok h \<Longrightarrow> h \<le> ADDR_NIBBLES"
    and dec_iff: "ok h \<Longrightarrow> dec s h = Some r \<longleftrightarrow>
      to_ascii_lowercase s = enc (hex_digits (unat h) (unat r)) \<and> unat r < 16 ^ unat h"
    and enc_length: "length ds = length ds' \<Longrightarrow> list_all (\<lambda>c. of_char c < (128 :: nat)) ds \<Longrightarrow>
      list_all (\<lambda>c. of_char c < (128 :: nat)) ds' \<Longrightarrow> length (enc ds) = length (enc ds')"
    and enc_lower: "to_ascii_lowercase (enc (hex_digits w n)) = enc (hex_digits w n)"
begin

lemma dec_case: "ok h \<Longrightarrow> to_ascii_lowercase s = to_ascii_lowercase t \<Longrightarrow> dec s h = dec t h"
proof -
  assume "ok h" and "to_ascii_lowercase s = to_ascii_lowercase t"
  then have "dec s h = Some r \<longleftrightarrow> dec t h = Some r" for r by (simp add: dec_iff)
  then show "dec s h = dec t h" by (metis option.exhaust)
qed

lemma dec_enc:
  "ok h \<Longrightarrow> dec (enc (hex_digits (unat h) (unat a))) h = Some (a AND NOT (mask_bits (128 - h * 4)))"
  by (simp add: dec_iff ok_width host_part_mod hex_digits_mod enc_lower)

end

lemma hex_digits_ascii: "list_all (\<lambda>c. of_char c < (128 :: nat)) (hex_digits w n)"
  using HEX_LOWER_ascii by (auto simp: hex_digits_def list_all_iff HEX_LOWER_def)

lemma hex_digits_lower [simp]: "to_ascii_lowercase (hex_digits w n) = hex_digits w n"
proof -
  have "to_ascii_lower (''0123456789abcdef'' ! (n div 16 ^ i mod 16)) = ''0123456789abcdef'' ! (n div 16 ^ i mod 16)" for i
    using lower_HEX_LOWER [of "n div 16 ^ i mod 16"] by (simp add: HEX_LOWER_def)
  then show ?thesis by (simp add: to_ascii_lowercase_def hex_digits_def)
qed

interpretation plain: host_codec "\<lambda>h. h \<le> ADDR_NIBBLES" "\<lambda>s. s" digits_to_host
proof unfold_locales
  fix h :: u8 and s r
  assume "h \<le> ADDR_NIBBLES"
  moreover have "to_ascii_lowercase s = hex_digits (unat h) n \<Longrightarrow> length s = unat h" for n
    by (metis hex_digits_length lowercase_length)
  ultimately show "digits_to_host s h = Some r \<longleftrightarrow>
      to_ascii_lowercase s = hex_digits (unat h) (unat r) \<and> unat r < 16 ^ unat h"
    by (auto simp: digits_to_host_iff)
qed simp_all

definition undash_to_host :: "bytes \<Rightarrow> u8 \<Rightarrow> u128 option" where
  "undash_to_host s h =
    (case undash_group s h of None \<Rightarrow> None | Some undashed \<Rightarrow> digits_to_host undashed h)"

lemma lowercase_join_dash: "to_ascii_lowercase (join_dash cs) = join_dash (map to_ascii_lowercase cs)"
  by (induction cs rule: join_dash.induct) simp_all

lemma lowercase_eq_join_dash:
  "to_ascii_lowercase s = join_dash cs' \<Longrightarrow> cs' \<noteq> [] \<Longrightarrow>
   \<exists>cs. s = join_dash cs \<and> map to_ascii_lowercase cs = cs'"
proof (induction cs' arbitrary: s rule: join_dash.induct)
  case (2 c)
  then show ?case by (intro exI [of _ "[s]"]) simp
next
  case (3 c c2 cs')
  from "3.prems"(1) have "to_ascii_lowercase s = c @ CHR ''-'' # join_dash (c2 # cs')" by simp
  from lowercase_eq_appendD [OF this]
  obtain s1 z s2 where s: "s = s1 @ z # s2" "to_ascii_lowercase s1 = c" "to_ascii_lower z = CHR ''-''"
    "to_ascii_lowercase s2 = join_dash (c2 # cs')"
    by blast
  from "3.IH" [OF s(4) list.distinct(2)] obtain ds
    where "s2 = join_dash ds \<and> map to_ascii_lowercase ds = c2 # cs'" ..
  then have ds: "s2 = join_dash ds" "map to_ascii_lowercase ds = c2 # cs'" by (rule conjunct1, rule conjunct2)
  from this have "join_dash (s1 # ds) = s1 @ CHR ''-'' # s2" by (cases ds) simp_all
  moreover have "s = s1 @ CHR ''-'' # s2" using s(1,3) by simp
  moreover have "map to_ascii_lowercase (s1 # ds) = c # c2 # cs'" using s(2) ds(2) by simp
  ultimately show ?case by metis
qed simp

lemma undash_to_host_iff:
  assumes "4 \<le> h" "h \<le> ADDR_NIBBLES" "h mod 4 = 0"
  shows "undash_to_host s h = Some r \<longleftrightarrow>
    to_ascii_lowercase s = dash_group (hex_digits (unat h) (unat r)) \<and> unat r < 16 ^ unat h"
proof -
  let ?d = "hex_digits (unat h) (unat r)"
  have h: "4 \<le> unat h" "4 * (unat h div 4) = unat h"
    using assms(1) assms(3) [unfolded u8_mod_4_iff] by (auto simp: word_le_nat_alt)
  have dash: "dash_group ?d = join_dash (chunks 4 ?d)"
    using hex_digits_ascii by (intro dash_group_eq) (simp add: list_all_iff)
  have "undash_to_host s h = Some r \<longleftrightarrow> (\<exists>u. undash_group s h = Some u \<and> digits_to_host u h = Some r)"
    by (auto simp: undash_to_host_def split: option.splits)
  also have "\<dots> \<longleftrightarrow> (\<exists>u. length u = unat h \<and> s = join_dash (chunks 4 u) \<and> to_ascii_lowercase u = ?d) \<and> unat r < 16 ^ unat h"
    using h by (auto simp: undash_group_iff digits_to_host_iff [OF assms(2)])
  also have "(\<exists>u. length u = unat h \<and> s = join_dash (chunks 4 u) \<and> to_ascii_lowercase u = ?d) \<longleftrightarrow>
      to_ascii_lowercase s = join_dash (chunks 4 ?d)"
  proof
    assume "\<exists>u. length u = unat h \<and> s = join_dash (chunks 4 u) \<and> to_ascii_lowercase u = ?d"
    then obtain u where u: "s = join_dash (chunks 4 u)" "to_ascii_lowercase u = ?d" by blast
    have "map to_ascii_lowercase (chunks 4 u) = chunks 4 (to_ascii_lowercase u)"
      by (simp add: to_ascii_lowercase_def chunks_map)
    with u show "to_ascii_lowercase s = join_dash (chunks 4 ?d)" by (simp add: lowercase_join_dash)
  next
    assume s: "to_ascii_lowercase s = join_dash (chunks 4 ?d)"
    have full: "length (chunks 4 ?d) = unat h div 4" "\<forall>c \<in> set (chunks 4 ?d). length c = 4"
      using chunks_full [of 4 ?d "unat h div 4"] h by simp_all
    then have "chunks 4 ?d \<noteq> []" using h by auto
    with s obtain cs where cs: "s = join_dash cs" "map to_ascii_lowercase cs = chunks 4 ?d"
      using lowercase_eq_join_dash by blast
    have "\<forall>c \<in> set cs. length c = 4" using cs(2) full(2)
      by (metis (no_types, lifting) image_eqI list.set_map lowercase_length)
    then have "chunks 4 (concat cs) = cs" by (simp add: chunks_concat)
    moreover have "to_ascii_lowercase (concat cs) = ?d"
      using arg_cong [OF cs(2), of concat] by (simp add: to_ascii_lowercase_def map_concat concat_chunks comp_def)
    moreover from this have "length (concat cs) = unat h" by (metis hex_digits_length lowercase_length)
    ultimately show "\<exists>u. length u = unat h \<and> s = join_dash (chunks 4 u) \<and> to_ascii_lowercase u = ?d"
      using cs(1) by (intro exI [of _ "concat cs"]) simp
  qed
  finally show ?thesis by (simp only: dash)
qed

lemma length_join_dash: "length (join_dash cs) = sum_list (map length cs) + (length cs - 1)"
  by (induction cs rule: join_dash.induct) simp_all

lemma length_dash_group:
  assumes "length ds = length ds'" and "list_all (\<lambda>c. of_char c < (128 :: nat)) ds"
    and "list_all (\<lambda>c. of_char c < (128 :: nat)) ds'"
  shows "length (dash_group ds) = length (dash_group ds')"
  using assms map_length_chunks [OF assms(1), of 4]
  by (simp add: dash_group_eq list_all_iff length_join_dash) (metis length_map)

interpretation dashed: host_codec "\<lambda>h. 4 \<le> h \<and> h \<le> ADDR_NIBBLES \<and> h mod 4 = 0" dash_group undash_to_host
proof unfold_locales
  fix h :: u8 and s r
  assume "4 \<le> h \<and> h \<le> ADDR_NIBBLES \<and> h mod 4 = 0"
  then have h: "4 \<le> h" "h \<le> ADDR_NIBBLES" "h mod 4 = 0" by blast+
  show "h \<le> ADDR_NIBBLES" by (rule h)
  show "undash_to_host s h = Some r \<longleftrightarrow>
      to_ascii_lowercase s = dash_group (hex_digits (unat h) (unat r)) \<and> unat r < 16 ^ unat h"
    using h by (rule undash_to_host_iff)
next
  fix ds ds' :: bytes
  assume "length ds = length ds'" "list_all (\<lambda>c. of_char c < (128 :: nat)) ds"
    "list_all (\<lambda>c. of_char c < (128 :: nat)) ds'"
  then show "length (dash_group ds) = length (dash_group ds')" by (rule length_dash_group)
next
  fix w n :: nat
  have "dash_group (hex_digits w n) = join_dash (chunks 4 (hex_digits w n))"
    using hex_digits_ascii by (intro dash_group_eq) (simp add: list_all_iff)
  moreover have "map to_ascii_lowercase (chunks 4 (hex_digits w n)) = chunks 4 (hex_digits w n)"
    using chunks_map [of 4 to_ascii_lower "hex_digits w n"]
    by (simp flip: to_ascii_lowercase_def)
  ultimately show "to_ascii_lowercase (dash_group (hex_digits w n)) = dash_group (hex_digits w n)"
    by (simp add: lowercase_join_dash)
qed

section \<open>Properties\<close>

text \<open>
  Property C12. \<open>ptr_name_to_addr\<close> accepts exactly the names whose labels, case folded, are the
  32 nibbles of an address, least significant first, followed by \<open>ip6.arpa\<close>, and returns
  that address: nothing shorter, longer, non-hexadecimal or with another suffix parses.
\<close>

theorem ptr_name_exact:
  assumes "dns_laws H"
  shows "ptr_name_to_addr H n = Some a \<longleftrightarrow> folded H n = ptr_labels a"
  by (rule dns_laws.ptr_name_to_addr_iff [OF assms])

theorem ptr_name_exact_witness:
  "ptr_name_to_addr rfc_lib
     (map (\<lambda>c. [c]) ''7CE234EFFFBD91200CCCE00188D41002'' @ [''IP6'', ''ARPA''], True) =
   Some 0x20014d88100eccc00219dbfffe432ec7"
  unfolding ptr_name_exact [OF rfc.dns_laws_axioms] by code_simp

text \<open>
  The \<open>ip6.arpa\<close> name built for an address parses back to it: for every address,
  \<open>netmask_to_ptr_name\<close> at \<open>/128\<close> succeeds and \<open>ptr_name_to_addr\<close> inverts it.
\<close>

theorem ptr_name_roundtrip:
  assumes "dns_laws H"
  shows "\<exists>n. netmask_to_ptr_name H a 128 = Some n \<and> ptr_name_to_addr H n = Some a"
proof -
  have "(128 :: u8) mod 4 = 0" by simp
  then obtain n where n: "netmask_to_ptr_name H a 128 = Some n"
    using dns_laws.netmask_to_ptr_name_None [OF assms, of a 128] by fastforce
  from dns_laws.netmask_to_ptr_name_SomeD [OF assms n] have "folded H n = ptr_labels a"
    by (simp add: folded_def folded_ptr_labels)
  with n show ?thesis by (simp add: dns_laws.ptr_name_to_addr_iff [OF assms])
qed

theorem ptr_name_roundtrip_witness:
  "\<exists>n. netmask_to_ptr_name rfc_lib 0x20014d88100eccc00219dbfffe432ec7 128 = Some n \<and>
     ptr_name_to_addr rfc_lib n = Some 0x20014d88100eccc00219dbfffe432ec7"
  by (rule ptr_name_roundtrip [OF rfc.dns_laws_axioms])

text \<open>
  Property C33. Zone names mirror networks: a zone name is built exactly for the nibble-aligned
  prefix lengths up to 128, it has one label per network nibble and two more, and the name
  of an address lies below it in the DNS tree exactly when the address lies in the network.
\<close>

theorem ptr_zone_mirrors_network:
  assumes "dns_laws H"
  shows "(netmask_to_ptr_name H p m = None \<longleftrightarrow> m > 128 \<or> m mod 4 \<noteq> 0) \<and>
    (\<forall>z n a. netmask_to_ptr_name H p m = Some z \<longrightarrow> ptr_name_to_addr H n = Some a \<longrightarrow>
       length (iter H z) = unat m div 4 + 2 \<and>
       (zone_of H z n \<longleftrightarrow> a AND mask_bits m = p AND mask_bits m))"
proof (intro conjI allI impI)
  show "netmask_to_ptr_name H p m = None \<longleftrightarrow> m > 128 \<or> m mod 4 \<noteq> 0"
    by (rule dns_laws.netmask_to_ptr_name_None [OF assms])
  fix z n a
  assume z: "netmask_to_ptr_name H p m = Some z" and n: "ptr_name_to_addr H n = Some a"
  from dns_laws.netmask_to_ptr_name_SomeD [OF assms z]
  show "length (iter H z) = unat m div 4 + 2" using aligned_u8(2) [of m] by auto
  show "zone_of H z n \<longleftrightarrow> a AND mask_bits m = p AND mask_bits m"
    using n by (intro dns_laws.zone_of_ptr_iff [OF assms z])
      (simp add: dns_laws.ptr_name_to_addr_iff [OF assms])
qed

theorem ptr_zone_mirrors_network_witness:
  "netmask_to_ptr_name rfc_lib 0x20010db8000000000000000000000000 30 = None \<and>
   netmask_to_ptr_name rfc_lib 0x20010db8000000000000000000000000 32 \<noteq> None"
  unfolding ptr_zone_mirrors_network [OF rfc.dns_laws_axioms, THEN conjunct1] by simp

text \<open>
  The host digits of an address have exactly the advertised width and decode
  back to the host part of the address; wider requests than 32 nibbles are refused.
\<close>

lemma host_digits_roundtrip:
  "(h > ADDR_NIBBLES \<longrightarrow> host_digits a h = None) \<and>
   (h \<le> ADDR_NIBBLES \<longrightarrow> (\<exists>ds. host_digits a h = Some ds \<and> length ds = unat h \<and>
      digits_to_host ds h = Some (a AND NOT (mask_bits (128 - h * 4)))))"
  by (auto simp: host_digits_eq plain.dec_enc)

text \<open>
  \<open>digits_to_host\<close> accepts exactly the strings of the requested length that spell,
  in either case, the digits of a value fitting that length: rendering what it returns
  gives the input back in lower case.
\<close>

theorem digits_to_host_exact:
  assumes "h \<le> ADDR_NIBBLES"
  shows "digits_to_host ds h = Some r \<longleftrightarrow>
    host_digits r h = Some (to_ascii_lowercase ds) \<and> unat r < 16 ^ unat h"
  using assms by (auto simp: plain.dec_iff host_digits_eq not_less)

theorem digits_to_host_exact_witness:
  "digits_to_host ''aF'' 2 = Some 0xaf \<and> digits_to_host ''zz'' 2 \<noteq> Some 0"
proof -
  have h: "(2 :: u8) \<le> ADDR_NIBBLES" by (simp add: ADDR_NIBBLES_def)
  show ?thesis unfolding digits_to_host_exact [OF h] by code_simp
qed

text \<open>
  The dashed grouping is inverted exactly: \<open>undash_group\<close> returns \<open>out\<close> only for the
  one input that writes \<open>out\<close> in groups of four separated by single dashes, and on ASCII
  digits that input is what \<open>dash_group\<close> renders.
\<close>

theorem undash_group_exact:
  assumes "list_all (\<lambda>c. of_char c < (128 :: nat)) out"
  shows "undash_group inp h = Some out \<longleftrightarrow>
    4 \<le> unat h \<and> length out = 4 * (unat h div 4) \<and> inp = dash_group out"
  using assms by (auto simp: undash_group_iff dash_group_eq list_all_iff)

theorem undash_group_exact_witness:
  "undash_group ''8e89-6f21-cc77-0ca0-c324'' 20 = Some ''8e896f21cc770ca0c324'' \<and>
   undash_group ''aaffbbcc'' 8 \<noteq> Some ''aaffbbcc''"
proof -
  have "list_all (\<lambda>c. of_char c < (128 :: nat)) ''8e896f21cc770ca0c324''"
    and "list_all (\<lambda>c. of_char c < (128 :: nat)) ''aaffbbcc''" by code_simp+
  note exact = this [THEN undash_group_exact]
  show ?thesis unfolding exact by code_simp
qed

end
