(* ===== verification/Config.thy ===== *)
theory Config
  imports Nibble Net_Text
begin

text \<open>
  \<open>src/src/config/mod.rs\<close>: the configuration model. Structs are records, enums datatypes;
  a DNS name is the type parameter \<open>'n\<close> of the library interface. The operations are those
  of \<open>FwdTemplate\<close> and \<open>Config\<close>; \<open>Config::parse\<close> is in \<open>Compile\<close>, where its two stages
  are. The invariants \<open>wf_template\<close> and \<open>wf_zone\<close> say what compilation establishes and the
  request path relies on.
\<close>

section \<open>Data\<close>

definition DEFAULT_TTL :: u32 where
  "DEFAULT_TTL = 3600"

definition DEFAULT_PORT :: u16 where
  "DEFAULT_PORT = 53"

record listen_addr =
  la_addr :: ip_addr
  la_port :: u16

datatype fwd_label =
    is_Literal: Literal (verbatim: bytes) (lower: bytes)
  | is_Digits: Digits (pre: bytes) (pre_lower: bytes) (post: bytes) (post_lower: bytes) (dashed: bool)

record fwd_template =
  ft_labels :: "fwd_label list"
  ft_digits_at :: nat

record 'n zone =
  zn_src_line :: u32
  zn_prefix :: u128
  zn_mask :: u8
  zn_host_nibbles :: u8
  zn_ptr_zone :: 'n
  zn_resolves_to :: bytes
  zn_fwd :: fwd_template
  zn_fwd_parent :: 'n
  zn_ttl :: u32
  zn_upstream :: "ip_addr option"

datatype out_of_zone_policy = Policy_Refused | Policy_NxDomain

record 'n soa_params =
  so_primary :: 'n
  so_hostmaster :: 'n
  so_serial :: u32
  so_refresh :: u32
  so_retry :: u32
  so_expire :: u32
  so_minimum :: u32

record rrl_params =
  rp_enabled :: bool
  rp_responses_per_second :: u32
  rp_burst :: u32
  rp_slip :: u32
  rp_ipv4_prefix :: u8
  rp_ipv6_prefix :: u8

definition rrl_params_default :: rrl_params where
  "rrl_params_default = \<lparr>rp_enabled = True, rp_responses_per_second = 20, rp_burst = 50,
     rp_slip = 2, rp_ipv4_prefix = 24, rp_ipv6_prefix = 64\<rparr>"

text \<open>A \<open>Duration\<close> is its number of milliseconds.\<close>

record server_params =
  sp_out_of_zone :: out_of_zone_policy
  sp_max_udp_payload :: u16
  sp_upstream_timeout :: u64
  sp_rrl :: rrl_params

definition server_params_default :: server_params where
  "server_params_default = \<lparr>sp_out_of_zone = Policy_Refused, sp_max_udp_payload = 1232,
     sp_upstream_timeout = 300, sp_rrl = rrl_params_default\<rparr>"

record 'n config =
  cf_listen :: "listen_addr list"
  cf_zones :: "'n zone list"
  cf_soa :: "'n soa_params option"
  cf_nameservers :: "'n list"
  cf_params :: server_params

section \<open>FwdTemplate\<close>

definition label_count :: "fwd_template \<Rightarrow> nat" where
  "label_count t = length (ft_labels t)"

fun parent_label :: "fwd_label \<Rightarrow> bytes" where
  "parent_label (Literal v l) = v"
| "parent_label (Digits a al b bl d) = a @ b"

definition parent :: "'n dns_lib \<Rightarrow> fwd_template \<Rightarrow> (string, 'n) result" where
  "parent H t =
    (let tail = map parent_label (drop (saturating_add (ft_digits_at t) 1) (ft_labels t))
     in (case from_labels H tail of
           Inl e \<Rightarrow> Inl e
         | Inr name \<Rightarrow> Inr (set_fqdn H name True)))"

fun render_label :: "bytes \<Rightarrow> fwd_label \<Rightarrow> bytes" where
  "render_label digits (Literal v l) = v"
| "render_label digits (Digits a al b bl d) =
    a @ (if d then dash_group digits else digits) @ b"

lemma parent_label_literal: "\<exists>v w. l = Literal v w \<Longrightarrow> parent_label l = render_label ds l"
  by auto

definition render :: "'n dns_lib \<Rightarrow> fwd_template \<Rightarrow> bytes \<Rightarrow> (string, 'n) result" where
  "render H t digits =
    (case from_labels H (map (render_label digits) (ft_labels t)) of
       Inl e \<Rightarrow> Inl e
     | Inr name \<Rightarrow> Inr (set_fqdn H name True))"

section \<open>Config\<close>

definition has_zones :: "'n config \<Rightarrow> bool" where
  "has_zones c = (cf_zones c \<noteq> [])"

definition warnings :: "'n config \<Rightarrow> string list" where
  "warnings c =
    (if cf_soa c = None then
       [''no `primary`/`hostmaster` configured: serving without apex SOA/NS records, so resolvers cannot cache negative answers (set both to fix)'']
     else []) @
    (if \<not> rp_enabled (sp_rrl (cf_params c)) then [''response rate limiting is disabled''] else []) @
    (if cf_zones c = [] then [''no `network` configured: every query will be declined''] else [])"

definition push_apex :: "'n dns_lib \<Rightarrow> 'n list \<Rightarrow> 'n \<Rightarrow> 'n list" where
  "push_apex H out name = (if list_ex (\<lambda>x. name_eq H x name) out then out else out @ [name])"

definition apexes :: "'n dns_lib \<Rightarrow> 'n config \<Rightarrow> 'n list" where
  "apexes H c =
    foldl (\<lambda>out z. push_apex H (push_apex H out (zn_ptr_zone z)) (zn_fwd_parent z)) [] (cf_zones c)"

definition config_default :: "'n config" where
  "config_default = \<lparr>cf_listen = [], cf_zones = [], cf_soa = None, cf_nameservers = [],
     cf_params = server_params_default\<rparr>"

section \<open>What compilation establishes\<close>

fun wf_label :: "fwd_label \<Rightarrow> bool" where
  "wf_label (Literal v l) \<longleftrightarrow> l = to_ascii_lowercase v"
| "wf_label (Digits a al b bl d) \<longleftrightarrow> al = to_ascii_lowercase a \<and> bl = to_ascii_lowercase b"

text \<open>
  A template has exactly one digits label, at \<open>ft_digits_at\<close>, and carries the lowercase
  form of every part. Its width \<open>h\<close> admits the dashed form only in multiples of four.
\<close>

definition wf_template :: "u8 \<Rightarrow> fwd_template \<Rightarrow> bool" where
  "wf_template h t \<longleftrightarrow>
    list_all wf_label (ft_labels t) \<and>
    ft_digits_at t < length (ft_labels t) \<and>
    (\<forall>i < length (ft_labels t). is_Digits (ft_labels t ! i) \<longleftrightarrow> i = ft_digits_at t) \<and>
    (dashed (ft_labels t ! ft_digits_at t) \<longrightarrow> h mod 4 = 0)"

definition widest :: "u8 \<Rightarrow> bytes" where
  "widest h = replicate (unat (min h ADDR_NIBBLES)) CHR ''f''"

definition wf_zone :: "'n dns_lib \<Rightarrow> 'n zone \<Rightarrow> bool" where
  "wf_zone H z \<longleftrightarrow>
    0 < zn_mask z \<and> zn_mask z < 128 \<and> zn_mask z mod 4 = 0 \<and>
    zn_prefix z AND mask_bits (zn_mask z) = zn_prefix z \<and>
    zn_host_nibbles z = (128 - zn_mask z) div 4 \<and>
    netmask_to_ptr_name H (zn_prefix z) (zn_mask z) = Some (zn_ptr_zone z) \<and>
    wf_template (zn_host_nibbles z) (zn_fwd z) \<and>
    \<not> isl (render H (zn_fwd z) (widest (zn_host_nibbles z))) \<and>
    parent H (zn_fwd z) = Inr (zn_fwd_parent z)"

lemma wf_zoneD:
  assumes "wf_zone H z"
  shows "0 < zn_mask z" and "zn_mask z < 128" and "zn_mask z mod 4 = 0"
    and "zn_prefix z AND mask_bits (zn_mask z) = zn_prefix z"
    and "zn_host_nibbles z = (128 - zn_mask z) div 4"
    and "netmask_to_ptr_name H (zn_prefix z) (zn_mask z) = Some (zn_ptr_zone z)"
    and "wf_template (zn_host_nibbles z) (zn_fwd z)"
    and "\<not> isl (render H (zn_fwd z) (widest (zn_host_nibbles z)))"
    and "parent H (zn_fwd z) = Inr (zn_fwd_parent z)"
  using assms unfolding wf_zone_def by - (elim conjE, assumption)+

definition in_network :: "'n zone \<Rightarrow> u128 \<Rightarrow> bool" where
  "in_network z a \<longleftrightarrow> a AND mask_bits (zn_mask z) = zn_prefix z"

text \<open>
  The label that carries the digits is split by its position, so a template is a list of
  literals, the digits label and a list of literals.
\<close>

lemma wf_templateE:
  assumes "wf_template h t"
  obtains ls a b d rs where
    "ft_labels t = ls @ Digits a (to_ascii_lowercase a) b (to_ascii_lowercase b) d # rs"
    "ft_digits_at t = length ls"
    "\<forall>l \<in> set ls \<union> set rs. \<exists>v. l = Literal v (to_ascii_lowercase v)"
    "d \<longrightarrow> h mod 4 = 0"
proof -
  let ?k = "ft_digits_at t" and ?L = "ft_labels t"
  from assms have k: "?k < length ?L" and wf: "list_all wf_label ?L"
    and dig: "\<forall>i < length ?L. is_Digits (?L ! i) \<longleftrightarrow> i = ?k"
    and d: "dashed (?L ! ?k) \<longrightarrow> h mod 4 = 0"
    by (auto simp: wf_template_def)
  have lit: "\<exists>v. ?L ! i = Literal v (to_ascii_lowercase v)" if "i < length ?L" "i \<noteq> ?k" for i
    using that dig wf by (cases "?L ! i") (auto simp: list_all_length dest!: spec [of _ i])
  have "is_Digits (?L ! ?k)" "wf_label (?L ! ?k)" using k dig wf by (auto simp: list_all_length)
  then obtain a b d' where D: "?L ! ?k = Digits a (to_ascii_lowercase a) b (to_ascii_lowercase b) d'"
    by (cases "?L ! ?k") auto
  have "?L = take ?k ?L @ ?L ! ?k # drop (Suc ?k) ?L" using k by (simp add: id_take_nth_drop)
  moreover have "\<forall>l \<in> set (take ?k ?L) \<union> set (drop (Suc ?k) ?L). \<exists>v. l = Literal v (to_ascii_lowercase v)"
    using lit k by (fastforce simp: in_set_conv_nth)
  moreover have "?k = length (take ?k ?L)" using k by simp
  ultimately show thesis using D d by (intro that [of "take ?k ?L" a b d' "drop (Suc ?k) ?L"]) auto
qed

section \<open>Rendering\<close>

lemma ascii_replicate_f: "list_all (\<lambda>c. of_char c < (128 :: nat)) (replicate n CHR ''f'')"
  by (simp add: list_all_iff)

lemma render_label_length:
  assumes "length ds = length ds'" "list_all (\<lambda>c. of_char c < (128 :: nat)) ds"
    "list_all (\<lambda>c. of_char c < (128 :: nat)) ds'"
  shows "length (render_label ds l) = length (render_label ds' l)"
  using assms by (cases l) (auto dest: length_dash_group)

context dns_laws
begin

text \<open>One rendering that succeeds shows that every rendering of the same width does.\<close>

lemma render_total:
  assumes "\<not> isl (render H t ds)" and "length ds = length ds'"
    and "list_all (\<lambda>c. of_char c < (128 :: nat)) ds" "list_all (\<lambda>c. of_char c < (128 :: nat)) ds'"
  obtains n where "render H t ds' = Inr n" and "is_fqdn H n"
    and "iter H n = map (render_label ds') (ft_labels t)"
proof -
  from assms(1) obtain m where m: "from_labels H (map (render_label ds) (ft_labels t)) = Inr m"
    by (auto simp: render_def split: sum.splits)
  have len: "map length (map (render_label ds) (ft_labels t)) =
      map length (map (render_label ds') (ft_labels t))"
    using render_label_length [OF assms(2-4)] by simp
  from from_labels_cases [OF len m]
  obtain n where n: "from_labels H (map (render_label ds') (ft_labels t)) = Inr n"
    and "iter H n = map (render_label ds') (ft_labels t)" .
  then show thesis
    by (intro that [of "set_fqdn H n True"]) (simp_all add: render_def iter_set_fqdn is_fqdn_set_fqdn)
qed

end

section \<open>Apexes\<close>

lemma set_push_apex: "set (push_apex H out n) \<subseteq> insert n (set out)"
  by (auto simp: push_apex_def)

lemma push_apex_keeps: "set out \<subseteq> set (push_apex H out n)"
  by (auto simp: push_apex_def)

lemma foldl_push_apex_subset:
  "set (foldl (\<lambda>out z. push_apex H (push_apex H out (zn_ptr_zone z)) (zn_fwd_parent z)) out zs) \<subseteq>
     set out \<union> zn_ptr_zone ` set zs \<union> zn_fwd_parent ` set zs"
proof (induction zs arbitrary: out)
  case (Cons z zs)
  let ?out = "push_apex H (push_apex H out (zn_ptr_zone z)) (zn_fwd_parent z)"
  have "set ?out \<subseteq> set out \<union> {zn_ptr_zone z, zn_fwd_parent z}"
    using set_push_apex [of H "push_apex H out (zn_ptr_zone z)" "zn_fwd_parent z"]
      set_push_apex [of H out "zn_ptr_zone z"] by blast
  with Cons [of ?out] show ?case by auto
qed simp

lemma apexes_subset: "set (apexes H c) \<subseteq> zn_ptr_zone ` set (cf_zones c) \<union> zn_fwd_parent ` set (cf_zones c)"
  using foldl_push_apex_subset [of H "[]" "cf_zones c"] by (simp add: apexes_def)

end
