(* ===== verification/Zone.thy ===== *)
theory Zone
  imports Config
begin

text \<open>
  \<open>src/src/zone/lookup.rs\<close>, \<open>src/src/zone/synth.rs\<close> and \<open>src/src/zone/mod.rs\<close>: matching a
  query name against the configured zones, building the records, and resolving a query.
  The lemmas show that forward matching inverts the rendering of a zone's names, that the
  reverse lookup is a longest-prefix match, and what each outcome of \<open>resolve\<close> means.
\<close>

section \<open>lookup.rs\<close>

definition strip_prefix_ci :: "bytes \<Rightarrow> bytes \<Rightarrow> bytes option" where
  "strip_prefix_ci label p =
    (case split_at_checked label (length p) of
       None \<Rightarrow> None
     | Some (head, tail) \<Rightarrow> if eq_ignore_ascii_case head p then Some tail else None)"

definition strip_suffix_ci :: "bytes \<Rightarrow> bytes \<Rightarrow> bytes option" where
  "strip_suffix_ci label s =
    (case checked_sub (length label) (length s) of
       None \<Rightarrow> None
     | Some split \<Rightarrow>
         (case split_at_checked label split of
            None \<Rightarrow> None
          | Some (head, tail) \<Rightarrow> if eq_ignore_ascii_case tail s then Some head else None))"

definition zone_for_addr :: "'n config \<Rightarrow> u128 \<Rightarrow> 'n zone option" where
  "zone_for_addr c addr =
    find (\<lambda>z. addr AND mask_bits (zn_mask z) = zn_prefix z) (cf_zones c)"

definition match_ptr :: "'n dns_lib \<Rightarrow> 'n config \<Rightarrow> 'n \<Rightarrow> ('n zone \<times> u128) option" where
  "match_ptr H c qname =
    (case ptr_name_to_addr H qname of
       None \<Rightarrow> None
     | Some addr \<Rightarrow> map_option (\<lambda>z. (z, addr)) (zone_for_addr c addr))"

definition match_digits_label :: "u8 \<Rightarrow> bytes \<Rightarrow> bytes \<Rightarrow> bytes \<Rightarrow> bool \<Rightarrow> u128 option" where
  "match_digits_label host_nibbles label p s d =
    (case strip_prefix_ci label p of
       None \<Rightarrow> None
     | Some rest \<Rightarrow>
         (case strip_suffix_ci rest s of
            None \<Rightarrow> None
          | Some middle \<Rightarrow>
              if d then undash_to_host middle host_nibbles
              else digits_to_host middle host_nibbles))"

fun match_labels :: "u8 \<Rightarrow> (bytes \<times> fwd_label) list \<Rightarrow> u128 option \<Rightarrow> u128 option option" where
  "match_labels h [] host = Some host"
| "match_labels h ((label, Literal v l) # rest) host =
    (if \<not> eq_ignore_ascii_case label l then None else match_labels h rest host)"
| "match_labels h ((label, Digits a al b bl d) # rest) host =
    (case match_digits_label h label al bl d of
       None \<Rightarrow> None
     | Some r \<Rightarrow> match_labels h rest (Some r))"

definition match_zone_forward :: "'n dns_lib \<Rightarrow> 'n zone \<Rightarrow> 'n \<Rightarrow> u128 option" where
  "match_zone_forward H z qname =
    (if unat (num_labels H qname) \<noteq> label_count (zn_fwd z) then None
     else
       (case match_labels (zn_host_nibbles z) (zip (iter H qname) (ft_labels (zn_fwd z))) None of
          None \<Rightarrow> None
        | Some host \<Rightarrow> map_option (\<lambda>h. zn_prefix z OR h) host))"

definition match_forward :: "'n dns_lib \<Rightarrow> 'n config \<Rightarrow> 'n \<Rightarrow> ('n zone \<times> u128) option" where
  "match_forward H c qname =
    find_map (\<lambda>z. map_option (\<lambda>addr. (z, addr)) (match_zone_forward H z qname)) (cf_zones c)"

definition zone_containing :: "'n dns_lib \<Rightarrow> 'n config \<Rightarrow> 'n \<Rightarrow> 'n zone option" where
  "zone_containing H c qname =
    find (\<lambda>z. zone_of H (zn_ptr_zone z) qname \<or> zone_of H (zn_fwd_parent z) qname) (cf_zones c)"

section \<open>synth.rs\<close>

definition forward_name :: "'n dns_lib \<Rightarrow> 'n zone \<Rightarrow> u128 \<Rightarrow> 'n option" where
  "forward_name H z addr =
    (case host_digits addr (zn_host_nibbles z) of
       None \<Rightarrow> None
     | Some digits \<Rightarrow> (case render H (zn_fwd z) digits of Inl _ \<Rightarrow> None | Inr n \<Rightarrow> Some n))"

definition ptr_record :: "'n dns_lib \<Rightarrow> 'n zone \<Rightarrow> 'n \<Rightarrow> u128 \<Rightarrow> 'n rr option" where
  "ptr_record H z qname addr =
    (case forward_name H z addr of
       None \<Rightarrow> None
     | Some target \<Rightarrow> Some (from_rdata H qname (zn_ttl z) (RD_PTR target)))"

definition aaaa_record :: "'n dns_lib \<Rightarrow> 'n zone \<Rightarrow> 'n \<Rightarrow> u128 \<Rightarrow> 'n rr" where
  "aaaa_record H z qname addr = from_rdata H qname (zn_ttl z) (RD_AAAA addr)"

definition forward_has_type :: "record_type \<Rightarrow> bool" where
  "forward_has_type qtype = (case qtype of RT_AAAA \<Rightarrow> True | RT_ANY \<Rightarrow> True | _ \<Rightarrow> False)"

definition reverse_has_type :: "record_type \<Rightarrow> bool" where
  "reverse_has_type qtype = (case qtype of RT_PTR \<Rightarrow> True | RT_ANY \<Rightarrow> True | _ \<Rightarrow> False)"

section \<open>mod.rs\<close>

datatype 'n outcome = Answer "'n zone" "'n rr list" | NoName "'n zone" | NoZone

definition resolve :: "'n dns_lib \<Rightarrow> 'n config \<Rightarrow> 'n \<Rightarrow> record_type \<Rightarrow> 'n outcome" where
  "resolve H c qname qtype =
    (case (if reverse_has_type qtype then match_ptr H c qname else None) of
       Some (z, addr) \<Rightarrow>
         Answer z (case ptr_record H z qname addr of None \<Rightarrow> [] | Some r \<Rightarrow> [r])
     | None \<Rightarrow>
         (case match_forward H c qname of
            Some (z, addr) \<Rightarrow>
              Answer z (if forward_has_type qtype then [aaaa_record H z qname addr] else [])
          | None \<Rightarrow>
              (case zone_containing H c qname of Some z \<Rightarrow> NoName z | None \<Rightarrow> NoZone)))"

section \<open>One label\<close>

lemma strip_prefix_ci_Some_iff:
  "strip_prefix_ci s p = Some t \<longleftrightarrow> (\<exists>u. s = u @ t \<and> to_ascii_lowercase u = to_ascii_lowercase p)"
proof -
  have "strip_prefix_ci s p = Some t \<longleftrightarrow>
      (\<exists>u. s = u @ t \<and> length u = length p \<and> to_ascii_lowercase u = to_ascii_lowercase p)"
    unfolding strip_prefix_ci_def by (simp add: case_split_at_checked_Some eq_ignore_ascii_case_def) blast
  then show ?thesis using lowercase_eq_length by blast
qed

lemma strip_suffix_ci_Some_iff:
  "strip_suffix_ci s p = Some t \<longleftrightarrow> (\<exists>u. s = t @ u \<and> to_ascii_lowercase u = to_ascii_lowercase p)"
proof (cases "length p \<le> length s")
  case True
  then have "strip_suffix_ci s p = Some t \<longleftrightarrow> (\<exists>u. s = t @ u \<and> length t = length s - length p \<and>
      to_ascii_lowercase u = to_ascii_lowercase p)"
    unfolding strip_suffix_ci_def
    by (simp add: checked_sub_def case_split_at_checked_Some eq_ignore_ascii_case_def) blast
  moreover have "length t = length s - length p"
    if "s = t @ u" "to_ascii_lowercase u = to_ascii_lowercase p" for u
    using that(1) lowercase_eq_length [OF that(2)] by simp
  ultimately show ?thesis by blast
next
  case False
  then have "to_ascii_lowercase u \<noteq> to_ascii_lowercase p" if "s = t @ u" for u
    using that lowercase_eq_length [of u p] by auto
  with False show ?thesis by (auto simp: strip_suffix_ci_def checked_sub_def)
qed

lemma lowercase_eq_append:
  "to_ascii_lowercase s = a @ b \<longleftrightarrow>
   (\<exists>u v. s = u @ v \<and> to_ascii_lowercase u = a \<and> to_ascii_lowercase v = b)"
  unfolding to_ascii_lowercase_def map_eq_append_conv by blast

lemma lowercase_eq_append3:
  "to_ascii_lowercase s = a @ b @ c \<longleftrightarrow> (\<exists>u v w. s = u @ v @ w \<and> to_ascii_lowercase u = a \<and>
     to_ascii_lowercase v = b \<and> to_ascii_lowercase w = c)"
  unfolding lowercase_eq_append by blast

context host_codec
begin

lemma strip_dec_iff:
  assumes "ok h"
  shows "(\<exists>rest middle. strip_prefix_ci q (to_ascii_lowercase a) = Some rest \<and>
      strip_suffix_ci rest (to_ascii_lowercase b) = Some middle \<and> dec middle h = Some r) \<longleftrightarrow>
    to_ascii_lowercase q = to_ascii_lowercase a @ enc (hex_digits (unat h) (unat r)) @ to_ascii_lowercase b \<and>
    unat r < 16 ^ unat h"
  unfolding lowercase_eq_append3 strip_prefix_ci_Some_iff strip_suffix_ci_Some_iff
  using dec_iff [OF assms] by fastforce

end

text \<open>The widths a digits label may have: positive, at most 32, in fours when dashed.\<close>

definition ok_width :: "u8 \<Rightarrow> bool \<Rightarrow> bool" where
  "ok_width h d \<longleftrightarrow> 0 < h \<and> h \<le> ADDR_NIBBLES \<and> (d \<longrightarrow> h mod 4 = 0)"

lemma ok_width_dashed: "ok_width h True \<Longrightarrow> 4 \<le> h \<and> h \<le> ADDR_NIBBLES \<and> h mod 4 = 0"
proof -
  assume ok: "ok_width h True"
  then have "unat h mod 4 = 0" "0 < unat h"
    by (simp_all only: ok_width_def u8_mod_4_iff simp_thms) (simp add: word_less_nat_alt)
  then have "4 \<le> unat h" by (auto elim!: dvdE)
  with ok show ?thesis unfolding ok_width_def by (auto simp: word_le_nat_alt)
qed

lemma match_digits_label_iff:
  assumes "ok_width h d"
  shows "match_digits_label h q (to_ascii_lowercase a) (to_ascii_lowercase b) d = Some r \<longleftrightarrow>
    to_ascii_lowercase q =
      to_ascii_lowercase (render_label (hex_digits (unat h) (unat r)) (Digits a al b bl d)) \<and>
    unat r < 16 ^ unat h"
proof (cases d)
  case True
  with assms have ok: "4 \<le> h \<and> h \<le> ADDR_NIBBLES \<and> h mod 4 = 0" by (simp only: ok_width_dashed)
  show ?thesis using dashed.strip_dec_iff [OF ok, of q a b r] True
    by (auto simp: match_digits_label_def dashed.enc_lower split: option.splits)
next
  case False
  from assms have ok: "h \<le> ADDR_NIBBLES" by (simp add: ok_width_def)
  show ?thesis using plain.strip_dec_iff [OF ok, of q a b r] False
    by (auto simp: match_digits_label_def split: option.splits)
qed

section \<open>A whole template\<close>

lemma match_labels_literals:
  assumes "length qs = length L" and "\<forall>l \<in> set L. \<exists>v. l = Literal v (to_ascii_lowercase v)"
  shows "match_labels h (zip qs L @ rest) host =
    (if map to_ascii_lowercase qs = map (\<lambda>l. to_ascii_lowercase (verbatim l)) L
     then match_labels h rest host else None)"
  using assms by (induction qs L rule: list_induct2) (auto simp: eq_ignore_ascii_case_def)

lemma match_labels_template:
  assumes "wf_template h t" and h: "0 < h" "h \<le> ADDR_NIBBLES"
    and len: "length (ft_labels t) \<le> length qs"
  shows "match_labels h (zip qs (ft_labels t)) None = Some host \<longleftrightarrow>
    (\<exists>r. host = Some r \<and> unat r < 16 ^ unat h \<and>
      map to_ascii_lowercase (take (length (ft_labels t)) qs) =
      map (\<lambda>l. to_ascii_lowercase (render_label (hex_digits (unat h) (unat r)) l)) (ft_labels t))"
proof -
  from assms(1) obtain ls a b d rs where
    L: "ft_labels t = ls @ Digits a (to_ascii_lowercase a) b (to_ascii_lowercase b) d # rs"
    and lit: "\<forall>l \<in> set ls \<union> set rs. \<exists>v. l = Literal v (to_ascii_lowercase v)"
    and d: "d \<longrightarrow> h mod 4 = 0" by (rule wf_templateE)
  have ok: "ok_width h d" using h d unfolding ok_width_def by blast
  let ?D = "Digits a (to_ascii_lowercase a) b (to_ascii_lowercase b) d"
  have "length (take (length (ft_labels t)) qs) = length ls + Suc (length rs)" using len L by simp
  from split_list_at [OF this] obtain us q ws where
    qs: "take (length (ft_labels t)) qs = us @ q # ws" "length us = length ls" "length ws = length rs"
    by blast
  have "zip qs (ft_labels t) = zip (take (length (ft_labels t)) qs) (ft_labels t)"
    using take_zip [of "length (ft_labels t)" qs "ft_labels t"] by simp
  then have "zip qs (ft_labels t) = zip us ls @ (q, ?D) # zip ws rs @ []"
    unfolding qs(1) using qs(2) L by simp
  then have eq: "match_labels h (zip qs (ft_labels t)) None = Some host \<longleftrightarrow>
      map to_ascii_lowercase us = map (\<lambda>l. to_ascii_lowercase (verbatim l)) ls \<and>
      (\<exists>r. match_digits_label h q (to_ascii_lowercase a) (to_ascii_lowercase b) d = Some r \<and>
        map to_ascii_lowercase ws = map (\<lambda>l. to_ascii_lowercase (verbatim l)) rs \<and> host = Some r)"
    using qs(2,3) lit
    by (simp add: match_labels_literals del: append_Nil2 split: option.splits) auto
  have lits: "map (\<lambda>l. to_ascii_lowercase (render_label ds l)) ks = map (\<lambda>l. to_ascii_lowercase (verbatim l)) ks"
    if "set ks \<subseteq> set ls \<union> set rs" for ds ks
  proof (intro map_cong refl)
    fix l assume "l \<in> set ks"
    with that lit obtain v where "l = Literal v (to_ascii_lowercase v)" by blast
    then show "to_ascii_lowercase (render_label ds l) = to_ascii_lowercase (verbatim l)" by simp
  qed
  show ?thesis
    unfolding eq match_digits_label_iff [OF ok, where al = "to_ascii_lowercase a" and bl = "to_ascii_lowercase b"] qs(1)
    unfolding L using qs(2,3) by (auto simp: lits)
qed

section \<open>Addresses of a zone\<close>

lemma wf_zone_width:
  assumes "wf_zone H z"
  shows "0 < zn_host_nibbles z" and "zn_host_nibbles z \<le> ADDR_NIBBLES"
    and "128 - zn_host_nibbles z * 4 = zn_mask z"
    and "unat (zn_mask z) = 128 - 4 * unat (zn_host_nibbles z)"
proof -
  let ?m = "zn_mask z" and ?h = "zn_host_nibbles z"
  note wf = wf_zoneD [OF assms]
  note h = wf(5)
  from wf(1-3) have m: "0 < unat ?m" "unat ?m < 128" "unat ?m mod 4 = 0"
    by (simp_all only: u8_mod_4_iff) (simp_all add: word_less_nat_alt)
  have "unat (128 - ?m) = 128 - unat ?m" using m by (simp add: unat_sub word_le_nat_alt)
  with h have uh: "unat ?h = (128 - unat ?m) div 4" by (simp add: unat_div)
  with m have bounds: "0 < unat ?h" "unat ?h < 32" and eq: "4 * unat ?h = 128 - unat ?m"
    by (auto elim!: dvdE)
  show "0 < ?h" "?h \<le> ADDR_NIBBLES"
    using bounds by (simp_all add: word_less_nat_alt word_le_nat_alt ADDR_NIBBLES_def)
  show um: "unat ?m = 128 - 4 * unat ?h" using eq m by simp
  have "unat (?h * 4) = 4 * unat ?h" using bounds by (simp add: unat_word_ariths)
  then have "unat (128 - ?h * 4) = unat ?m" using um bounds by (simp add: unat_sub word_le_nat_alt)
  then show "128 - ?h * 4 = ?m" by (rule unsigned_word_eqI)
qed

lemma small_bits:
  assumes "unat (r :: u128) < 16 ^ k" and "bit r j"
  shows "j < 4 * k"
proof -
  have "unat r < 2 ^ (4 * k)" using assms(1) by (simp add: power_mult)
  then have "take_bit (4 * k) (unat r) = unat r" by (simp add: take_bit_nat_eq_self)
  moreover have "bit (unat r) j" using assms(2) by (auto simp: bit_unsigned_iff dest: bit_imp_le_length)
  ultimately show ?thesis by (metis bit_take_bit_iff)
qed

lemma network_host_split:
  assumes wf: "wf_zone H z"
  shows "in_network z a \<longleftrightarrow> (\<exists>r. unat r < 16 ^ unat (zn_host_nibbles z) \<and> a = zn_prefix z OR r)"
    and "unat r < 16 ^ unat (zn_host_nibbles z) \<Longrightarrow>
      (zn_prefix z OR r) AND NOT (mask_bits (zn_mask z)) = r"
proof -
  let ?h = "unat (zn_host_nibbles z)" and ?M = "mask_bits (zn_mask z)"
  note w = wf_zone_width [OF wf]
  have w32: "?h \<le> 32" using w(2) by (simp add: word_le_nat_alt ADDR_NIBBLES_def)
  note p = wf_zoneD(4) [OF wf]
  have host: "unat (x AND NOT ?M) = unat x mod 16 ^ ?h" for x
    using host_part_mod [OF w(2), of x] by (simp only: w(3))
  have low: "r AND NOT ?M = r" "r AND ?M = 0" if "unat r < 16 ^ ?h" for r
    using small_bits [OF that] w(4) w32 by (auto simp: u128_eq_iff_bits bit_and_iff bit_not_iff bit_mask_bits)
      (fastforce dest: small_bits [OF that])+
  have "zn_prefix z AND NOT ?M = 0"
    using arg_cong [OF p, of "\<lambda>x. x AND NOT ?M"] by (simp add: and.assoc)
  then show "unat r < 16 ^ ?h \<Longrightarrow> (zn_prefix z OR r) AND NOT ?M = r"
    by (simp add: bit.conj_disj_distrib2 low)
  show "in_network z a \<longleftrightarrow> (\<exists>r. unat r < 16 ^ ?h \<and> a = zn_prefix z OR r)"
  proof
    assume "in_network z a"
    then have "a = zn_prefix z OR (a AND NOT ?M)"
      by (auto simp: in_network_def u128_eq_iff_bits bit_and_iff bit_or_iff bit_not_iff)
    moreover have "unat (a AND NOT ?M) < 16 ^ ?h" by (simp add: host)
    ultimately show "\<exists>r. unat r < 16 ^ ?h \<and> a = zn_prefix z OR r" by blast
  next
    assume "\<exists>r. unat r < 16 ^ ?h \<and> a = zn_prefix z OR r"
    then show "in_network z a" by (auto simp: in_network_def bit.conj_disj_distrib2 p low)
  qed
qed

lemma network_hex_digits:
  assumes "wf_zone H z" and "unat r < 16 ^ unat (zn_host_nibbles z)"
  shows "hex_digits (unat (zn_host_nibbles z)) (unat (zn_prefix z OR r)) =
    hex_digits (unat (zn_host_nibbles z)) (unat r)"
proof -
  have "unat (zn_prefix z OR r) mod 16 ^ unat (zn_host_nibbles z) = unat r"
    using host_part_mod [OF wf_zone_width(2) [OF assms(1)], of "zn_prefix z OR r"]
      network_host_split(2) [OF assms] by (simp only: wf_zone_width(3) [OF assms(1)])
  then show ?thesis by (metis hex_digits_mod)
qed

section \<open>Forward names\<close>

text \<open>The labels of the forward name of an address, before they become a name.\<close>

definition forward_labels :: "'n zone \<Rightarrow> u128 \<Rightarrow> bytes list" where
  "forward_labels z a =
    map (render_label (hex_digits (unat (zn_host_nibbles z)) (unat a))) (ft_labels (zn_fwd z))"

lemma length_forward_labels [simp]: "length (forward_labels z a) = label_count (zn_fwd z)"
  by (simp add: forward_labels_def label_count_def)

definition wildcard_template :: "fwd_template \<Rightarrow> bool" where
  "wildcard_template t \<longleftrightarrow> (case ft_labels t of Literal v l # _ \<Rightarrow> v = ''*'' | _ \<Rightarrow> False)"

lemma lower_star: "to_ascii_lower c = CHR ''*'' \<longleftrightarrow> c = CHR ''*''"
  by (cases c) auto

lemma hex_digits_nth_lower: "c \<in> set (hex_digits w n) \<Longrightarrow> \<exists>v < 16. c = HEX_LOWER ! v"
  unfolding hex_digits_def HEX_LOWER_def by clarsimp (metis mod_less_divisor zero_less_numeral)

lemma rendered_not_star:
  assumes "0 < h" and "to_ascii_lowercase (a @ (if d then dash_group (hex_digits h n) else hex_digits h n) @ b) = ''*''"
  shows False
proof -
  let ?ds = "hex_digits h n"
  obtain c cs where c: "?ds = c # cs" using assms(1) by (cases ?ds) (auto dest: arg_cong [of _ _ length])
  have "chunks 4 ?ds = (c # take 3 cs) # chunks 4 (drop 3 cs)" unfolding c by (subst chunks.simps) simp
  then have "\<exists>r. join_dash (chunks 4 ?ds) = c # r" by (simp add: join_dash_Cons)
  moreover have "dash_group ?ds = join_dash (chunks 4 ?ds)"
    using hex_digits_ascii [of h n] by (intro dash_group_eq) (simp add: list_all_iff)
  ultimately obtain r where r: "(if d then dash_group ?ds else ?ds) = c # r" using c by (cases d) auto
  have "a = [] \<and> b = [] \<and> r = [] \<and> to_ascii_lowercase [c] = ''*''"
    using assms(2) unfolding r by (cases a) (auto simp: to_ascii_lowercase_def)
  moreover obtain v where "v < 16" "c = HEX_LOWER ! v" using hex_digits_nth_lower [of c h n] c by auto
  ultimately show False using hex_label_not_star [of "''*''" v] by simp
qed

lemma forward_labels_not_star:
  assumes "wf_zone H z" and "\<not> wildcard_template (zn_fwd z)" and "forward_labels z a = l # ls"
    and "to_ascii_lowercase q = to_ascii_lowercase l"
  shows "q \<noteq> ''*''"
proof
  assume "q = ''*''"
  with assms(4) have l: "to_ascii_lowercase l = ''*''" by simp
  obtain t ts where t: "ft_labels (zn_fwd z) = t # ts"
    "l = render_label (hex_digits (unat (zn_host_nibbles z)) (unat a)) t"
    using assms(3) by (auto simp: forward_labels_def Cons_eq_map_conv)
  show False
  proof (cases t)
    case (Literal v w)
    with l t(2) obtain c where c: "v = [c]" "to_ascii_lower c = CHR ''*''"
      by (auto simp: to_ascii_lowercase_def Cons_eq_map_conv)
    then have "c = CHR ''*''" by (simp add: lower_star)
    with c assms(2) t Literal show False by (simp add: wildcard_template_def)
  next
    case (Digits p pl s sl d)
    have "0 < unat (zn_host_nibbles z)" using wf_zone_width(1) [OF assms(1)] by (simp add: word_less_nat_alt)
    from rendered_not_star [OF this, of p d "unat a" s] show False using l t(2) Digits by simp
  qed
qed

context dns_laws
begin

lemma match_zone_forward_iff:
  assumes wf: "wf_zone H z"
  shows "match_zone_forward H z q = Some a \<longleftrightarrow>
    in_network z a \<and> counted_labels (iter H q) = label_count (zn_fwd z) \<and>
    map to_ascii_lowercase (take (label_count (zn_fwd z)) (iter H q)) =
    map to_ascii_lowercase (forward_labels z a)"
proof (cases "counted_labels (iter H q) = label_count (zn_fwd z)")
  case True
  let ?h = "unat (zn_host_nibbles z)"
  have len: "length (ft_labels (zn_fwd z)) \<le> length (iter H q)"
    using counted_labels_le [of "iter H q"] True by (simp add: label_count_def)
  note wft = wf_zoneD(7) [OF wf]
  have "match_zone_forward H z q = Some a \<longleftrightarrow>
      (\<exists>r. match_labels (zn_host_nibbles z) (zip (iter H q) (ft_labels (zn_fwd z))) None = Some (Some r) \<and>
        a = zn_prefix z OR r)"
    using True by (auto simp: match_zone_forward_def num_labels_counted split: option.splits)
  also have "\<dots> \<longleftrightarrow> (\<exists>r. unat r < 16 ^ ?h \<and> a = zn_prefix z OR r \<and>
      map to_ascii_lowercase (take (label_count (zn_fwd z)) (iter H q)) =
      map to_ascii_lowercase (forward_labels z a))"
    unfolding match_labels_template [OF wft wf_zone_width(1,2) [OF wf] len]
    by (auto simp: forward_labels_def label_count_def network_hex_digits [OF wf] comp_def)
  also have "\<dots> \<longleftrightarrow> in_network z a \<and>
      map to_ascii_lowercase (take (label_count (zn_fwd z)) (iter H q)) =
      map to_ascii_lowercase (forward_labels z a)"
    unfolding network_host_split(1) [OF wf] by blast
  finally show ?thesis using True by simp
qed (simp add: match_zone_forward_def num_labels_counted)

text \<open>Without a leading wildcard the match is equality of the case-folded names.\<close>

lemma match_zone_forward_exact:
  assumes wf: "wf_zone H z" and nw: "\<not> wildcard_template (zn_fwd z)"
  shows "match_zone_forward H z q = Some a \<longleftrightarrow>
    in_network z a \<and> folded H q = map to_ascii_lowercase (forward_labels z a)"
proof -
  let ?n = "label_count (zn_fwd z)"
  have "0 < ?n" using wf by (auto simp: wf_zone_def wf_template_def label_count_def)
  then obtain l ls where l: "forward_labels z a = l # ls"
    using length_forward_labels [of z a] by (cases "forward_labels z a") auto
  have "counted_labels (iter H q) = ?n \<longleftrightarrow> length (iter H q) = ?n"
    if eq: "map to_ascii_lowercase (take ?n (iter H q)) = map to_ascii_lowercase (forward_labels z a)"
  proof (cases "iter H q")
    case (Cons k ks)
    with eq l \<open>0 < ?n\<close> have "to_ascii_lowercase k = to_ascii_lowercase l"
      by (cases ?n) auto
    from forward_labels_not_star [OF wf nw l this] show ?thesis
      by (simp add: counted_labels_def Cons)
  qed (use eq l in simp)
  moreover have "map to_ascii_lowercase (take ?n (iter H q)) = map to_ascii_lowercase (forward_labels z a) \<and>
      length (iter H q) = ?n \<longleftrightarrow> folded H q = map to_ascii_lowercase (forward_labels z a)"
    unfolding folded_def by (metis length_forward_labels length_map take_all order.refl)
  ultimately show ?thesis unfolding match_zone_forward_iff [OF wf] by blast
qed

lemma forward_name_Some:
  assumes wf: "wf_zone H z"
  obtains n where "forward_name H z a = Some n" "is_fqdn H n" "iter H n = forward_labels z a"
proof -
  let ?h = "zn_host_nibbles z"
  note w = wf_zone_width [OF wf]
  have hd: "host_digits a ?h = Some (hex_digits (unat ?h) (unat a))" using w(2) by (simp add: host_digits_eq)
  note wf_zoneD(8) [OF wf]
  moreover have "length (widest ?h) = unat ?h" using w(2) by (simp add: widest_def min_def)
  ultimately obtain n where "render H (zn_fwd z) (hex_digits (unat ?h) (unat a)) = Inr n" "is_fqdn H n"
    "iter H n = map (render_label (hex_digits (unat ?h) (unat a))) (ft_labels (zn_fwd z))"
    using render_total [of "zn_fwd z" "widest ?h" "hex_digits (unat ?h) (unat a)"]
    by (auto simp: hex_digits_ascii widest_def ascii_replicate_f)
  with hd show thesis by (intro that [of n]) (auto simp: forward_name_def forward_labels_def)
qed

lemma label_count_less: "wf_zone H z \<Longrightarrow> label_count (zn_fwd z) < 2 ^ 64 - 1"
proof -
  assume "wf_zone H z"
  then obtain n where "iter H n = forward_labels z 0" by (rule forward_name_Some)
  then have "label_count (zn_fwd z) \<le> Suc (counted_labels (iter H n))"
    unfolding length_forward_labels [symmetric, of z 0] by (metis length_le_counted)
  also have "counted_labels (iter H n) < 256"
    using unsigned_less [where ?'a = nat, of "num_labels H n"] by (simp add: num_labels_counted)
  finally show ?thesis by simp
qed

text \<open>The labels after the digits are the same in every forward name: they name the apex.\<close>

lemma forward_labels_parent:
  assumes wf: "wf_zone H z"
  shows "suffix (iter H (zn_fwd_parent z)) (forward_labels z a)"
proof -
  let ?k = "ft_digits_at (zn_fwd z)" and ?ds = "hex_digits (unat (zn_host_nibbles z)) (unat a)"
  obtain ls x y d rs where L: "ft_labels (zn_fwd z) = ls @ Digits x (to_ascii_lowercase x) y (to_ascii_lowercase y) d # rs"
    and k: "?k = length ls" and lit: "\<forall>l \<in> set ls \<union> set rs. \<exists>v. l = Literal v (to_ascii_lowercase v)"
    using wf_zoneD(7) [OF wf] by (rule wf_templateE)
  have "saturating_add ?k 1 = Suc ?k"
    using label_count_less [OF wf] by (simp add: saturating_add_def usize_max_def label_count_def L k)
  then obtain m where "from_labels H (map parent_label rs) = Inr m" "zn_fwd_parent z = set_fqdn H m True"
    using wf_zoneD(9) [OF wf] by (auto simp: parent_def L k split: sum.splits)
  moreover have "map parent_label rs = map (render_label ?ds) rs"
    using lit by (intro map_cong refl parent_label_literal) blast
  ultimately have "iter H (zn_fwd_parent z) = map (render_label ?ds) rs"
    by (simp add: iter_set_fqdn from_labels_iter)
  then show ?thesis by (simp add: forward_labels_def L suffix_def)
qed

lemma match_zone_forward_in_zone:
  assumes wf: "wf_zone H z" and nw: "\<not> wildcard_template (zn_fwd z)"
    and "match_zone_forward H z q = Some a"
  shows "zone_of H (zn_fwd_parent z) q"
proof -
  from forward_labels_parent [OF wf, of a]
  have "suffix (folded H (zn_fwd_parent z)) (map to_ascii_lowercase (forward_labels z a))"
    unfolding folded_def by (rule map_mono_suffix)
  with assms show ?thesis by (simp add: zone_of_suffix match_zone_forward_exact)
qed

end

section \<open>Configurations\<close>

text \<open>
  What \<open>compile\<close> promises of a configuration: its zones are well formed and sorted by prefix
  length, longest first.
\<close>

definition wf_config :: "'n dns_lib \<Rightarrow> 'n config \<Rightarrow> bool" where
  "wf_config H c \<longleftrightarrow> list_all (wf_zone H) (cf_zones c) \<and>
    sorted_wrt (\<lambda>z z'. zn_mask z' \<le> zn_mask z) (cf_zones c)"

lemma find_sorted:
  assumes "sorted_wrt (\<lambda>z z'. f z' \<le> f z) zs" and "find P zs = Some z"
  shows "z \<in> set zs \<and> P z \<and> (\<forall>z' \<in> set zs. P z' \<longrightarrow> f z' \<le> (f z :: 'a :: order))"
  using assms by (induction zs) (auto split: if_splits)

lemma wf_config_zone: "wf_config H c \<Longrightarrow> z \<in> set (cf_zones c) \<Longrightarrow> wf_zone H z"
  by (simp add: wf_config_def list_all_iff)

lemma zone_for_addr_SomeD: "zone_for_addr c a = Some z \<Longrightarrow> z \<in> set (cf_zones c) \<and> in_network z a"
  by (auto simp: zone_for_addr_def in_network_def find_Some_iff)

lemma match_forward_SomeD:
  "match_forward H c q = Some (z, a) \<Longrightarrow> z \<in> set (cf_zones c) \<and> match_zone_forward H z q = Some a"
  unfolding match_forward_def by (drule find_map_SomeD) auto

lemma match_forward_None: "match_forward H c q = None \<longleftrightarrow> (\<forall>z \<in> set (cf_zones c). match_zone_forward H z q = None)"
  by (auto simp: match_forward_def find_map_None_iff)

definition example_zone :: "rfc_name zone" where
  "example_zone = \<lparr>zn_src_line = 3, zn_prefix = 0x20010db8000000000000000000000000, zn_mask = 96,
     zn_host_nibbles = 8, zn_ptr_zone = (map (\<lambda>c. [c]) ''00000000000000008bd01002'' @ [''ip6'', ''arpa''], True),
     zn_resolves_to = ''Host-%DIGITS%.example.net'',
     zn_fwd = \<lparr>ft_labels = [Digits ''Host-'' ''host-'' [] [] False, Literal ''example'' ''example'',
        Literal ''net'' ''net''], ft_digits_at = 0\<rparr>,
     zn_fwd_parent = ([''example'', ''net''], True), zn_ttl = 300, zn_upstream = None\<rparr>"

definition example_config :: "rfc_name config" where
  "example_config = config_default\<lparr>cf_zones := [example_zone]\<rparr>"


definition example_wildcard :: "rfc_name zone" where
  "example_wildcard = example_zone\<lparr>
     zn_resolves_to := ''*.Host-%DIGITS%.net'',
     zn_fwd := \<lparr>ft_labels = [Literal ''*'' ''*'', Digits ''Host-'' ''host-'' [] [] False,
        Literal ''net'' ''net''], ft_digits_at = 1\<rparr>,
     zn_fwd_parent := ([''net''], True)\<rparr>"

lemma wf_example_zone: "wf_zone rfc_lib example_zone"
proof -
  have "ptr_zone_loop (u8_range (ADDR_NIBBLES - 24) ADDR_NIBBLES) 0x20010db8000000000000000000000000 [] =
      Some (map (\<lambda>c. [c]) ''00000000000000008bd01002'')"
    by code_simp
  then have "netmask_to_ptr_name rfc_lib (zn_prefix example_zone) (zn_mask example_zone) =
      Some (zn_ptr_zone example_zone)"
    by (simp add: example_zone_def netmask_to_ptr_name_def rfc_eval)
  moreover have "wf_template (zn_host_nibbles example_zone) (zn_fwd example_zone)" by code_simp
  moreover have "parent rfc_lib (zn_fwd example_zone) = Inr (zn_fwd_parent example_zone)"
    by (simp add: example_zone_def parent_def saturating_add_def usize_max_def rfc_eval)
  moreover have "\<not> isl (render rfc_lib (zn_fwd example_zone) (widest (zn_host_nibbles example_zone)))"
    by (simp add: example_zone_def render_def widest_def ADDR_NIBBLES_def rfc_eval)
  moreover have "zn_prefix example_zone AND mask_bits (zn_mask example_zone) = zn_prefix example_zone"
    by code_simp
  ultimately show ?thesis unfolding wf_zone_def by (simp add: example_zone_def)
qed

lemma wf_example_wildcard: "wf_zone rfc_lib example_wildcard"
proof -
  have "wf_template (zn_host_nibbles example_wildcard) (zn_fwd example_wildcard)" by code_simp
  moreover have "parent rfc_lib (zn_fwd example_wildcard) = Inr (zn_fwd_parent example_wildcard)"
    by (simp add: example_wildcard_def parent_def saturating_add_def usize_max_def rfc_eval)
  moreover have "\<not> isl (render rfc_lib (zn_fwd example_wildcard) (widest (zn_host_nibbles example_wildcard)))"
    by (simp add: example_wildcard_def example_zone_def render_def widest_def ADDR_NIBBLES_def rfc_eval)
  ultimately show ?thesis
    using wf_zoneD(1-6) [OF wf_example_zone] unfolding wf_zone_def
    by (simp add: example_wildcard_def)
qed

lemma wf_example_config: "wf_config rfc_lib example_config"
  by (simp add: wf_config_def example_config_def config_default_def wf_example_zone)

lemma example_not_wildcard: "\<not> wildcard_template (zn_fwd example_zone)"
  by code_simp

lemma example_match:
  "match_zone_forward rfc_lib example_zone ([''Host-0000002a'', ''example'', ''net''], True) =
     Some 0x20010db800000000000000000000002a"
proof -
  have "match_labels 8 (zip [''Host-0000002a'', ''example'', ''net'']
      [Digits ''Host-'' ''host-'' [] [] False, Literal ''example'' ''example'', Literal ''net'' ''net'']) None =
      Some (Some 0x2a)" by code_simp
  then show ?thesis
    by (simp add: match_zone_forward_def rfc.num_labels_counted example_zone_def label_count_def
        counted_labels_def rfc_eval)
qed

lemma example_ptr_name:
  "ptr_name_to_addr rfc_lib (map (\<lambda>c. [c]) ''a20000000000000000000000'' @
     map (\<lambda>c. [c]) ''8bd01002'' @ [''ip6'', ''arpa''], True) = Some 0x20010db800000000000000000000002a"
proof -
  have "ptr_labels 0x20010db800000000000000000000002a =
    map (\<lambda>c. [c]) ''a20000000000000000000000'' @ map (\<lambda>c. [c]) ''8bd01002'' @ [''ip6'', ''arpa'']"
    by code_simp
  then show ?thesis unfolding rfc.ptr_name_to_addr_iff by (simp add: folded_def rfc_eval)
qed

lemma example_zone_for:
  "zone_for_addr example_config 0x20010db800000000000000000000002a = Some example_zone"
proof -
  have "in_network example_zone 0x20010db800000000000000000000002a" by code_simp
  then show ?thesis by (simp add: zone_for_addr_def in_network_def example_config_def config_default_def)
qed

lemma zone_for_addr_maximal:
  assumes "wf_config H c" and "zone_for_addr c a = Some z" and "z' \<in> set (cf_zones c)" and "in_network z' a"
  shows "zn_mask z' \<le> zn_mask z"
  using assms unfolding zone_for_addr_def wf_config_def in_network_def
  by (metis (mono_tags, lifting) find_sorted [where f = zn_mask])

lemma zone_for_addr_None: "zone_for_addr c a = None \<longleftrightarrow> (\<forall>z \<in> set (cf_zones c). \<not> in_network z a)"
  by (auto simp: zone_for_addr_def in_network_def find_None_iff)

section \<open>Outcomes\<close>

context dns_laws
begin

lemma match_ptr_iff:
  "match_ptr H c q = Some (z, a) \<longleftrightarrow> folded H q = ptr_labels a \<and> zone_for_addr c a = Some z"
  unfolding ptr_name_to_addr_iff [symmetric] match_ptr_def by (auto split: option.splits)

lemma ptr_record_Some:
  assumes "wf_zone H z"
  obtains n where "forward_name H z a = Some n" "is_fqdn H n" "iter H n = forward_labels z a"
    "ptr_record H z q a = Some \<lparr>rr_name = q, rr_class = CL_IN, rr_ttl = zn_ttl z, rr_data = RD_PTR n\<rparr>"
proof -
  obtain n where "forward_name H z a = Some n" "is_fqdn H n" "iter H n = forward_labels z a"
    using assms by (rule forward_name_Some)
  then show thesis by (intro that [of n]) (simp_all add: ptr_record_def from_rdata_fields)
qed

lemma match_ptr_in_zone:
  assumes "wf_config H c" and "match_ptr H c q = Some (z, a)"
  shows "z \<in> set (cf_zones c) \<and> zone_of H (zn_ptr_zone z) q"
proof -
  from assms(2) have "folded H q = ptr_labels a" and z: "z \<in> set (cf_zones c)" "in_network z a"
    by (auto simp: match_ptr_iff dest: zone_for_addr_SomeD)
  moreover note wf = wf_config_zone [OF assms(1) z(1)]
  ultimately show ?thesis
    using zone_of_ptr_iff [OF wf_zoneD(6) [OF wf], of q a] wf_zoneD(4) [OF wf]
    by (simp add: in_network_def)
qed

lemma zone_containing_None:
  "zone_containing H c q = None \<longleftrightarrow>
   (\<forall>z \<in> set (cf_zones c). \<not> zone_of H (zn_ptr_zone z) q \<and> \<not> zone_of H (zn_fwd_parent z) q)"
  by (auto simp: zone_containing_def find_None_iff)

lemma resolve_reverse:
  assumes "wf_config H c" and "reverse_has_type t" and "match_ptr H c q = Some (z, a)"
  obtains n where "forward_name H z a = Some n" "is_fqdn H n" "iter H n = forward_labels z a"
    "resolve H c q t = Answer z [\<lparr>rr_name = q, rr_class = CL_IN, rr_ttl = zn_ttl z, rr_data = RD_PTR n\<rparr>]"
proof -
  from match_ptr_in_zone [OF assms(1,3)] have "wf_zone H z" by (metis assms(1) wf_config_zone)
  then obtain n where "forward_name H z a = Some n" "is_fqdn H n" "iter H n = forward_labels z a"
    "ptr_record H z q a = Some \<lparr>rr_name = q, rr_class = CL_IN, rr_ttl = zn_ttl z, rr_data = RD_PTR n\<rparr>"
    by (rule ptr_record_Some)
  with assms(2,3) show thesis by (intro that [of n]) (simp_all add: resolve_def)
qed

lemma match_forward_only:
  assumes "z \<in> set (cf_zones c)" and "match_zone_forward H z q = Some a"
    and "\<And>z'. z' \<in> set (cf_zones c) \<Longrightarrow> z' \<noteq> z \<Longrightarrow> match_zone_forward H z' q = None"
  shows "match_forward H c q = Some (z, a)"
proof (cases "match_forward H c q")
  case None
  with assms(1,2) show ?thesis by (auto simp: match_forward_None)
next
  case (Some p)
  obtain z' a' where p: "p = (z', a')" by (cases p)
  from match_forward_SomeD [OF Some [unfolded p]] assms show ?thesis
    unfolding Some p by (cases "z' = z") auto
qed

lemma reverse_forward_confirmed:
  assumes "wf_config H c"
    and "ptr_name_to_addr H q = Some a" and "zone_for_addr c a = Some z"
    and "\<not> wildcard_template (zn_fwd z)"
    and only: "\<forall>n. forward_name H z a = Some n \<longrightarrow>
      (\<forall>z' \<in> set (cf_zones c). z' \<noteq> z \<longrightarrow> match_zone_forward H z' n = None)"
  shows "\<exists>n. resolve H c q RT_PTR =
      Answer z [\<lparr>rr_name = q, rr_class = CL_IN, rr_ttl = zn_ttl z, rr_data = RD_PTR n\<rparr>] \<and>
    is_fqdn H n \<and>
    resolve H c n RT_AAAA =
      Answer z [\<lparr>rr_name = n, rr_class = CL_IN, rr_ttl = zn_ttl z, rr_data = RD_AAAA a\<rparr>]"
proof -
  have q: "match_ptr H c q = Some (z, a)" using assms(2,3) by (simp add: match_ptr_def)
  have "reverse_has_type RT_PTR" by (simp add: reverse_has_type_def)
  then obtain n where n: "forward_name H z a = Some n" "is_fqdn H n" and r: "resolve H c q RT_PTR =
      Answer z [\<lparr>rr_name = q, rr_class = CL_IN, rr_ttl = zn_ttl z, rr_data = RD_PTR n\<rparr>]"
    using resolve_reverse [OF assms(1) _ q] by blast
  from assms(3) have z: "z \<in> set (cf_zones c)" "in_network z a" by (auto dest: zone_for_addr_SomeD)
  note wf = wf_config_zone [OF assms(1) z(1)]
  obtain m where m: "forward_name H z a = Some m" "iter H m = forward_labels z a"
    using wf by (rule forward_name_Some)
  with n have "match_zone_forward H z n = Some a"
    by (simp add: match_zone_forward_exact [OF wf assms(4)] z folded_def)
  then have "match_forward H c n = Some (z, a)"
    using only n(1) by (intro match_forward_only [OF z(1)]) auto
  then have "resolve H c n RT_AAAA =
      Answer z [\<lparr>rr_name = n, rr_class = CL_IN, rr_ttl = zn_ttl z, rr_data = RD_AAAA a\<rparr>]"
    by (simp add: resolve_def reverse_has_type_def forward_has_type_def aaaa_record_def from_rdata_fields)
  with r n(2) show ?thesis by blast
qed

lemma match_zone_forward_inverts:
  assumes "wf_zone H z" and "\<not> wildcard_template (zn_fwd z)"
  shows "match_zone_forward H z q = Some a \<longleftrightarrow>
    in_network z a \<and> (\<exists>n. forward_name H z a = Some n \<and> folded H n = folded H q)"
proof -
  obtain n where "forward_name H z a = Some n" "iter H n = forward_labels z a"
    using assms(1) by (rule forward_name_Some)
  then show ?thesis unfolding match_zone_forward_exact [OF assms] by (auto simp: folded_def)
qed

end

section \<open>Properties\<close>

text \<open>
  Property C1. Forward-confirmed reverse DNS: over a compiled configuration, a PTR query for
  the name of an address in some network is answered with exactly one PTR record, owned by
  the query name and with the TTL of the longest matching zone, and resolving its target for
  AAAA gives exactly one record with the same address, as long as the target matches the
  template of no other zone and the zone's template does not begin with \<open>*\<close>.
\<close>

theorem ptr_answer_forward_confirmed:
  assumes "dns_laws H" and "wf_config H c"
    and "ptr_name_to_addr H q = Some a" and "zone_for_addr c a = Some z"
    and "\<not> wildcard_template (zn_fwd z)"
    and only: "\<forall>n. forward_name H z a = Some n \<longrightarrow>
      (\<forall>z' \<in> set (cf_zones c). z' \<noteq> z \<longrightarrow> match_zone_forward H z' n = None)"
  shows "\<exists>n. resolve H c q RT_PTR =
      Answer z [\<lparr>rr_name = q, rr_class = CL_IN, rr_ttl = zn_ttl z, rr_data = RD_PTR n\<rparr>] \<and>
    is_fqdn H n \<and>
    resolve H c n RT_AAAA =
      Answer z [\<lparr>rr_name = n, rr_class = CL_IN, rr_ttl = zn_ttl z, rr_data = RD_AAAA a\<rparr>]"
  using assms by (rule dns_laws.reverse_forward_confirmed)

theorem ptr_answer_forward_confirmed_witness:
  "\<exists>n. resolve rfc_lib example_config
      (map (\<lambda>c. [c]) ''a20000000000000000000000'' @ map (\<lambda>c. [c]) ''8bd01002'' @ [''ip6'', ''arpa''], True) RT_PTR =
      Answer example_zone [\<lparr>rr_name =
        (map (\<lambda>c. [c]) ''a20000000000000000000000'' @ map (\<lambda>c. [c]) ''8bd01002'' @ [''ip6'', ''arpa''], True),
        rr_class = CL_IN, rr_ttl = zn_ttl example_zone, rr_data = RD_PTR n\<rparr>] \<and>
    is_fqdn rfc_lib n \<and>
    resolve rfc_lib example_config n RT_AAAA =
      Answer example_zone [\<lparr>rr_name = n, rr_class = CL_IN, rr_ttl = zn_ttl example_zone,
        rr_data = RD_AAAA 0x20010db800000000000000000000002a\<rparr>]"
  by (rule ptr_answer_forward_confirmed [OF rfc.dns_laws_axioms wf_example_config example_ptr_name example_zone_for])
    (simp_all add: example_not_wildcard example_config_def config_default_def)

text \<open>
  Property C17. An answer says nothing but what the configuration and the query name determine:
  its zone is configured, and its records are the PTR record of the address the name denotes
  (queries for PTR and ANY), the AAAA record of the address the template decodes (queries
  for AAAA and ANY), or nothing for another type at a name a template produces.
\<close>

theorem resolve_answer_sound:
  assumes "dns_laws H" and "wf_config H c" and "resolve H c q t = Answer z rs"
  shows "z \<in> set (cf_zones c) \<and>
    ((\<exists>a n. reverse_has_type t \<and> ptr_name_to_addr H q = Some a \<and> in_network z a \<and>
        forward_name H z a = Some n \<and>
        rs = [\<lparr>rr_name = q, rr_class = CL_IN, rr_ttl = zn_ttl z, rr_data = RD_PTR n\<rparr>]) \<or>
     (\<exists>a. forward_has_type t \<and> match_zone_forward H z q = Some a \<and> in_network z a \<and>
        rs = [\<lparr>rr_name = q, rr_class = CL_IN, rr_ttl = zn_ttl z, rr_data = RD_AAAA a\<rparr>]) \<or>
     (\<exists>a. \<not> forward_has_type t \<and> match_zone_forward H z q = Some a \<and> rs = []))"
proof (cases "if reverse_has_type t then match_ptr H c q else None")
  case (Some p)
  obtain z' a where p: "p = (z', a)" by (cases p)
  with Some have t: "reverse_has_type t" and m: "match_ptr H c q = Some (z', a)"
    by (auto split: if_splits)
  from dns_laws.resolve_reverse [OF assms(1,2) t m] obtain n where
    "forward_name H z' a = Some n" "resolve H c q t =
      Answer z' [\<lparr>rr_name = q, rr_class = CL_IN, rr_ttl = zn_ttl z', rr_data = RD_PTR n\<rparr>]" by blast
  with t m assms(3) show ?thesis
    by (auto simp: match_ptr_def split: option.splits dest: zone_for_addr_SomeD)
next
  case None
  then obtain a where m: "match_forward H c q = Some (z, a)" and
    rs: "rs = (if forward_has_type t then [aaaa_record H z q a] else [])"
    using assms(3) by (auto simp: resolve_def split: option.splits)
  from match_forward_SomeD [OF m] have z: "z \<in> set (cf_zones c)" "match_zone_forward H z q = Some a" by auto
  then have "in_network z a"
    using dns_laws.match_zone_forward_iff [OF assms(1) wf_config_zone [OF assms(2)]] by blast
  with z rs show ?thesis by (simp add: aaaa_record_def dns_laws.from_rdata_fields [OF assms(1)])
qed

theorem resolve_answer_sound_witness:
  "example_zone \<in> set (cf_zones example_config) \<and>
   (\<exists>a. match_zone_forward rfc_lib example_zone ([''Host-0000002a'', ''example'', ''net''], True) = Some a)"
proof -
  have "resolve rfc_lib example_config ([''Host-0000002a'', ''example'', ''net''], True) RT_A =
      Answer example_zone []"
    by (simp add: resolve_def reverse_has_type_def forward_has_type_def match_forward_def
        example_config_def config_default_def example_match)
  from resolve_answer_sound [OF rfc.dns_laws_axioms wf_example_config this] show ?thesis by blast
qed

text \<open>
  Property C10. Forward matching is exact and inverts synthesis: for a compiled zone whose
  template does not begin with the label \<open>*\<close>, a query name matches with address \<open>a\<close> exactly
  when \<open>a\<close> lies in the zone's network and the name is, without regard to case, the forward
  name the zone synthesizes for \<open>a\<close>.
\<close>

theorem forward_match_inverts_synthesis:
  assumes "dns_laws H" and "wf_zone H z" and "\<not> wildcard_template (zn_fwd z)"
  shows "match_zone_forward H z q = Some a \<longleftrightarrow>
    in_network z a \<and> (\<exists>n. forward_name H z a = Some n \<and> folded H n = folded H q)"
  using assms by (rule dns_laws.match_zone_forward_inverts)

theorem forward_match_inverts_synthesis_witness:
  "match_zone_forward rfc_lib example_zone ([''hOST-0000002A'', ''Example'', ''net''], True) =
     Some 0x20010db800000000000000000000002a"
proof -
  have "in_network example_zone 0x20010db800000000000000000000002a" by code_simp
  moreover have "host_digits 0x20010db800000000000000000000002a 8 = Some ''0000002a''" by code_simp
  then have "forward_name rfc_lib example_zone 0x20010db800000000000000000000002a =
      Some ([''Host-0000002a'', ''example'', ''net''], True)"
    by (simp add: forward_name_def example_zone_def render_def rfc_eval)
  ultimately show ?thesis
    unfolding forward_match_inverts_synthesis [OF rfc.dns_laws_axioms wf_example_zone example_not_wildcard]
    by (simp add: folded_def rfc_eval)
qed

text \<open>
  Property C37. A template that begins with the label \<open>*\<close> never matches a name its zone
  synthesizes, and does match such a name followed by one more label of any kind: the label
  count of the DNS library leaves a leading \<open>*\<close> out.
\<close>

theorem wildcard_template_mismatch:
  assumes "dns_laws H" and "wf_zone H z" and "wildcard_template (zn_fwd z)" and "in_network z a"
    and "forward_name H z a = Some n" and "iter H q = iter H n @ [x]"
  shows "match_zone_forward H z n = None \<and> match_zone_forward H z q = Some a"
proof -
  obtain n' where "forward_name H z a = Some n'" "iter H n' = forward_labels z a"
    using assms(1,2) by (rule dns_laws.forward_name_Some)
  with assms(5) have n: "iter H n = forward_labels z a" by simp
  obtain v l ts where "ft_labels (zn_fwd z) = Literal v l # ts" "v = ''*''"
    using assms(3) by (auto simp: wildcard_template_def split: list.splits fwd_label.splits)
  then have "counted_labels (iter H n) = label_count (zn_fwd z) - 1"
    and "counted_labels (iter H q) = label_count (zn_fwd z)" and "0 < label_count (zn_fwd z)"
    using assms(6) n by (auto simp: forward_labels_def counted_labels_def label_count_def)
  with assms(4,6) n show ?thesis
    using dns_laws.match_zone_forward_iff [OF assms(1,2), of n]
      dns_laws.match_zone_forward_iff [OF assms(1,2), of q a]
    by (cases "match_zone_forward H z n") (simp_all, metis diff_Suc_less less_irrefl)
qed

theorem wildcard_template_mismatch_witness:
  "match_zone_forward rfc_lib example_wildcard ([''*'', ''Host-0000002a'', ''net''], True) = None \<and>
   match_zone_forward rfc_lib example_wildcard ([''*'', ''Host-0000002a'', ''net'', ''evil''], True) =
     Some 0x20010db800000000000000000000002a"
proof -
  have "in_network example_wildcard 0x20010db800000000000000000000002a" by code_simp
  moreover have "host_digits 0x20010db800000000000000000000002a 8 = Some ''0000002a''" by code_simp
  then have "forward_name rfc_lib example_wildcard 0x20010db800000000000000000000002a =
      Some ([''*'', ''Host-0000002a'', ''net''], True)"
    by (simp add: forward_name_def example_wildcard_def example_zone_def render_def rfc_eval)
  moreover have "wildcard_template (zn_fwd example_wildcard)" by code_simp
  ultimately show ?thesis
    by (intro wildcard_template_mismatch [OF rfc.dns_laws_axioms wf_example_wildcard, where x = "''evil''"])
      (simp_all add: rfc_eval)
qed

text \<open>
  The zone chosen for an address is the longest matching prefix: over a compiled
  configuration a zone is found exactly when some zone's network holds the address, and no
  zone that holds it has a longer prefix than the one returned.
\<close>

lemma zone_for_addr_longest_prefix:
  assumes "wf_config H c"
  shows "(zone_for_addr c a = None \<longleftrightarrow> (\<forall>z \<in> set (cf_zones c). \<not> in_network z a)) \<and>
    (\<forall>z. zone_for_addr c a = Some z \<longrightarrow> z \<in> set (cf_zones c) \<and> in_network z a \<and>
       (\<forall>z' \<in> set (cf_zones c). in_network z' a \<longrightarrow> zn_mask z' \<le> zn_mask z))"
  using zone_for_addr_maximal [OF assms] by (auto simp: zone_for_addr_None dest: zone_for_addr_SomeD)

text \<open>
  A query is out of zone exactly when its name lies below no configured apex:
  whatever is answered lies in the namespace of a configured zone, so the out-of-zone policy
  never applies to a name the server is authoritative for, nor an authoritative answer to
  one it is not.
\<close>

theorem resolve_NoZone_iff:
  assumes "dns_laws H" and "wf_config H c" and "\<forall>z \<in> set (cf_zones c). \<not> wildcard_template (zn_fwd z)"
  shows "resolve H c q t = NoZone \<longleftrightarrow>
    (\<forall>z \<in> set (cf_zones c). \<not> zone_of H (zn_ptr_zone z) q \<and> \<not> zone_of H (zn_fwd_parent z) q)"
proof
  assume "resolve H c q t = NoZone"
  then have "zone_containing H c q = None" by (auto simp: resolve_def split: option.splits prod.splits)
  then show "\<forall>z \<in> set (cf_zones c). \<not> zone_of H (zn_ptr_zone z) q \<and> \<not> zone_of H (zn_fwd_parent z) q"
    by (simp add: dns_laws.zone_containing_None [OF assms(1)])
next
  assume out: "\<forall>z \<in> set (cf_zones c). \<not> zone_of H (zn_ptr_zone z) q \<and> \<not> zone_of H (zn_fwd_parent z) q"
  then have "zone_containing H c q = None" by (simp add: dns_laws.zone_containing_None [OF assms(1)])
  moreover have "match_ptr H c q = None"
    using dns_laws.match_ptr_in_zone [OF assms(1,2)] out by (cases "match_ptr H c q") fastforce+
  moreover have "match_forward H c q = None"
    unfolding match_forward_None
    using dns_laws.match_zone_forward_in_zone [OF assms(1) wf_config_zone [OF assms(2)]] assms(3) out
    by (metis option.exhaust)
  ultimately show "resolve H c q t = NoZone" by (simp add: resolve_def)
qed

theorem resolve_NoZone_iff_witness:
  "resolve rfc_lib example_config ([''example'', ''org''], True) RT_A = NoZone"
proof -
  have "\<forall>z \<in> set (cf_zones example_config). \<not> wildcard_template (zn_fwd z)"
    by (simp add: example_config_def config_default_def example_not_wildcard)
  note iff = resolve_NoZone_iff [OF rfc.dns_laws_axioms wf_example_config this]
  show ?thesis unfolding iff rfc.zone_of_suffix
    by (simp add: example_config_def config_default_def example_zone_def folded_def rfc_eval suffix_drop_iff)
qed

text \<open>
  Property C38. The reverse name of an address in a served network is answered for PTR and for
  ANY with its PTR record, but for every other type it is reported as a name that denotes
  nothing, unless a forward template produces it: the type decides, not the name.
\<close>

theorem reverse_name_other_type_no_name:
  assumes "dns_laws H" and "wf_config H c"
    and "ptr_name_to_addr H q = Some a" and "zone_for_addr c a = Some z" and "match_forward H c q = None"
  shows "if reverse_has_type t
    then \<exists>n. resolve H c q t = Answer z [\<lparr>rr_name = q, rr_class = CL_IN, rr_ttl = zn_ttl z, rr_data = RD_PTR n\<rparr>]
    else \<exists>z' \<in> set (cf_zones c). resolve H c q t = NoName z'"
proof (cases "reverse_has_type t")
  case True
  have "match_ptr H c q = Some (z, a)" using assms(3,4) by (simp add: match_ptr_def)
  from dns_laws.resolve_reverse [OF assms(1,2) True this] True show ?thesis by auto
next
  case False
  have "match_ptr H c q = Some (z, a)" using assms(3,4) by (simp add: match_ptr_def)
  from dns_laws.match_ptr_in_zone [OF assms(1,2) this] obtain z' where "zone_containing H c q = Some z'"
    using dns_laws.zone_containing_None [OF assms(1), of c q] by (cases "zone_containing H c q") auto
  moreover from this have "z' \<in> set (cf_zones c)" by (auto simp: zone_containing_def find_Some_iff)
  ultimately show ?thesis using False assms(5) by (auto simp: resolve_def)
qed

theorem reverse_name_other_type_no_name_witness:
  "\<exists>z' \<in> set (cf_zones example_config). resolve rfc_lib example_config
     (map (\<lambda>c. [c]) ''a20000000000000000000000'' @ map (\<lambda>c. [c]) ''8bd01002'' @ [''ip6'', ''arpa''], True) RT_A =
     NoName z'"
proof -
  let ?q = "(map (\<lambda>c. [c]) ''a20000000000000000000000'' @ map (\<lambda>c. [c]) ''8bd01002'' @ [''ip6'', ''arpa''], True)"
  have "match_forward rfc_lib example_config ?q = None"
    by (simp add: match_forward_def match_zone_forward_def rfc.num_labels_counted rfc_eval
        example_config_def config_default_def example_zone_def label_count_def counted_labels_def)
  from reverse_name_other_type_no_name [OF rfc.dns_laws_axioms wf_example_config example_ptr_name example_zone_for this, of RT_A]
  show ?thesis by (simp add: reverse_has_type_def)
qed

end
