(* ===== verification/Compile.thy ===== *)
theory Compile
  imports Parse Zone "HOL-Library.Multiset"
begin

text \<open>
  \<open>src/src/config/compile.rs\<close> and \<open>Config::parse\<close> of \<open>src/src/config/mod.rs\<close>: validation of the
  raw directives. The errors are threaded as the source threads its \<open>&mut Vec\<close>: every
  function takes the errors so far and returns them with its own appended. The lemmas show
  that a configuration accepted without an error satisfies the invariants the request path
  relies on, that a report holds the errors of every stage and no others, and that each
  of them quotes a line of the file.
\<close>

definition PLACEHOLDER :: bytes where
  "PLACEHOLDER = ''%digits%''"

definition PLACEHOLDER_DASHED :: bytes where
  "PLACEHOLDER_DASHED = ''%digits-dashed%''"

type_synonym errors = "config_error list"

section \<open>Values\<close>

definition parse_name :: "'n dns_lib \<Rightarrow> raw_value \<Rightarrow> string \<Rightarrow> errors \<Rightarrow> 'n option \<times> errors" where
  "parse_name H v what errors =
    (case from_str_relaxed H (rv_value v) of
       Inr name \<Rightarrow> (Some (set_fqdn H name True), errors)
     | Inl _ \<Rightarrow> (None, errors @ [rv_error v (InvalidDnsName what)]))"

definition parse_u32 :: "raw_value \<Rightarrow> string \<Rightarrow> string \<Rightarrow> errors \<Rightarrow> u32 option \<times> errors" where
  "parse_u32 v what allowed errors =
    (case u32_from_str (rv_value v) of
       Some n \<Rightarrow> (Some n, errors)
     | None \<Rightarrow> (None, errors @ [rv_error v (InvalidNumber what allowed)]))"

definition compile_listen :: "raw_value \<Rightarrow> errors \<Rightarrow> listen_addr option \<times> errors" where
  "compile_listen v errors =
    (case socket_addr_from_str (rv_value v) of
       Some (ip, port) \<Rightarrow> (Some \<lparr>la_addr = ip, la_port = port\<rparr>, errors)
     | None \<Rightarrow>
         (case ip_from_str (rv_value v) of
            Some addr \<Rightarrow> (Some \<lparr>la_addr = addr, la_port = DEFAULT_PORT\<rparr>, errors)
          | None \<Rightarrow> (None, errors @ [rv_error v InvalidListenAddress])))"

section \<open>Globals\<close>

record 'n globals =
  gl_ttl :: u32
  gl_soa :: "'n soa_params option"
  gl_nameservers :: "'n list"
  gl_params :: server_params

text \<open>The local variables of \<open>compile_globals\<close> while it visits the directives.\<close>

record 'n globals_acc =
  ga_ttl :: u32
  ga_params :: server_params
  ga_primary :: "'n option"
  ga_hostmaster :: "'n option"
  ga_nameservers :: "'n list"

definition set_rrl :: "(rrl_params \<Rightarrow> rrl_params) \<Rightarrow> 'n globals_acc \<Rightarrow> 'n globals_acc" where
  "set_rrl f acc = acc\<lparr>ga_params := (ga_params acc)\<lparr>sp_rrl := f (sp_rrl (ga_params acc))\<rparr>\<rparr>"

definition compile_global ::
  "'n dns_lib \<Rightarrow> raw_global \<Rightarrow> 'n globals_acc \<Rightarrow> errors \<Rightarrow> 'n globals_acc \<times> errors" where
  "compile_global H g acc errors =
    (let v = rg_value g in
     case rg_key g of
       GK_Primary \<Rightarrow> (let (n, errors) = parse_name H v ''primary'' errors in (acc\<lparr>ga_primary := n\<rparr>, errors))
     | GK_Hostmaster \<Rightarrow> (let (n, errors) = parse_name H v ''hostmaster'' errors in (acc\<lparr>ga_hostmaster := n\<rparr>, errors))
     | GK_Ns \<Rightarrow>
         (case parse_name H v ''ns'' errors of
            (Some n, errors) \<Rightarrow> (acc\<lparr>ga_nameservers := ga_nameservers acc @ [n]\<rparr>, errors)
          | (None, errors) \<Rightarrow> (acc, errors))
     | GK_Ttl \<Rightarrow>
         (case parse_u32 v ''ttl'' ''a TTL in seconds (0-2147483647)'' errors of
            (Some n, errors) \<Rightarrow>
              if n > 0x7FFFFFFF
              then (acc, errors @ [rv_error v (InvalidNumber ''ttl'' ''a TTL in seconds (0-2147483647)'')])
              else (acc\<lparr>ga_ttl := n\<rparr>, errors)
          | (None, errors) \<Rightarrow> (acc, errors))
     | GK_OutOfZone \<Rightarrow>
         if rv_value v = ''refused''
         then (acc\<lparr>ga_params := (ga_params acc)\<lparr>sp_out_of_zone := Policy_Refused\<rparr>\<rparr>, errors)
         else if rv_value v = ''nxdomain''
         then (acc\<lparr>ga_params := (ga_params acc)\<lparr>sp_out_of_zone := Policy_NxDomain\<rparr>\<rparr>, errors)
         else (acc, errors @ [rv_error v (InvalidChoice ''out-of-zone'' ''`refused` or `nxdomain`'')])
     | GK_MaxUdpPayload \<Rightarrow>
         (case parse_u32 v ''max-udp-payload'' ''512-65535 bytes'' errors of
            (Some n, errors) \<Rightarrow>
              if n \<le> 0xFFFF \<and> (ucast n :: u16) \<ge> 512
              then (acc\<lparr>ga_params := (ga_params acc)\<lparr>sp_max_udp_payload := ucast n\<rparr>\<rparr>, errors)
              else (acc, errors @ [rv_error v (InvalidNumber ''max-udp-payload'' ''512-65535 bytes'')])
          | (None, errors) \<Rightarrow> (acc, errors))
     | GK_UpstreamTimeout \<Rightarrow>
         (case parse_u32 v ''upstream-timeout'' ''1-10000 milliseconds'' errors of
            (Some n, errors) \<Rightarrow>
              if 1 \<le> n \<and> n \<le> 10000
              then (acc\<lparr>ga_params := (ga_params acc)\<lparr>sp_upstream_timeout := ucast n\<rparr>\<rparr>, errors)
              else (acc, errors @ [rv_error v (InvalidNumber ''upstream-timeout'' ''1-10000 milliseconds'')])
          | (None, errors) \<Rightarrow> (acc, errors))
     | GK_RrlOff \<Rightarrow> (set_rrl (\<lambda>p. p\<lparr>rp_enabled := False\<rparr>) acc, errors)
     | GK_RrlRps \<Rightarrow>
         (case parse_u32 v ''rrl responses-per-second'' ''at least 1'' errors of
            (Some n, errors) \<Rightarrow>
              if n \<ge> 1 then (set_rrl (\<lambda>p. p\<lparr>rp_responses_per_second := n\<rparr>) acc, errors)
              else (acc, errors @ [rv_error v (InvalidNumber ''rrl responses-per-second'' ''at least 1'')])
          | (None, errors) \<Rightarrow> (acc, errors))
     | GK_RrlBurst \<Rightarrow>
         (case parse_u32 v ''rrl burst'' ''at least 1'' errors of
            (Some n, errors) \<Rightarrow>
              if n \<ge> 1 then (set_rrl (\<lambda>p. p\<lparr>rp_burst := n\<rparr>) acc, errors)
              else (acc, errors @ [rv_error v (InvalidNumber ''rrl burst'' ''at least 1'')])
          | (None, errors) \<Rightarrow> (acc, errors))
     | GK_RrlSlip \<Rightarrow>
         (case parse_u32 v ''rrl slip'' ''0 (always drop) or more'' errors of
            (Some n, errors) \<Rightarrow> (set_rrl (\<lambda>p. p\<lparr>rp_slip := n\<rparr>) acc, errors)
          | (None, errors) \<Rightarrow> (acc, errors)))"

fun compile_global_list ::
  "'n dns_lib \<Rightarrow> raw_global list \<Rightarrow> 'n globals_acc \<Rightarrow> errors \<Rightarrow> 'n globals_acc \<times> errors" where
  "compile_global_list H [] acc errors = (acc, errors)"
| "compile_global_list H (g # gs) acc errors =
    (let (acc', errors') = compile_global H g acc errors in compile_global_list H gs acc' errors')"

definition missing_pair_error :: "raw_config \<Rightarrow> string \<Rightarrow> string \<Rightarrow> config_error" where
  "missing_pair_error raw missing present =
    (let k = MissingCompanionDirective missing present in
     case find (\<lambda>g. rg_key g = GK_Primary \<or> rg_key g = GK_Hostmaster) (rc_globals raw) of
       Some g \<Rightarrow> rv_error (rg_value g) k
     | None \<Rightarrow> \<lparr>ce_line = 1, ce_snippet = [], ce_span = None, ce_kind = k\<rparr>)"

definition compile_globals :: "'n dns_lib \<Rightarrow> raw_config \<Rightarrow> errors \<Rightarrow> 'n globals \<times> errors" where
  "compile_globals H raw errors =
    (let (acc, errors) = compile_global_list H (rc_globals raw)
           \<lparr>ga_ttl = DEFAULT_TTL, ga_params = server_params_default, ga_primary = None,
            ga_hostmaster = None, ga_nameservers = []\<rparr> errors;
         (soa, errors) =
           (case (ga_primary acc, ga_hostmaster acc) of
              (Some primary, Some hostmaster) \<Rightarrow>
                (Some \<lparr>so_primary = primary, so_hostmaster = hostmaster, so_serial = 1,
                   so_refresh = 604800, so_retry = 86400, so_expire = 2419200, so_minimum = 60\<rparr>, errors)
            | (Some _, None) \<Rightarrow> (None, errors @ [missing_pair_error raw ''hostmaster'' ''primary''])
            | (None, Some _) \<Rightarrow> (None, errors @ [missing_pair_error raw ''primary'' ''hostmaster''])
            | (None, None) \<Rightarrow> (None, errors))
     in (\<lparr>gl_ttl = ga_ttl acc, gl_soa = soa, gl_nameservers = ga_nameservers acc,
          gl_params = ga_params acc\<rparr>, errors))"

section \<open>Networks\<close>

definition compile_network :: "raw_value \<Rightarrow> errors \<Rightarrow> (u128 \<times> u8) option \<times> errors" where
  "compile_network v errors =
    (case split_once CHR ''/'' (rv_value v) of
       None \<Rightarrow> (None, errors @ [rv_error v NetworkMissingPrefixLen])
     | Some (addr_part, mask_part) \<Rightarrow>
         (case ipv6_from_str addr_part of
            None \<Rightarrow> (None, errors @ [rv_error_at v 0 (length addr_part) NetworkInvalidAddress])
          | Some addr \<Rightarrow>
              let mask_offset = saturating_add (length addr_part) 1;
                  at_mask = rv_error_at v mask_offset (length mask_part)
              in (case u32_from_str mask_part of
                    None \<Rightarrow> (None, errors @ [at_mask NetworkPrefixLenNotANumber])
                  | Some mask_u32 \<Rightarrow>
                      if mask_u32 > 128 then (None, errors @ [at_mask (NetworkPrefixLenOutOfRange mask_u32)])
                      else
                        let m = (if mask_u32 \<le> 255 then ucast mask_u32 else 128 :: u8) in
                        if m mod 4 \<noteq> 0 then (None, errors @ [at_mask (NetworkPrefixNotNibbleAligned m)])
                        else if m = 0 then (None, errors @ [at_mask (NetworkPrefixTooShort m)])
                        else if m = 128 then (None, errors @ [rv_error v NetworkIsSingleAddress])
                        else
                          let p = addr AND mask_bits m in
                          if addr \<noteq> p then
                            (None, errors @ [rv_error v (NetworkHostBitsSet
                               (show_ipv6 p @ ''/'' @ dec_string (unat m)))])
                          else (Some (p, m), errors))))"

section \<open>Templates\<close>

text \<open>One label of a template, or the reason it is refused.\<close>

definition compile_segment :: "bytes \<Rightarrow> (string, fwd_label) result" where
  "compile_segment segment =
    (if segment = [] then Inl ''empty label''
     else
       let seg_lower = to_ascii_lowercase segment;
           hit = (case find_str seg_lower PLACEHOLDER_DASHED of
                    Some at \<Rightarrow> Some (at, PLACEHOLDER_DASHED, True)
                  | None \<Rightarrow> map_option (\<lambda>at. (at, PLACEHOLDER, False)) (find_str seg_lower PLACEHOLDER))
       in (case hit of
             Some (at, placeholder, d) \<Rightarrow>
               (case split_at_checked segment at of
                  None \<Rightarrow> Inl ''malformed placeholder''
                | Some (pre_part, rest) \<Rightarrow>
                    (case split_at_checked rest (length placeholder) of
                       None \<Rightarrow> Inl ''malformed placeholder''
                     | Some (_, post_part) \<Rightarrow>
                         Inr (Digits pre_part (to_ascii_lowercase pre_part) post_part (to_ascii_lowercase post_part) d)))
           | None \<Rightarrow> Inr (Literal segment seg_lower)))"

fun template_loop ::
  "nat \<Rightarrow> bytes list \<Rightarrow> fwd_label list \<times> nat option \<times> bool \<Rightarrow> (string, fwd_label list \<times> nat option \<times> bool) result" where
  "template_loop idx [] acc = Inr acc"
| "template_loop idx (segment # rest) (labels, digits_at, dashed_used) =
    (case compile_segment segment of
       Inl reason \<Rightarrow> Inl reason
     | Inr l \<Rightarrow> template_loop (idx + 1) rest
         (labels @ [l], (if is_Digits l then Some idx else digits_at),
          (if is_Digits l then dashed l else dashed_used)))"

definition compile_template ::
  "'n dns_lib \<Rightarrow> raw_value \<Rightarrow> u8 \<Rightarrow> errors \<Rightarrow> fwd_template option \<times> errors" where
  "compile_template H v host_nibbles errors =
    (let lowered = to_ascii_lowercase (rv_value v);
         hits = match_count lowered PLACEHOLDER + match_count lowered PLACEHOLDER_DASHED
     in if hits = 0 then (None, errors @ [rv_error v PlaceholderMissing])
        else if hits \<noteq> 1 then (None, errors @ [rv_error v (PlaceholderRepeated hits)])
        else
          let template = (case strip_suffix_char (rv_value v) CHR ''.'' of Some t \<Rightarrow> t | None \<Rightarrow> rv_value v)
          in (case template_loop 0 (split_char CHR ''.'' template) ([], None, False) of
                Inl reason \<Rightarrow> (None, errors @ [rv_error v (ResolvesToInvalidName reason)])
              | Inr (labels, None, dashed_used) \<Rightarrow>
                  (None, errors @ [rv_error v (ResolvesToInvalidName ''placeholder does not lie within a single label'')])
              | Inr (labels, Some digits_at, dashed_used) \<Rightarrow>
                  if dashed_used \<and> host_nibbles mod 4 \<noteq> 0 then
                    (None, errors @ [rv_error v (DashedDigitsNotNibbleMultipleOfFour host_nibbles)])
                  else
                    let t = \<lparr>ft_labels = labels, ft_digits_at = digits_at\<rparr>
                    in (case render H t (widest host_nibbles) of
                          Inl e \<Rightarrow> (None, errors @ [rv_error v (ForwardNameTooLong e)])
                        | Inr _ \<Rightarrow> (Some t, errors))))"

section \<open>Zones\<close>

text \<open>The networks and the patterns seen so far, with the lines that set them.\<close>

type_synonym seen = "(u128 \<times> u8 \<rightharpoonup> u32) \<times> (bytes \<rightharpoonup> u32)"

definition compile_zone ::
  "'n dns_lib \<Rightarrow> raw_zone \<Rightarrow> errors \<Rightarrow> seen \<Rightarrow> 'n zone option \<times> errors \<times> seen" where
  "compile_zone H raw errors seen =
    (case compile_network (rz_network raw) errors of
       (None, errors) \<Rightarrow> (None, errors, seen)
     | (Some (p, m), errors) \<Rightarrow>
    (case fst seen (p, m) of
       Some first_line \<Rightarrow> (None, errors @ [rv_error (rz_network raw) (DuplicateNetwork first_line)], seen)
     | None \<Rightarrow>
    (case rz_resolves_to raw of
       None \<Rightarrow> (None, errors @ [rv_error (rz_network raw) MissingResolvesTo], seen)
     | Some resolves_to \<Rightarrow>
         let host_nibbles = saturating_sub 128 m div 4 in
    (case compile_template H resolves_to host_nibbles errors of
       (None, errors) \<Rightarrow> (None, errors, seen)
     | (Some fwd, errors) \<Rightarrow>
         let pattern_key = to_ascii_lowercase (rv_value resolves_to) in
    (case snd seen pattern_key of
       Some first_line \<Rightarrow> (None, errors @ [rv_error resolves_to (DuplicateForwardPattern first_line)], seen)
     | None \<Rightarrow>
    (case (case rz_upstream raw of
             None \<Rightarrow> Inr None
           | Some v \<Rightarrow> (case ip_from_str (rv_value v) of
                          Some addr \<Rightarrow> Inr (Some addr)
                        | None \<Rightarrow> Inl (rv_error v InvalidUpstreamAddress))) of
       Inl e \<Rightarrow> (None, errors @ [e], seen)
     | Inr upstream \<Rightarrow>
    (case netmask_to_ptr_name H p m of
       None \<Rightarrow> (None, errors @ [rv_error (rz_network raw) (NetworkPrefixNotNibbleAligned m)], seen)
     | Some ptr_zone \<Rightarrow>
    (case parent H fwd of
       Inl e \<Rightarrow> (None, errors @ [rv_error resolves_to (ResolvesToInvalidName e)], seen)
     | Inr fwd_parent \<Rightarrow>
         (Some \<lparr>zn_src_line = rv_line (rz_network raw), zn_prefix = p, zn_mask = m,
            zn_host_nibbles = host_nibbles, zn_ptr_zone = ptr_zone,
            zn_resolves_to = rv_value resolves_to, zn_fwd = fwd, zn_fwd_parent = fwd_parent,
            zn_ttl = DEFAULT_TTL, zn_upstream = upstream\<rparr>,
          errors,
          ((fst seen)((p, m) \<mapsto> rv_line (rz_network raw)),
           (snd seen)(pattern_key \<mapsto> rv_line resolves_to)))))))))))"

section \<open>Configurations\<close>

fun compile_listens :: "raw_value list \<Rightarrow> errors \<Rightarrow> listen_addr list \<times> errors" where
  "compile_listens [] errors = ([], errors)"
| "compile_listens (v # vs) errors =
    (let (l, errors) = compile_listen v errors; (ls, errors) = compile_listens vs errors
     in (case l of None \<Rightarrow> ls | Some a \<Rightarrow> a # ls, errors))"

fun compile_zones ::
  "'n dns_lib \<Rightarrow> u32 \<Rightarrow> raw_zone list \<Rightarrow> errors \<Rightarrow> seen \<Rightarrow> 'n zone list \<times> errors" where
  "compile_zones H ttl [] errors seen = ([], errors)"
| "compile_zones H ttl (r # rs) errors seen =
    (let (z, errors, seen) = compile_zone H r errors seen;
         (zs, errors) = compile_zones H ttl rs errors seen
     in (case z of None \<Rightarrow> zs | Some z \<Rightarrow> z\<lparr>zn_ttl := ttl\<rparr> # zs, errors))"

text \<open>\<open>sort_by_key(|z| Reverse(z.mask))\<close> is a stable sort by descending prefix length.\<close>

definition sort_zones :: "'n zone list \<Rightarrow> 'n zone list" where
  "sort_zones zs = sort_key (\<lambda>z. - uint (zn_mask z)) zs"

definition compile :: "'n dns_lib \<Rightarrow> raw_config \<Rightarrow> errors \<Rightarrow> 'n config \<times> errors" where
  "compile H raw errors =
    (let (listen, errors) = compile_listens (rc_listen raw) errors;
         (globals, errors) = compile_globals H raw errors;
         (zones, errors) = compile_zones H (gl_ttl globals) (rc_zones raw) errors (Map.empty, Map.empty)
     in (\<lparr>cf_listen = listen, cf_zones = sort_zones zones, cf_soa = gl_soa globals,
          cf_nameservers = gl_nameservers globals, cf_params = gl_params globals\<rparr>, errors))"

definition config_parse :: "'n dns_lib \<Rightarrow> bytes \<Rightarrow> (config_errors, 'n config) result" where
  "config_parse H input =
    (let (raw, errors) = parse input;
         (config, errors) = compile H raw errors
     in if errors = [] then Inr config else Inl (config_errors_new errors))"

section \<open>A compiled template is well formed\<close>

text \<open>The placeholders of a text, as \<open>compile_template\<close> counts them.\<close>

definition hits :: "bytes \<Rightarrow> nat" where
  "hits s = match_count (to_ascii_lowercase s) PLACEHOLDER + match_count (to_ascii_lowercase s) PLACEHOLDER_DASHED"

lemma lower_dot: "to_ascii_lower c = CHR ''.'' \<longleftrightarrow> c = CHR ''.''"
  by (cases c) auto

lemma placeholder_facts:
  "CHR ''.'' \<notin> set PLACEHOLDER" "PLACEHOLDER \<noteq> []"
  "CHR ''.'' \<notin> set PLACEHOLDER_DASHED" "PLACEHOLDER_DASHED \<noteq> []"
  by (simp_all add: PLACEHOLDER_def PLACEHOLDER_DASHED_def)

lemma hits_segments: "hits s = sum_list (map hits (split_char CHR ''.'' s))"
proof -
  have "split_char CHR ''.'' (to_ascii_lowercase s) = map to_ascii_lowercase (split_char CHR ''.'' s)"
    unfolding to_ascii_lowercase_def by (rule split_char_map) (rule lower_dot)
  then have "match_count (to_ascii_lowercase s) p =
      sum_list (map (\<lambda>w. match_count (to_ascii_lowercase w) p) (split_char CHR ''.'' s))"
    if "CHR ''.'' \<notin> set p" "p \<noteq> []" for p
    using match_count_split_char [OF that, of "to_ascii_lowercase s"] by (simp add: comp_def)
  then show ?thesis unfolding hits_def
    by (simp add: placeholder_facts sum_list_addf)
qed

lemma hits_trailing_dot: "hits (t @ ''.'') = hits t"
proof -
  have "match_count [] p = 0" for p by (simp add: match_count.simps)
  then show ?thesis
    using match_count_append_sep [OF placeholder_facts(1,2), of "to_ascii_lowercase t" "[]"]
      match_count_append_sep [OF placeholder_facts(3,4), of "to_ascii_lowercase t" "[]"]
    by (simp add: hits_def lower_dot)
qed

lemma compile_segment_Inr:
  assumes "compile_segment s = Inr l"
  shows "wf_label l" and "is_Digits l \<longleftrightarrow> hits s \<noteq> 0"
proof -
  have None: "match_count (to_ascii_lowercase s) PLACEHOLDER = 0 \<longleftrightarrow> find_str (to_ascii_lowercase s) PLACEHOLDER = None"
    "match_count (to_ascii_lowercase s) PLACEHOLDER_DASHED = 0 \<longleftrightarrow> find_str (to_ascii_lowercase s) PLACEHOLDER_DASHED = None"
    by (simp_all add: match_count_zero_iff placeholder_facts)
  show "wf_label l" "is_Digits l \<longleftrightarrow> hits s \<noteq> 0"
    using assms None by (auto simp: compile_segment_def hits_def Let_def split: if_splits option.splits)
qed

lemma template_loop_append:
  "template_loop idx (xs @ ys) acc =
   (case template_loop idx xs acc of Inl r \<Rightarrow> Inl r | Inr acc' \<Rightarrow> template_loop (idx + length xs) ys acc')"
proof (induction xs arbitrary: idx acc)
  case (Cons x xs)
  obtain L at du where "acc = (L, at, du)" by (cases acc)
  with Cons show ?case by (simp split: sum.splits)
qed simp

lemma template_loop_literals:
  assumes "template_loop idx xs (L, at, du) = Inr (L', at', du')" and "\<forall>x \<in> set xs. hits x = 0"
  shows "at' = at \<and> du' = du \<and> (\<exists>ls. L' = L @ ls \<and> length ls = length xs \<and> (\<forall>l \<in> set ls. wf_label l \<and> \<not> is_Digits l))"
  using assms
proof (induction xs arbitrary: idx L)
  case (Cons x xs)
  from Cons.prems(1) obtain l where l: "compile_segment x = Inr l"
    by (auto split: sum.splits)
  from compile_segment_Inr [OF l] Cons.prems(2) have nd: "wf_label l" "\<not> is_Digits l" by auto
  from Cons.IH [of "idx + 1" "L @ [l]"] Cons.prems l nd obtain ls where
    "at' = at" "du' = du" "L' = (L @ [l]) @ ls" "length ls = length xs" "\<forall>l \<in> set ls. wf_label l \<and> \<not> is_Digits l"
    by auto
  with nd show ?case by (intro conjI exI [of _ "l # ls"]) auto
qed simp

lemma sum_list_one:
  assumes "sum_list (map f xs) = (1 :: nat)"
  obtains as x bs where "xs = as @ x # bs" "f x = 1" "\<forall>y \<in> set as \<union> set bs. f y = 0"
proof -
  have "\<exists>as x bs. xs = as @ x # bs \<and> f x = 1 \<and> (\<forall>y \<in> set as \<union> set bs. f y = 0)"
    using assms
  proof (induction xs)
    case (Cons x xs)
    show ?case
    proof (cases "f x = 0")
      case True
      with Cons obtain as y bs where "xs = as @ y # bs" "f y = 1" "\<forall>y \<in> set as \<union> set bs. f y = 0" by auto
      with True show ?thesis by (intro exI [of _ "x # as"] exI [of _ y] exI [of _ bs]) auto
    next
      case False
      moreover have "f x + sum_list (map f xs) = 1" using Cons.prems by simp
      ultimately have "f x = 1" "sum_list (map f xs) = 0" by linarith+
      then have "f x = 1" "\<forall>y \<in> set xs. f y = 0" by (auto simp: sum_list_eq_0_iff)
      then show ?thesis by (intro exI [of _ "[]"] exI [of _ x] exI [of _ xs]) auto
    qed
  qed simp
  then show thesis using that by blast
qed

text \<open>With one placeholder in all, the loop puts it into one label and records where.\<close>

lemma template_loop_one:
  assumes "template_loop 0 xs ([], None, False) = Inr (L, at, du)" and "sum_list (map hits xs) = 1"
  obtains ls d rs where "L = ls @ d # rs" "at = Some (length ls)" "is_Digits d" "du = dashed d"
    "\<forall>l \<in> set ls \<union> set rs. \<not> is_Digits l" "\<forall>l \<in> set L. wf_label l"
proof -
  obtain as x bs where xs: "xs = as @ x # bs" "hits x = 1" "\<forall>y \<in> set as \<union> set bs. hits y = 0"
    using assms(2) by (rule sum_list_one)
  obtain L1 at1 du1 where one: "template_loop 0 as ([], None, False) = Inr (L1, at1, du1)"
    and two: "template_loop (length as) (x # bs) (L1, at1, du1) = Inr (L, at, du)"
    using assms(1) by (auto simp: xs(1) template_loop_append split: sum.splits)
  from template_loop_literals [OF one] xs(3) have L1: "length L1 = length as"
    "\<forall>l \<in> set L1. wf_label l \<and> \<not> is_Digits l" by auto
  from two obtain d where d: "compile_segment x = Inr d" by (auto split: sum.splits)
  with compile_segment_Inr [OF d] xs(2) have wd: "wf_label d" "is_Digits d" by auto
  from two d wd have "template_loop (length as + 1) bs (L1 @ [d], Some (length as), dashed d) = Inr (L, at, du)"
    by simp
  from template_loop_literals [OF this] xs(3) obtain rs where
    "at = Some (length as)" "du = dashed d" "L = L1 @ d # rs" "\<forall>l \<in> set rs. wf_label l \<and> \<not> is_Digits l"
    by auto
  with L1 wd show thesis by (intro that [of L1 d rs]) auto
qed

lemma wf_templateI:
  assumes "t = \<lparr>ft_labels = ls @ d # rs, ft_digits_at = length ls\<rparr>" and "is_Digits d"
    and "\<forall>l \<in> set ls \<union> set rs. \<not> is_Digits l" and "\<forall>l \<in> set (ls @ d # rs). wf_label l"
    and "dashed d \<longrightarrow> h mod 4 = 0"
  shows "wf_template h t"
proof -
  have "is_Digits ((ls @ d # rs) ! i) \<longleftrightarrow> i = length ls" if "i < length (ls @ d # rs)" for i
    using that assms(2,3) by (auto simp: nth_append nth_Cons' dest: nth_mem)
  with assms show ?thesis by (simp add: wf_template_def list_all_iff)
qed

lemma compile_template_Some:
  assumes "compile_template H v h es = (Some t, es')"
  shows "wf_template h t" and "\<not> isl (render H t (widest h))" and "es' = es"
proof -
  let ?T = "case strip_suffix_char (rv_value v) CHR ''.'' of Some t \<Rightarrow> t | None \<Rightarrow> rv_value v"
  from assms have "hits (rv_value v) = 1"
    by (simp add: compile_template_def hits_def Let_def split: if_splits)
  moreover have "hits ?T = hits (rv_value v)"
    using hits_trailing_dot [of "butlast (rv_value v)"]
    by (auto simp: strip_suffix_char_def split: option.splits) (metis append_butlast_last_id)
  ultimately have one: "sum_list (map hits (split_char CHR ''.'' ?T)) = 1"
    using hits_segments [of ?T] by simp
  from assms obtain L k du where loop: "template_loop 0 (split_char CHR ''.'' ?T) ([], None, False) = Inr (L, Some k, du)"
    and du: "du \<longrightarrow> h mod 4 = 0" and t: "t = \<lparr>ft_labels = L, ft_digits_at = k\<rparr>"
    and "\<not> isl (render H t (widest h))" "es' = es"
    by (auto simp: compile_template_def Let_def split: if_splits sum.splits option.splits prod.splits)
  then show "\<not> isl (render H t (widest h))" "es' = es" by simp_all
  from loop one show "wf_template h t"
  proof (rule template_loop_one)
    fix ls d rs
    assume "L = ls @ d # rs" "Some k = Some (length ls)" "is_Digits d" "du = dashed d"
      "\<forall>l \<in> set ls \<union> set rs. \<not> is_Digits l" "\<forall>l \<in> set L. wf_label l"
    with t du show ?thesis by (intro wf_templateI [of t ls d rs]) auto
  qed
qed

section \<open>A compiled zone is well formed\<close>

lemma compile_network_Some:
  assumes "compile_network v es = (Some (p, m), es')"
  shows "0 < m" "m < 128" "m mod 4 = 0" "p AND mask_bits m = p" "es' = es"
proof -
  from assms obtain addr and m32 :: u32 where "\<not> m32 > 128" "m = ucast m32" "4 dvd m" "m \<noteq> 0" "m \<noteq> 128"
    "p = addr AND mask_bits m" "es' = es"
    by (simp only: compile_network_def Let_def split: option.splits prod.splits if_splits) auto
  moreover from this have "unat m = unat m32"
    by (auto simp: not_less word_le_nat_alt unsigned_ucast_eq take_bit_nat_eq_self)
  ultimately have "unat m \<le> 128" "m \<noteq> 128" by (auto simp: not_less word_le_nat_alt)
  then have "m \<le> 128" "m \<noteq> 128" by (auto simp: word_le_nat_alt)
  then show "m < 128" by simp
  show "0 < m" using \<open>m \<noteq> 0\<close> by (simp add: word_gt_0)
  show "m mod 4 = 0" using \<open>4 dvd m\<close> by (rule u8_dvd_4)
  show "es' = es" by fact
  show "p AND mask_bits m = p" using \<open>p = addr AND mask_bits m\<close> by (simp add: and.assoc)
qed

lemma compile_zone_Some:
  assumes "compile_zone H raw es seen = (Some z, es', seen')"
  shows "wf_zone H z" and "es' = es"
    and "fst seen (zn_prefix z, zn_mask z) = None" "snd seen (to_ascii_lowercase (zn_resolves_to z)) = None"
    and "fst seen' = (fst seen)((zn_prefix z, zn_mask z) \<mapsto> zn_src_line z)"
    and "\<exists>l. snd seen' = (snd seen)(to_ascii_lowercase (zn_resolves_to z) \<mapsto> l)"
proof -
  from assms obtain p m es1 rt fwd es2 u pz fp where
    net: "compile_network (rz_network raw) es = (Some (p, m), es1)"
    and tmpl: "compile_template H rt (saturating_sub 128 m div 4) es1 = (Some fwd, es2)"
    and "netmask_to_ptr_name H p m = Some pz" "parent H fwd = Inr fp"
    and z: "z = \<lparr>zn_src_line = rv_line (rz_network raw), zn_prefix = p, zn_mask = m,
            zn_host_nibbles = saturating_sub 128 m div 4, zn_ptr_zone = pz,
            zn_resolves_to = rv_value rt, zn_fwd = fwd, zn_fwd_parent = fp,
            zn_ttl = DEFAULT_TTL, zn_upstream = u\<rparr>"
    and "es' = es2" and seen: "fst seen (p, m) = None" "snd seen (to_ascii_lowercase (rv_value rt)) = None"
      "seen' = ((fst seen)((p, m) \<mapsto> rv_line (rz_network raw)),
        (snd seen)(to_ascii_lowercase (rv_value rt) \<mapsto> rv_line rt))"
    by (simp add: compile_zone_def Let_def split: prod.splits option.splits sum.splits) auto
  moreover note n = compile_network_Some [OF net] and t = compile_template_Some [OF tmpl]
  moreover have "saturating_sub 128 m = 128 - m" using n(2) by (simp add: saturating_sub_def less_imp_le)
  ultimately show "wf_zone H z" "es' = es" unfolding wf_zone_def by simp_all
  show "fst seen (zn_prefix z, zn_mask z) = None" "snd seen (to_ascii_lowercase (zn_resolves_to z)) = None"
    "fst seen' = (fst seen)((zn_prefix z, zn_mask z) \<mapsto> zn_src_line z)"
    "\<exists>l. snd seen' = (snd seen)(to_ascii_lowercase (zn_resolves_to z) \<mapsto> l)"
    using seen z by auto
qed

section \<open>Errors only accumulate\<close>

text \<open>Every stage appends to the errors it is given; an empty result means none was found.\<close>

lemma compile_listen_errors: "Sublist.prefix es (snd (compile_listen v es))"
  by (auto simp: compile_listen_def split: option.splits)

lemma compile_listens_errors: "Sublist.prefix es (snd (compile_listens vs es))"
proof (induction vs arbitrary: es)
  case (Cons v vs)
  have "snd (compile_listens (v # vs) es) = snd (compile_listens vs (snd (compile_listen v es)))"
    by (simp add: Let_def case_prod_beta)
  then show ?case using prefix_order.trans [OF compile_listen_errors Cons] by simp
qed simp

lemma compile_listens_ok: "snd (compile_listens vs es) = es \<Longrightarrow> length (fst (compile_listens vs es)) = length vs"
proof (induction vs arbitrary: es)
  case (Cons v vs)
  let ?x = "compile_listen v es" and ?y = "compile_listens vs (snd (compile_listen v es))"
  have eq: "compile_listens (v # vs) es = (case fst ?x of None \<Rightarrow> fst ?y | Some a \<Rightarrow> a # fst ?y, snd ?y)"
    by (simp add: Let_def case_prod_beta)
  have "Sublist.prefix (snd ?x) es" using compile_listens_errors [of "snd ?x" vs] Cons.prems eq by simp
  then have "snd ?x = es" using compile_listen_errors [of es v] by (simp add: prefix_order.antisym)
  moreover from this obtain a where "fst ?x = Some a"
    by (auto simp: compile_listen_def split: option.splits)
  ultimately show ?case using Cons eq by simp
qed simp

lemma compile_global_errors: "Sublist.prefix es (snd (compile_global H g acc es))"
  by (cases "rg_key g")
    (auto simp: compile_global_def parse_name_def parse_u32_def Let_def split: sum.splits option.splits)

lemma compile_global_list_errors: "Sublist.prefix es (snd (compile_global_list H gs acc es))"
proof (induction gs arbitrary: acc es)
  case (Cons g gs)
  have "snd (compile_global_list H (g # gs) acc es) =
      snd (compile_global_list H gs (fst (compile_global H g acc es)) (snd (compile_global H g acc es)))"
    by (simp add: Let_def case_prod_beta)
  then show ?case using prefix_order.trans [OF compile_global_errors Cons] by simp
qed simp

lemma compile_globals_errors: "Sublist.prefix es (snd (compile_globals H raw es))"
proof -
  let ?acc = "\<lparr>ga_ttl = DEFAULT_TTL, ga_params = server_params_default, ga_primary = None,
    ga_hostmaster = None, ga_nameservers = []\<rparr>"
  let ?r = "compile_global_list H (rc_globals raw) ?acc es"
  have "\<exists>extra. snd (compile_globals H raw es) = snd ?r @ extra"
    by (auto simp: compile_globals_def Let_def case_prod_beta split: option.splits)
  then show ?thesis
    using prefix_order.trans [OF compile_global_list_errors [of es H "rc_globals raw" ?acc]] by fastforce
qed

lemma compile_network_None:
  "compile_network v es = (None, es') \<Longrightarrow> \<exists>e. es' = es @ [e]"
  by (auto simp: compile_network_def Let_def split: option.splits prod.splits if_splits)

lemma compile_template_None:
  "compile_template H v h es = (None, es') \<Longrightarrow> \<exists>e. es' = es @ [e]"
  by (auto simp: compile_template_def Let_def split: option.splits prod.splits if_splits sum.splits)

lemma compile_zone_None:
  assumes "compile_zone H raw es seen = (None, es', seen')"
  shows "\<exists>e. es' = es @ [e]"
proof (cases "compile_network (rz_network raw) es")
  case (Pair n es1)
  show ?thesis
  proof (cases n)
    case None
    with Pair assms show ?thesis by (auto simp: compile_zone_def dest: compile_network_None)
  next
    case (Some pm)
    obtain p m where pm: "pm = (p, m)" by (cases pm)
    with Pair Some have es1: "es1 = es" by (auto dest: compile_network_Some(5))
    show ?thesis
    proof (cases "rz_resolves_to raw")
      case (Some rt)
      obtain t es2 where t: "compile_template H rt (saturating_sub 128 m div 4) es = (t, es2)" by fastforce
      then have "case t of None \<Rightarrow> \<exists>e. es2 = es @ [e] | Some _ \<Rightarrow> es2 = es"
        by (cases t) (auto dest: compile_template_None compile_template_Some(3))
      with assms show ?thesis
        using Pair \<open>n = Some pm\<close> pm es1 Some t
        by (simp add: compile_zone_def Let_def split: option.splits sum.splits) auto
    qed (use assms Pair \<open>n = Some pm\<close> pm es1 in \<open>auto simp: compile_zone_def split: option.splits\<close>)
  qed
qed

lemma compile_zone_errors: "Sublist.prefix es (fst (snd (compile_zone H raw es seen)))"
proof (cases "compile_zone H raw es seen")
  case (fields z es' seen')
  then show ?thesis by (cases z) (auto dest: compile_zone_None compile_zone_Some(2))
qed

lemma compile_zones_Cons:
  "compile_zones H ttl (r # rs) es seen =
   (let x = compile_zone H r es seen; y = compile_zones H ttl rs (fst (snd x)) (snd (snd x))
    in (case fst x of None \<Rightarrow> fst y | Some z \<Rightarrow> z\<lparr>zn_ttl := ttl\<rparr> # fst y, snd y))"
  by (simp add: Let_def case_prod_beta)

lemma compile_zones_errors: "Sublist.prefix es (snd (compile_zones H ttl rs es seen))"
proof (induction rs arbitrary: es seen)
  case (Cons r rs)
  show ?case unfolding compile_zones_Cons
    using prefix_order.trans [OF compile_zone_errors Cons] by (simp add: Let_def)
qed simp

definition network_of :: "'n zone \<Rightarrow> u128 \<times> u8" where
  "network_of z = (zn_prefix z, zn_mask z)"

definition pattern_of :: "'n zone \<Rightarrow> bytes" where
  "pattern_of z = to_ascii_lowercase (zn_resolves_to z)"

text \<open>Without errors every block becomes a well-formed zone with a network and a pattern of its own.\<close>

lemma compile_zones_ok:
  assumes "compile_zones H ttl rs es seen = (zs, es)"
  shows "length zs = length rs \<and> (\<forall>z \<in> set zs. wf_zone H z \<and> zn_ttl z = ttl \<and>
      fst seen (network_of z) = None \<and> snd seen (pattern_of z) = None) \<and>
    distinct (map network_of zs) \<and> distinct (map pattern_of zs)"
  using assms
proof (induction rs arbitrary: seen zs)
  case (Cons r rs)
  obtain z es1 seen1 where z: "compile_zone H r es seen = (z, es1, seen1)" by (cases "compile_zone H r es seen")
  obtain ys where y: "compile_zones H ttl rs es1 seen1 = (ys, es)"
    and zs: "zs = (case z of None \<Rightarrow> ys | Some z \<Rightarrow> z\<lparr>zn_ttl := ttl\<rparr> # ys)"
    using Cons.prems by (auto simp: z split: prod.splits)
  have "Sublist.prefix es1 es" using compile_zones_errors [of es1 H ttl rs seen1] y by simp
  then obtain z' where z': "z = Some z'"
    using z by (cases z) (auto dest!: compile_zone_None prefix_length_le)
  note ok = compile_zone_Some [OF z [unfolded z']]
  from Cons.IH [of seen1 ys] y ok(2) have IH: "length ys = length rs"
    "\<forall>z \<in> set ys. wf_zone H z \<and> zn_ttl z = ttl \<and> fst seen1 (network_of z) = None \<and> snd seen1 (pattern_of z) = None"
    "distinct (map network_of ys)" "distinct (map pattern_of ys)" by auto
  have new: "fst seen1 = (fst seen)(network_of z' \<mapsto> zn_src_line z')" "fst seen (network_of z') = None"
    "snd seen (pattern_of z') = None" "\<exists>l. snd seen1 = (snd seen)(pattern_of z' \<mapsto> l)"
    using ok(3-6) by (simp_all add: network_of_def pattern_of_def)
  have fresh: "network_of z' \<notin> network_of ` set ys" "pattern_of z' \<notin> pattern_of ` set ys"
    and old: "\<forall>z \<in> set ys. fst seen (network_of z) = None \<and> snd seen (pattern_of z) = None"
    using IH(2) new by (auto split: if_splits)
  have same: "network_of (z'\<lparr>zn_ttl := ttl\<rparr>) = network_of z'" "pattern_of (z'\<lparr>zn_ttl := ttl\<rparr>) = pattern_of z'"
    by (simp_all add: network_of_def pattern_of_def)
  have "wf_zone H (z'\<lparr>zn_ttl := ttl\<rparr>) = wf_zone H z'" unfolding wf_zone_def by simp
  with ok(1) have "wf_zone H (z'\<lparr>zn_ttl := ttl\<rparr>)" by simp
  note same = same this
  show ?case using IH new(2,3) fresh old same by (simp add: zs z')
qed simp

section \<open>A compiled configuration\<close>

definition wf_params :: "server_params \<Rightarrow> bool" where
  "wf_params p \<longleftrightarrow> 512 \<le> sp_max_udp_payload p \<and>
     1 \<le> sp_upstream_timeout p \<and> sp_upstream_timeout p \<le> 10000 \<and>
     1 \<le> rp_responses_per_second (sp_rrl p) \<and> 1 \<le> rp_burst (sp_rrl p) \<and>
     rp_ipv4_prefix (sp_rrl p) = 24 \<and> rp_ipv6_prefix (sp_rrl p) = 64"

lemma timeout_ucast: "1 \<le> n \<Longrightarrow> n \<le> 10000 \<Longrightarrow> 1 \<le> (ucast (n :: u32) :: u64) \<and> (ucast n :: u64) \<le> 10000"
  using unsigned_less [where ?'a = nat, of n]
  by (simp add: word_le_nat_alt unsigned_ucast_eq take_bit_nat_eq_self)

lemma compile_global_wf:
  assumes "wf_params (ga_params acc)" and "ga_ttl acc \<le> 0x7FFFFFFF"
  shows "wf_params (ga_params (fst (compile_global H g acc es))) \<and>
    ga_ttl (fst (compile_global H g acc es)) \<le> 0x7FFFFFFF"
  using assms
  by (cases "rg_key g")
    (auto simp: compile_global_def parse_name_def parse_u32_def set_rrl_def wf_params_def Let_def
      dest: timeout_ucast split: sum.splits option.splits)

lemma compile_global_list_wf:
  assumes "wf_params (ga_params acc)" and "ga_ttl acc \<le> 0x7FFFFFFF"
  shows "wf_params (ga_params (fst (compile_global_list H gs acc es))) \<and>
    ga_ttl (fst (compile_global_list H gs acc es)) \<le> 0x7FFFFFFF"
  using assms
proof (induction gs arbitrary: acc es)
  case (Cons g gs)
  have "compile_global_list H (g # gs) acc es =
      compile_global_list H gs (fst (compile_global H g acc es)) (snd (compile_global H g acc es))"
    by (simp add: Let_def case_prod_beta)
  then show ?case using Cons.IH compile_global_wf [OF Cons.prems, of H g es] by simp
qed simp

lemma compile_globals_wf:
  "wf_params (gl_params (fst (compile_globals H raw es))) \<and> gl_ttl (fst (compile_globals H raw es)) \<le> 0x7FFFFFFF"
proof -
  let ?acc = "\<lparr>ga_ttl = DEFAULT_TTL, ga_params = server_params_default, ga_primary = None,
    ga_hostmaster = None, ga_nameservers = []\<rparr>"
  have "wf_params (ga_params ?acc)" "ga_ttl ?acc \<le> 0x7FFFFFFF"
    by (simp_all add: wf_params_def server_params_default_def rrl_params_default_def DEFAULT_TTL_def)
  from compile_global_list_wf [OF this] show ?thesis
    by (simp add: compile_globals_def Let_def case_prod_beta split: option.splits)
qed

lemma sorted_sort_zones: "sorted_wrt (\<lambda>z z'. zn_mask z' \<le> zn_mask z) (sort_zones zs)"
proof -
  have "sorted (map (\<lambda>z. - uint (zn_mask z)) (sort_zones zs))" by (simp add: sort_zones_def)
  then show ?thesis by (simp add: sorted_map word_le_def)
qed

lemma distinct_map_sort_zones: "distinct (map f (sort_zones zs)) \<longleftrightarrow> distinct (map f zs)"
proof -
  have "mset (map f (sort_zones zs)) = mset (map f zs)" by (simp add: sort_zones_def)
  then show ?thesis by (rule mset_eq_imp_distinct_iff)
qed

lemma compile_errors: "Sublist.prefix es (snd (compile H raw es))"
  unfolding compile_def Let_def case_prod_beta snd_conv
  by (rule prefix_order.trans [OF prefix_order.trans [OF compile_listens_errors compile_globals_errors]
        compile_zones_errors])

lemma compile_ok:
  assumes "compile H raw es = (c, es)"
  shows "wf_config H c" and "length (cf_zones c) = length (rc_zones raw)"
    and "distinct (map network_of (cf_zones c))" "distinct (map pattern_of (cf_zones c))"
    and "wf_params (cf_params c)" and "\<forall>z \<in> set (cf_zones c). zn_ttl z \<le> 0x7FFFFFFF"
    and "length (cf_listen c) = length (rc_listen raw)"
proof -
  obtain ls es1 where l: "compile_listens (rc_listen raw) es = (ls, es1)" by fastforce
  obtain g es2 where g: "compile_globals H raw es1 = (g, es2)" by fastforce
  obtain zs es3 where z: "compile_zones H (gl_ttl g) (rc_zones raw) es2 (Map.empty, Map.empty) = (zs, es3)"
    by fastforce
  have c: "c = \<lparr>cf_listen = ls, cf_zones = sort_zones zs, cf_soa = gl_soa g,
      cf_nameservers = gl_nameservers g, cf_params = gl_params g\<rparr>" and "es3 = es"
    using assms by (simp_all add: compile_def l g z)
  have "Sublist.prefix es es1" "Sublist.prefix es1 es2" "Sublist.prefix es2 es3"
    using compile_listens_errors [of es "rc_listen raw"] compile_globals_errors [of es1 H raw]
      compile_zones_errors [of es2 H "gl_ttl g" "rc_zones raw" "(Map.empty, Map.empty)"] l g z by simp_all
  then have es: "es1 = es" "es2 = es" using \<open>es3 = es\<close> by (auto dest: prefix_order.antisym prefix_order.trans)
  from compile_zones_ok [OF z [unfolded es \<open>es3 = es\<close>]] have zs: "length zs = length (rc_zones raw)"
    "\<forall>z \<in> set zs. wf_zone H z \<and> zn_ttl z = gl_ttl g" "distinct (map network_of zs)" "distinct (map pattern_of zs)"
    by auto
  have set: "set (sort_zones zs) = set zs" by (simp add: sort_zones_def)
  show "wf_config H c" using zs(2) by (simp add: wf_config_def c sorted_sort_zones list_all_iff set)
  show "length (cf_zones c) = length (rc_zones raw)" using zs(1) by (simp add: c sort_zones_def)
  show "distinct (map network_of (cf_zones c))" "distinct (map pattern_of (cf_zones c))"
    using zs(3,4) by (simp_all add: c distinct_map_sort_zones)
  show "wf_params (cf_params c)" "\<forall>z \<in> set (cf_zones c). zn_ttl z \<le> 0x7FFFFFFF"
    using compile_globals_wf [of H raw es1] zs(2) g by (simp_all add: c set)
  show "length (cf_listen c) = length (rc_listen raw)"
    using compile_listens_ok [of "rc_listen raw" es] l es by (simp add: c)
qed

section \<open>Errors point into their line\<close>

abbreviation all_placed :: "(u32 \<Rightarrow> bytes \<Rightarrow> bool) \<Rightarrow> errors \<Rightarrow> bool" where
  "all_placed L es \<equiv> list_all (well_placed L) es"

lemma compile_listens_placed:
  "list_all (rv_ok L) vs \<Longrightarrow> all_placed L es \<Longrightarrow> all_placed L (snd (compile_listens vs es))"
proof (induction vs arbitrary: es)
  case (Cons v vs)
  have "all_placed L (snd (compile_listen v es))"
    using Cons.prems by (auto simp: compile_listen_def rv_error_placed split: option.splits)
  then show ?case using Cons.IH [of "snd (compile_listen v es)"] Cons.prems by (simp add: Let_def case_prod_beta)
qed simp

lemma compile_global_placed:
  "rv_ok L (rg_value g) \<Longrightarrow> all_placed L es \<Longrightarrow> all_placed L (snd (compile_global H g acc es))"
  by (cases "rg_key g")
    (auto simp: compile_global_def parse_name_def parse_u32_def Let_def rv_error_placed
      split: sum.splits option.splits)

lemma compile_global_list_placed:
  "list_all (\<lambda>g. rv_ok L (rg_value g)) gs \<Longrightarrow> all_placed L es \<Longrightarrow> all_placed L (snd (compile_global_list H gs acc es))"
proof (induction gs arbitrary: acc es)
  case (Cons g gs)
  then show ?case
    using Cons.IH [of "snd (compile_global H g acc es)" "fst (compile_global H g acc es)"]
      compile_global_placed [of L g es H acc] by (simp add: Let_def case_prod_beta)
qed simp

text \<open>A companion is missing only where the other one is given, so that the error has an anchor.\<close>

lemma compile_global_named:
  "(ga_primary (fst (compile_global H g acc es)) \<noteq> None \<longrightarrow> ga_primary acc \<noteq> None \<or> rg_key g = GK_Primary) \<and>
   (ga_hostmaster (fst (compile_global H g acc es)) \<noteq> None \<longrightarrow> ga_hostmaster acc \<noteq> None \<or> rg_key g = GK_Hostmaster)"
  by (cases "rg_key g")
    (simp_all add: compile_global_def set_rrl_def Let_def case_prod_beta split: option.split)

lemma compile_global_list_named:
  "(ga_primary (fst (compile_global_list H gs acc es)) \<noteq> None \<longrightarrow>
      ga_primary acc \<noteq> None \<or> (\<exists>g \<in> set gs. rg_key g = GK_Primary)) \<and>
   (ga_hostmaster (fst (compile_global_list H gs acc es)) \<noteq> None \<longrightarrow>
      ga_hostmaster acc \<noteq> None \<or> (\<exists>g \<in> set gs. rg_key g = GK_Hostmaster))"
proof (induction gs arbitrary: acc es)
  case (Cons g gs)
  let ?x = "compile_global H g acc es"
  have "compile_global_list H (g # gs) acc es = compile_global_list H gs (fst ?x) (snd ?x)"
    by (simp add: Let_def case_prod_beta)
  with Cons [of "fst ?x" "snd ?x"] compile_global_named [of H g acc es] show ?case by auto
qed simp

lemma missing_pair_placed:
  assumes "raw_ok L raw" and "\<exists>g \<in> set (rc_globals raw). rg_key g = GK_Primary \<or> rg_key g = GK_Hostmaster"
  shows "well_placed L (missing_pair_error raw a b)"
proof (cases "find (\<lambda>g. rg_key g = GK_Primary \<or> rg_key g = GK_Hostmaster) (rc_globals raw)")
  case (Some x)
  then have "rv_ok L (rg_value x)" using assms(1) by (auto simp: raw_ok_def find_Some_iff list_all_iff)
  then show ?thesis by (simp add: missing_pair_error_def Some rv_error_placed)
qed (use assms(2) in \<open>auto simp: find_None_iff\<close>)

lemma compile_globals_placed:
  assumes "raw_ok L raw" and "all_placed L es"
  shows "all_placed L (snd (compile_globals H raw es))"
proof -
  define r where "r = compile_global_list H (rc_globals raw) \<lparr>ga_ttl = DEFAULT_TTL, ga_params = server_params_default,
    ga_primary = None, ga_hostmaster = None, ga_nameservers = []\<rparr> es"
  have g: "list_all (\<lambda>g. rv_ok L (rg_value g)) (rc_globals raw)" using assms(1) by (simp add: raw_ok_def)
  have "all_placed L (snd r)" unfolding r_def by (rule compile_global_list_placed [OF g assms(2)])
  moreover have "well_placed L (missing_pair_error raw a b)"
    if "ga_primary (fst r) \<noteq> None \<or> ga_hostmaster (fst r) \<noteq> None" for a b
    using that compile_global_list_named [of H "rc_globals raw" _ es] unfolding r_def
    by (intro missing_pair_placed [OF assms(1)]) fastforce
  ultimately show ?thesis
    unfolding compile_globals_def r_def [symmetric] by (auto simp: Let_def case_prod_beta split: option.splits)
qed

lemma compile_network_placed: "rv_ok L v \<Longrightarrow> all_placed L es \<Longrightarrow> all_placed L (snd (compile_network v es))"
  by (auto simp: compile_network_def Let_def rv_error_placed rv_error_at_placed split: option.splits)

lemma compile_template_placed: "rv_ok L v \<Longrightarrow> all_placed L es \<Longrightarrow> all_placed L (snd (compile_template H v h es))"
  by (auto simp: compile_template_def Let_def rv_error_placed split: option.splits sum.splits)

lemma compile_zone_placed:
  assumes "zone_ok L raw" and "all_placed L es"
  shows "all_placed L (fst (snd (compile_zone H raw es seen)))"
proof -
  have rv: "rv_ok L (rz_network raw)" "\<And>v. rz_resolves_to raw = Some v \<Longrightarrow> rv_ok L v"
    "\<And>v. rz_upstream raw = Some v \<Longrightarrow> rv_ok L v"
    using assms(1) by (auto simp: zone_ok_def)
  have "all_placed L es1" if "compile_network (rz_network raw) es = (n, es1)" for n es1
    using compile_network_placed [OF rv(1) assms(2)] that by simp
  moreover have "all_placed L es2" if "rz_resolves_to raw = Some v" "compile_template H v h es1 = (t, es2)"
    "all_placed L es1" for v h t es1 es2
    using compile_template_placed [OF rv(2) [OF that(1)] that(3), of H h] that(2) by simp
  ultimately show ?thesis using rv
    by (auto simp: compile_zone_def Let_def rv_error_placed split: option.splits prod.splits sum.splits)
qed

lemma compile_zones_placed:
  "list_all (zone_ok L) rs \<Longrightarrow> all_placed L es \<Longrightarrow> all_placed L (snd (compile_zones H ttl rs es seen))"
proof (induction rs arbitrary: es seen)
  case (Cons r rs)
  then show ?case unfolding compile_zones_Cons by (simp add: Let_def compile_zone_placed)
qed simp

lemma compile_placed:
  assumes "raw_ok L raw" and "all_placed L es"
  shows "all_placed L (snd (compile H raw es))"
  using assms unfolding compile_def Let_def case_prod_beta
  by (simp add: compile_zones_placed compile_globals_placed compile_listens_placed raw_ok_def)

section \<open>Every stage reports its own errors\<close>

text \<open>What a stage gives does not depend on the errors before it, and its own are appended.\<close>

lemma compile_listen_own: "compile_listen v [] = (l, e) \<Longrightarrow> compile_listen v es = (l, es @ e)"
  by (auto simp: compile_listen_def split: option.splits)

lemma compile_listen_counts: "compile_listen v [] = (l, e) \<Longrightarrow> length e = (case l of None \<Rightarrow> 1 | Some _ \<Rightarrow> 0)"
  by (auto simp: compile_listen_def split: option.splits)

lemma compile_listens_own:
  "snd (compile_listens vs es) = es @ concat (map (\<lambda>v. snd (compile_listen v [])) vs) \<and>
   fst (compile_listens vs es) = List.map_filter (\<lambda>v. fst (compile_listen v [])) vs"
proof (induction vs arbitrary: es)
  case (Cons v vs)
  obtain l e where l: "compile_listen v [] = (l, e)" by fastforce
  from compile_listen_own [OF l, of es] show ?case
    using Cons [of "es @ e"] by (simp add: l Let_def case_prod_beta map_filter_simps split: option.split)
qed (simp add: map_filter_simps)

lemma compile_listens_counts:
  "length (fst (compile_listens vs es)) + length (concat (map (\<lambda>v. snd (compile_listen v [])) vs)) = length vs"
  unfolding compile_listens_own [THEN conjunct2]
proof (induction vs)
  case (Cons v vs)
  obtain l e where l: "compile_listen v [] = (l, e)" by fastforce
  with Cons compile_listen_counts [OF l] show ?case by (simp add: map_filter_simps split: option.splits)
qed (simp add: map_filter_simps)

lemma compile_global_own:
  "compile_global H g acc es = (fst (compile_global H g acc []), es @ snd (compile_global H g acc' []))"
  by (cases "rg_key g")
    (auto simp: compile_global_def parse_name_def parse_u32_def Let_def split: sum.splits option.splits)

lemma compile_global_list_own:
  "snd (compile_global_list H gs acc es) = es @ concat (map (\<lambda>g. snd (compile_global H g acc' [])) gs) \<and>
   fst (compile_global_list H gs acc es) = fst (compile_global_list H gs acc [])"
proof (induction gs arbitrary: acc es)
  case (Cons g gs)
  let ?e = "snd (compile_global H g acc' [])" and ?a = "fst (compile_global H g acc [])"
  have step: "compile_global_list H (g # gs) acc es = compile_global_list H gs ?a (es @ ?e)" for es
    using compile_global_own [of H g acc es acc'] by (simp add: Let_def)
  show ?case
    unfolding step using Cons [of ?a "es @ ?e"] Cons [of ?a ?e] by simp
qed simp

text \<open>The name a \<open>primary\<close> or a \<open>hostmaster\<close> gives, the last one when there are several.\<close>

definition named :: "'n dns_lib \<Rightarrow> global_key \<Rightarrow> raw_global list \<Rightarrow> 'n option" where
  "named H k gs =
    (let given = filter (\<lambda>g. rg_key g = k) gs
     in if given = [] then None
        else (case from_str_relaxed H (rv_value (rg_value (last given))) of
                Inr n \<Rightarrow> Some (set_fqdn H n True) | Inl _ \<Rightarrow> None))"

definition companion_errors :: "'n dns_lib \<Rightarrow> raw_config \<Rightarrow> errors" where
  "companion_errors H raw =
    (let primary = named H GK_Primary (rc_globals raw) \<noteq> None; hostmaster = named H GK_Hostmaster (rc_globals raw) \<noteq> None
     in if primary \<and> \<not> hostmaster then [missing_pair_error raw ''hostmaster'' ''primary'']
        else if hostmaster \<and> \<not> primary then [missing_pair_error raw ''primary'' ''hostmaster'']
        else [])"

lemma named_Cons:
  "named H k (g # gs) = (if \<exists>g \<in> set gs. rg_key g = k then named H k gs else if rg_key g = k then named H k [g] else None)"
  by (auto simp: named_def Let_def filter_empty_conv)

lemma compile_global_name:
  "ga_primary (fst (compile_global H g acc es)) = (if rg_key g = GK_Primary then named H GK_Primary [g] else ga_primary acc) \<and>
   ga_hostmaster (fst (compile_global H g acc es)) = (if rg_key g = GK_Hostmaster then named H GK_Hostmaster [g] else ga_hostmaster acc)"
  by (cases "rg_key g")
    (simp_all add: compile_global_def parse_name_def set_rrl_def named_def Let_def case_prod_beta split: option.split sum.split)

lemma compile_global_list_name:
  "ga_primary (fst (compile_global_list H gs acc es)) =
     (if \<exists>g \<in> set gs. rg_key g = GK_Primary then named H GK_Primary gs else ga_primary acc) \<and>
   ga_hostmaster (fst (compile_global_list H gs acc es)) =
     (if \<exists>g \<in> set gs. rg_key g = GK_Hostmaster then named H GK_Hostmaster gs else ga_hostmaster acc)"
proof (induction gs arbitrary: acc es)
  case (Cons g gs)
  let ?x = "compile_global H g acc es"
  have "compile_global_list H (g # gs) acc es = compile_global_list H gs (fst ?x) (snd ?x)"
    by (simp add: Let_def case_prod_beta)
  then show ?case
    by (simp only: Cons [of "fst ?x" "snd ?x"] compile_global_name [of H g acc es] named_Cons [of H _ g gs]) auto
qed simp

lemma named_absent: "\<not> (\<exists>g \<in> set gs. rg_key g = k) \<Longrightarrow> named H k gs = None"
  by (auto simp: named_def Let_def filter_empty_conv)

lemma compile_globals_own:
  "compile_globals H raw es = (fst (compile_globals H raw []),
     es @ concat (map (\<lambda>g. snd (compile_global H g acc [])) (rc_globals raw)) @ companion_errors H raw) \<and>
   (gl_soa (fst (compile_globals H raw [])) \<noteq> None \<longleftrightarrow>
     named H GK_Primary (rc_globals raw) \<noteq> None \<and> named H GK_Hostmaster (rc_globals raw) \<noteq> None)"
proof -
  let ?start = "\<lparr>ga_ttl = DEFAULT_TTL, ga_params = server_params_default, ga_primary = None, ga_hostmaster = None,
    ga_nameservers = []\<rparr>"
  define a where "a = fst (compile_global_list H (rc_globals raw) ?start [])"
  define ge where "ge = concat (map (\<lambda>g. snd (compile_global H g acc [])) (rc_globals raw))"
  have l: "compile_global_list H (rc_globals raw) ?start es = (a, es @ ge)" for es
    using compile_global_list_own [of H "rc_globals raw" ?start es acc] by (simp add: a_def ge_def prod_eq_iff)
  have names: "ga_primary a = named H GK_Primary (rc_globals raw)" "ga_hostmaster a = named H GK_Hostmaster (rc_globals raw)"
    using compile_global_list_name [of H "rc_globals raw" ?start "[]"] unfolding a_def
    by (simp_all split: if_splits add: named_absent)
  show ?thesis
    unfolding compile_globals_def l prod.case Let_def ge_def [symmetric] companion_errors_def names [symmetric]
    by (cases "ga_primary a"; cases "ga_hostmaster a") simp_all
qed

lemma compile_network_appends: "compile_network v es = (fst (compile_network v []), es @ snd (compile_network v []))"
  unfolding compile_network_def Let_def by (simp split: option.split)

lemma compile_network_own: "compile_network v [] = (n, e) \<Longrightarrow> compile_network v es = (n, es @ e)"
  using compile_network_appends [of v es] by simp

lemma compile_template_appends:
  "compile_template H v h es = (fst (compile_template H v h []), es @ snd (compile_template H v h []))"
proof -
  let ?low = "to_ascii_lowercase (rv_value v)"
  let ?n = "match_count ?low PLACEHOLDER + match_count ?low PLACEHOLDER_DASHED"
  let ?r = "template_loop 0 (split_char CHR ''.'' (case strip_suffix_char (rv_value v) CHR ''.'' of Some t \<Rightarrow> t | None \<Rightarrow> rv_value v))
    ([], None, False)"
  have unfold: "compile_template H v h es =
      (if ?n = 0 then (None, es @ [rv_error v PlaceholderMissing])
       else if ?n \<noteq> 1 then (None, es @ [rv_error v (PlaceholderRepeated ?n)])
       else (case ?r of
           Inl reason \<Rightarrow> (None, es @ [rv_error v (ResolvesToInvalidName reason)])
         | Inr (labels, None, d) \<Rightarrow>
             (None, es @ [rv_error v (ResolvesToInvalidName ''placeholder does not lie within a single label'')])
         | Inr (labels, Some k, d) \<Rightarrow>
             if d \<and> h mod 4 \<noteq> 0 then (None, es @ [rv_error v (DashedDigitsNotNibbleMultipleOfFour h)])
             else (case render H \<lparr>ft_labels = labels, ft_digits_at = k\<rparr> (widest h) of
                 Inl e \<Rightarrow> (None, es @ [rv_error v (ForwardNameTooLong e)])
               | Inr _ \<Rightarrow> (Some \<lparr>ft_labels = labels, ft_digits_at = k\<rparr>, es))))" for es
    by (simp only: compile_template_def Let_def)
  consider "?n = 0" | "?n \<noteq> 0" "?n \<noteq> 1"
    | reason where "?n = 1" "?r = Inl reason"
    | labels d where "?n = 1" "?r = Inr (labels, None, d)"
    | labels k d where "?n = 1" "?r = Inr (labels, Some k, d)" "d \<and> h mod 4 \<noteq> 0"
    | labels k d where "?n = 1" "?r = Inr (labels, Some k, d)" "\<not> (d \<and> h mod 4 \<noteq> 0)"
    by (cases ?r) (metis prod_cases3 option.exhaust)+
  then show ?thesis
  proof cases
    case 6
    then show ?thesis
      unfolding unfold [of es] unfold [of "[]"]
      by (cases "render H \<lparr>ft_labels = labels, ft_digits_at = k\<rparr> (widest h)")
        (simp_all only: if_False if_True sum.case prod.case option.case, simp_all)
  qed (simp_all only: unfold [of es] unfold [of "[]"], simp_all)
qed

lemma compile_template_own: "compile_template H v h [] = (t, e) \<Longrightarrow> compile_template H v h es = (t, es @ e)"
  using compile_template_appends [of H v h es] by simp

lemma compile_zone_appends:
  "compile_zone H raw es seen =
   (fst (compile_zone H raw [] seen), es @ fst (snd (compile_zone H raw [] seen)), snd (snd (compile_zone H raw [] seen)))"
proof (cases "compile_network (rz_network raw) []")
  case (Pair n e1)
  note net = Pair compile_network_own [OF Pair, of es]
  show ?thesis
  proof (cases n)
    case None
    with net show ?thesis by (simp add: compile_zone_def)
  next
    case (Some pm)
    then obtain p m where pm: "n = Some (p, m)" by (cases pm) auto
    with Pair have "e1 = []" by (auto dest: compile_network_Some(5))
    note net = net [unfolded pm this append_Nil2]
    show ?thesis
    proof (cases "rz_resolves_to raw")
      case None
      with net show ?thesis by (simp add: compile_zone_def split: option.split)
    next
      case (Some rt)
      let ?T = "compile_template H rt (saturating_sub 128 m div 4)"
      let ?up = "case rz_upstream raw of None \<Rightarrow> Inr None
        | Some v \<Rightarrow> (case ip_from_str (rv_value v) of Some addr \<Rightarrow> Inr (Some addr) | None \<Rightarrow> Inl (rv_error v InvalidUpstreamAddress))"
      obtain t e2 where T: "?T [] = (t, e2)" by fastforce
      note eqs = net Some T compile_template_own [OF T, of es]
      show ?thesis
      proof (cases t)
        case None
        with eqs show ?thesis by (simp add: compile_zone_def Let_def split: option.split)
      next
        case t: (Some fwd)
        with T have "e2 = []" by (auto dest: compile_template_Some(3))
        note eqs = eqs [unfolded t this append_Nil2]
        show ?thesis
          unfolding compile_zone_def Let_def
          by (cases ?up) (simp_all only: eqs prod.case option.case sum.case, simp_all split: option.split sum.split)
      qed
    qed
  qed
qed

lemma compile_zone_own:
  "compile_zone H raw [] seen = (z, e, seen') \<Longrightarrow> compile_zone H raw es seen = (z, es @ e, seen')"
  using compile_zone_appends [of H raw es seen] by simp

lemma compile_zone_counts:
  "compile_zone H raw [] seen = (z, e, seen') \<Longrightarrow> length e = (case z of None \<Rightarrow> 1 | Some _ \<Rightarrow> 0)"
  by (cases z) (auto dest: compile_zone_None compile_zone_Some(2))

text \<open>The errors of the networks, each against the networks and templates before it.\<close>

fun zones_errors :: "'n dns_lib \<Rightarrow> raw_zone list \<Rightarrow> seen \<Rightarrow> errors" where
  "zones_errors H [] seen = []"
| "zones_errors H (r # rs) seen = (case compile_zone H r [] seen of (z, e, seen') \<Rightarrow> e @ zones_errors H rs seen')"

lemma compile_zones_own:
  "compile_zones H ttl rs es seen = (fst (compile_zones H ttl rs [] seen), es @ zones_errors H rs seen) \<and>
   length (fst (compile_zones H ttl rs [] seen)) + length (zones_errors H rs seen) = length rs"
proof (induction rs arbitrary: es seen)
  case (Cons r rs)
  obtain z e seen' where z: "compile_zone H r [] seen = (z, e, seen')" by (cases "compile_zone H r [] seen")
  define zs where "zs = fst (compile_zones H ttl rs [] seen')"
  have IH: "compile_zones H ttl rs es' seen' = (zs, es' @ zones_errors H rs seen')"
    "length zs + length (zones_errors H rs seen') = length rs" for es'
    unfolding zs_def using Cons [of es' seen'] by blast+
  have all: "compile_zones H ttl (r # rs) es' seen =
      (case z of None \<Rightarrow> zs | Some z \<Rightarrow> z\<lparr>zn_ttl := ttl\<rparr> # zs, es' @ e @ zones_errors H rs seen')" for es'
    by (simp add: compile_zone_own [OF z, of es'] IH(1) del: Cons.IH)
  show ?case
    unfolding all using IH(2) compile_zone_counts [OF z] by (cases z) (simp_all add: z)
qed simp

lemma compile_own:
  assumes "compile H raw [] = (c, e)"
  shows "compile H raw es = (c, es @ e)"
    and "e = concat (map (\<lambda>v. snd (compile_listen v [])) (rc_listen raw)) @
      concat (map (\<lambda>g. snd (compile_global H g acc [])) (rc_globals raw)) @ companion_errors H raw @
      zones_errors H (rc_zones raw) (Map.empty, Map.empty)"
    and "length (cf_listen c) + length (concat (map (\<lambda>v. snd (compile_listen v [])) (rc_listen raw))) = length (rc_listen raw)"
    and "length (cf_zones c) + length (zones_errors H (rc_zones raw) (Map.empty, Map.empty)) = length (rc_zones raw)"
    and "cf_soa c \<noteq> None \<longleftrightarrow>
      named H GK_Primary (rc_globals raw) \<noteq> None \<and> named H GK_Hostmaster (rc_globals raw) \<noteq> None"
proof -
  define le ge ze where "le = concat (map (\<lambda>v. snd (compile_listen v [])) (rc_listen raw))"
    and "ge = concat (map (\<lambda>g. snd (compile_global H g acc [])) (rc_globals raw)) @ companion_errors H raw"
    and "ze = zones_errors H (rc_zones raw) (Map.empty, Map.empty)"
  define ls where "ls = fst (compile_listens (rc_listen raw) [])"
  define gl where "gl = fst (compile_globals H raw [])"
  define zs where "zs = fst (compile_zones H (gl_ttl gl) (rc_zones raw) [] (Map.empty, Map.empty))"
  have l: "compile_listens (rc_listen raw) es = (ls, es @ le)" for es
    using compile_listens_own [of "rc_listen raw"] by (simp add: ls_def le_def prod_eq_iff)
  have g: "compile_globals H raw es = (gl, es @ ge)" for es
    using compile_globals_own [of H raw es acc] by (simp add: gl_def ge_def)
  have z: "compile_zones H (gl_ttl gl) (rc_zones raw) es (Map.empty, Map.empty) = (zs, es @ ze)" for es
    using compile_zones_own [of H "gl_ttl gl" "rc_zones raw" es] by (simp add: zs_def ze_def)
  define k where "k = \<lparr>cf_listen = ls, cf_zones = sort_zones zs, cf_soa = gl_soa gl,
    cf_nameservers = gl_nameservers gl, cf_params = gl_params gl\<rparr>"
  have all: "compile H raw es = (k, es @ le @ ge @ ze)" for es
    unfolding compile_def Let_def l prod.case g z k_def by simp
  with assms have c: "c = k" "e = le @ ge @ ze" by simp_all
  show "compile H raw es = (c, es @ e)" by (simp add: all c)
  show "e = concat (map (\<lambda>v. snd (compile_listen v [])) (rc_listen raw)) @
      concat (map (\<lambda>g. snd (compile_global H g acc [])) (rc_globals raw)) @ companion_errors H raw @
      zones_errors H (rc_zones raw) (Map.empty, Map.empty)"
    by (simp add: c le_def ge_def ze_def)
  show "length (cf_listen c) + length (concat (map (\<lambda>v. snd (compile_listen v [])) (rc_listen raw))) = length (rc_listen raw)"
    using compile_listens_counts [of "rc_listen raw" "[]"] by (simp add: c k_def ls_def)
  show "length (cf_zones c) + length (zones_errors H (rc_zones raw) (Map.empty, Map.empty)) = length (rc_zones raw)"
    using compile_zones_own [of H "gl_ttl gl" "rc_zones raw" "[]" "(Map.empty, Map.empty)"]
    by (simp add: c k_def sort_zones_def zs_def)
  show "cf_soa c \<noteq> None \<longleftrightarrow> named H GK_Primary (rc_globals raw) \<noteq> None \<and> named H GK_Hostmaster (rc_globals raw) \<noteq> None"
    using compile_globals_own [of H raw "[]" acc] by (simp add: c k_def gl_def)
qed

lemma config_parse_Inr:
  assumes "config_parse H input = Inr c"
  shows "snd (parse input) = []" and "compile H (fst (parse input)) [] = (c, [])"
proof -
  obtain raw es where p: "parse input = (raw, es)" by fastforce
  obtain c' es' where k: "compile H raw es = (c', es')" by fastforce
  from assms p k have "c' = c" "es' = []" by (auto simp: config_parse_def split: if_splits)
  moreover have "es = []" using compile_errors [of es H raw] k \<open>es' = []\<close> by simp
  ultimately show "snd (parse input) = []" "compile H (fst (parse input)) [] = (c, [])"
    using p k by simp_all
qed

section \<open>Properties\<close>

definition example_file :: bytes where
  "example_file = ''# example'' @ [CHR 0x0A] @ ''ttl 300'' @ [CHR 0x0A] @
     ''network 2001:DB8::/96'' @ [CHR 0x0D, CHR 0x0A] @
     ''  resolves  to Host-%DIGITS%.example.net'' @ [CHR 0x0A]"

lemma example_file_config: "config_parse rfc_lib example_file = Inr example_config"
  by code_simp

text \<open>
  Property C3. A configuration file accepted by \<open>Config::parse\<close> satisfies the invariants the
  request path relies on: every zone is well formed (a nibble-aligned network between /4 and
  /124 with no host bits, exactly one placeholder in the template, the widest name it can
  render is representable, the reverse and forward apexes are those of the network and the
  template), the zones are sorted longest prefix first, and no two zones have the same
  network or, without regard to case, the same template text.
\<close>

theorem config_parse_establishes_wf:
  assumes "config_parse H input = Inr c"
  shows "wf_config H c \<and> distinct (map network_of (cf_zones c)) \<and> distinct (map pattern_of (cf_zones c))"
  using compile_ok(1,3,4) [OF config_parse_Inr(2) [OF assms]] by simp

theorem config_parse_establishes_wf_witness:
  "wf_config rfc_lib example_config \<and> distinct (map network_of (cf_zones example_config)) \<and>
   distinct (map pattern_of (cf_zones example_config))"
  by (rule config_parse_establishes_wf [OF example_file_config])

text \<open>
  Property C21. Accepted parameters are in range: the advertised UDP payload is at least 512
  bytes, the upstream deadline between 1 and 10000 milliseconds, the rate and the burst at
  least 1, and the TTL of every zone has its top bit clear.
\<close>

theorem config_parse_params_in_range:
  assumes "config_parse H input = Inr c"
  shows "512 \<le> sp_max_udp_payload (cf_params c) \<and>
    1 \<le> sp_upstream_timeout (cf_params c) \<and> sp_upstream_timeout (cf_params c) \<le> 10000 \<and>
    1 \<le> rp_responses_per_second (sp_rrl (cf_params c)) \<and> 1 \<le> rp_burst (sp_rrl (cf_params c)) \<and>
    (\<forall>z \<in> set (cf_zones c). zn_ttl z < 0x80000000)"
  using compile_ok(5,6) [OF config_parse_Inr(2) [OF assms]]
  by (auto simp: wf_params_def word_le_nat_alt word_less_nat_alt)

theorem config_parse_params_in_range_witness:
  "512 \<le> sp_max_udp_payload (cf_params example_config)"
  using config_parse_params_in_range [OF example_file_config] by blast

text \<open>
  Property C29. Nothing is silently dropped and nothing is made up. A file is accepted exactly
  when neither the parser nor the compiler finds a problem, and otherwise the report is every
  problem of the parser followed by every problem of the compiler on what the parser recognised.
  Those are, in this order and no others: the problem of each unreadable \<open>listen\<close>, the problem of
  each global setting judged on its own, the one of a \<open>primary\<close> without a \<open>hostmaster\<close> or the other way
  round, and the problem of each network given those before it. Each \<open>listen\<close> and each \<open>network\<close> is
  either in the configuration or has one problem in the report, and there is an SOA exactly when
  both its names are given.
\<close>

theorem config_parse_reports_everything:
  "let (raw, parse_errors) = parse input;
       (config, compile_errors) = compile H raw [];
       listen_errors = concat (map (\<lambda>v. snd (compile_listen v [])) (rc_listen raw));
       global_errors = concat (map (\<lambda>g. snd (compile_global H g acc [])) (rc_globals raw));
       zone_errors = zones_errors H (rc_zones raw) (Map.empty, Map.empty)
   in config_parse H input =
        (if parse_errors = [] \<and> compile_errors = [] then Inr config
         else Inl (config_errors_new (parse_errors @ compile_errors))) \<and>
      compile_errors = listen_errors @ global_errors @ companion_errors H raw @ zone_errors \<and>
      length (cf_listen config) + length listen_errors = length (rc_listen raw) \<and>
      length (cf_zones config) + length zone_errors = length (rc_zones raw) \<and>
      (cf_soa config \<noteq> None \<longleftrightarrow>
        named H GK_Primary (rc_globals raw) \<noteq> None \<and> named H GK_Hostmaster (rc_globals raw) \<noteq> None)"
proof -
  obtain raw es where p: "parse input = (raw, es)" by fastforce
  obtain c es' where k: "compile H raw [] = (c, es')" by fastforce
  note own = compile_own [OF k]
  have r: "config_parse H input = (if es = [] \<and> es' = [] then Inr c else Inl (config_errors_new (es @ es')))"
    using own(1) [of es] by (simp add: config_parse_def p)
  show ?thesis
    unfolding p k Let_def prod.case using r own(2) [of acc] own(3-5) by blast
qed

text \<open>
  Property C34. Diagnostics point at what they are about: every problem reported for a file quotes
  a line of that file, under the number of that line, and is anchored to a range of bytes
  within it.
\<close>

theorem config_parse_errors_well_placed:
  assumes "length input \<le> usize_max" and "config_parse H input = Inl report" and "e \<in> set (cs_errors report)"
  shows "\<exists>i start stop. i < length (lines input) \<and> ce_line e = line_number i \<and>
    ce_snippet e = line_text (lines input ! i) \<and>
    ce_span e = Some (start, stop) \<and> start \<le> stop \<and> stop \<le> length (ce_snippet e)"
proof -
  obtain raw es where p: "parse input = (raw, es)" by fastforce
  obtain c es' where k: "compile H raw es = (c, es')" by fastforce
  have "raw_ok (quoted_line input) raw" "all_placed (quoted_line input) es"
    using parse_placed [OF assms(1)] by (simp_all add: p placed_def)
  then have "all_placed (quoted_line input) es'" using compile_placed [of "quoted_line input" raw es H] k by simp
  then have "well_placed (quoted_line input) e"
    using assms(2,3) by (auto simp: config_parse_def p k config_errors_new_def list_all_iff split: if_splits)
  then show ?thesis by (auto simp: well_placed_def quoted_line_def)
qed

theorem config_parse_errors_well_placed_witness:
  "let file = example_file @ ''network 2001:db8::1/63'' in
   \<exists>report e i start stop. config_parse rfc_lib file = Inl report \<and> cs_errors report = [e] \<and>
     i < length (lines file) \<and> ce_line e = line_number i \<and> ce_snippet e = line_text (lines file ! i) \<and>
     ce_span e = Some (start, stop) \<and> start \<le> stop \<and> stop \<le> length (ce_snippet e)"
proof -
  let ?f = "example_file @ ''network 2001:db8::1/63''"
  have "case config_parse rfc_lib ?f of Inl report \<Rightarrow> length (cs_errors report) = 1 | Inr _ \<Rightarrow> False" by code_simp
  then obtain report e where r: "config_parse rfc_lib ?f = Inl report" and e: "cs_errors report = [e]"
    by (auto simp: length_Suc_conv split: sum.splits)
  have "length ?f \<le> usize_max" by (simp add: example_file_def usize_max_def)
  from config_parse_errors_well_placed [OF this r, of e] r e show ?thesis unfolding Let_def by auto
qed

definition duplicate_file :: bytes where
  "duplicate_file = ''network 2001:db8:a::/96'' @ [CHR 0x0A] @ ''resolves to h-%DIGITS%.net'' @ [CHR 0x0A] @
     ''network 2001:db8:b::/96'' @ [CHR 0x0A] @ ''resolves to h-%DIGITS%.net.'' @ [CHR 0x0A]"

text \<open>
  The check for repeated templates compares their text, so a trailing dot slips
  past it: a file whose two networks have the same template, once with and once without the
  final dot, is accepted, and both zones synthesize into the same names.
\<close>

theorem trailing_dot_duplicates_template:
  "case config_parse rfc_lib duplicate_file of
     Inl _ \<Rightarrow> False
   | Inr c \<Rightarrow> (case cf_zones c of [z, z'] \<Rightarrow> zn_fwd z = zn_fwd z' \<and> zn_prefix z \<noteq> zn_prefix z' | _ \<Rightarrow> False)"
  by code_simp

text \<open>
  Property C39. A template of a single label makes its zone claim the whole namespace: its
  forward apex is the root, so no query is out of zone any more.
\<close>

theorem single_label_template_claims_root:
  assumes "dns_laws H" and "wf_config H c" and "z \<in> set (cf_zones c)" and "label_count (zn_fwd z) = 1"
  shows "zone_of H (zn_fwd_parent z) q \<and> resolve H c q t \<noteq> NoZone"
proof -
  note wf = wf_config_zone [OF assms(2,3)]
  obtain ls d rs where "ft_labels (zn_fwd z) = ls @ d # rs" "ft_digits_at (zn_fwd z) = length ls"
    using wf_zoneD(7) [OF wf] by (elim wf_templateE) blast
  with assms(4) have "ft_digits_at (zn_fwd z) = 0" "drop 1 (ft_labels (zn_fwd z)) = []"
    by (auto simp: label_count_def)
  then have "parent H (zn_fwd z) = (case from_labels H [] of Inl e \<Rightarrow> Inl e | Inr n \<Rightarrow> Inr (set_fqdn H n True))"
    by (simp add: parent_def saturating_add_def usize_max_def)
  with wf_zoneD(9) [OF wf] obtain n where n: "from_labels H [] = Inr n" "zn_fwd_parent z = set_fqdn H n True"
    by (auto split: sum.splits)
  then have "folded H (zn_fwd_parent z) = []"
    using dns_laws.folded_set_fqdn [OF assms(1)] dns_laws.folded_from_labels [OF assms(1) n(1)] by simp
  then have zone: "zone_of H (zn_fwd_parent z) q" by (simp add: dns_laws.zone_of_suffix [OF assms(1)])
  then have "zone_containing H c q \<noteq> None"
    using assms(3) by (auto simp: dns_laws.zone_containing_None [OF assms(1)])
  with zone show ?thesis by (auto simp: resolve_def split: option.splits)
qed

theorem single_label_template_claims_root_witness:
  "\<exists>c z. config_parse rfc_lib (''network 2001:db8::/96'' @ [CHR 0x0A] @ ''resolves to h%DIGITS%'') = Inr c \<and>
     z \<in> set (cf_zones c) \<and> zone_of rfc_lib (zn_fwd_parent z) ([''example'', ''com''], True) \<and>
     resolve rfc_lib c ([''example'', ''com''], True) RT_A \<noteq> NoZone"
proof -
  let ?f = "''network 2001:db8::/96'' @ [CHR 0x0A] @ ''resolves to h%DIGITS%''"
  have "case config_parse rfc_lib ?f of Inl _ \<Rightarrow> False
    | Inr c \<Rightarrow> (case cf_zones c of [z] \<Rightarrow> length (ft_labels (zn_fwd z)) = 1 | _ \<Rightarrow> False)" by code_simp
  then obtain c z where c: "config_parse rfc_lib ?f = Inr c" and z: "cf_zones c = [z]" "label_count (zn_fwd z) = 1"
    by (auto simp: label_count_def split: sum.splits list.splits)
  have "wf_config rfc_lib c"
    by (rule compile_ok(1) [OF config_parse_Inr(2) [OF c]])
  from single_label_template_claims_root [OF rfc.dns_laws_axioms this, of z] c z show ?thesis by auto
qed

end
