(* ===== verification/Zone_Data.thy ===== *)
theory Zone_Data
  imports Compile
begin

text \<open>
  What an operator believes to have configured: zone data. Were every record written out, a
  name would hold the PTR record of the address it spells, taken from the longest network
  that holds the address, and the AAAA record of every address whose forward name it is. The
  resolution of \<open>zone/mod.rs\<close>, which writes nothing out, refines this specification.
\<close>

section \<open>The specification\<close>

definition reverse_data :: "'n dns_lib \<Rightarrow> 'n config \<Rightarrow> 'n \<Rightarrow> 'n rdata set" where
  "reverse_data H c q = {RD_PTR n | n z a. folded H q = ptr_labels a \<and> z \<in> set (cf_zones c) \<and> in_network z a \<and>
     (\<forall>z' \<in> set (cf_zones c). in_network z' a \<longrightarrow> zn_mask z' \<le> zn_mask z) \<and> forward_name H z a = Some n}"

definition forward_data :: "'n dns_lib \<Rightarrow> 'n config \<Rightarrow> 'n \<Rightarrow> 'n rdata set" where
  "forward_data H c q = {RD_AAAA a | a z n. z \<in> set (cf_zones c) \<and> in_network z a \<and>
     forward_name H z a = Some n \<and> folded H n = folded H q}"

definition zone_data :: "'n dns_lib \<Rightarrow> 'n config \<Rightarrow> 'n \<Rightarrow> record_type \<Rightarrow> 'n rdata set" where
  "zone_data H c q t = {d \<in> reverse_data H c q \<union> forward_data H c q. rdata_type d = t \<or> t = RT_ANY}"

text \<open>
  The specification is ambiguous where two networks produce the same forward name, or a
  forward name is also the reverse name of an address.
\<close>

definition unambiguous :: "'n dns_lib \<Rightarrow> 'n config \<Rightarrow> bool" where
  "unambiguous H c \<longleftrightarrow>
     (\<forall>z \<in> set (cf_zones c). \<forall>a n. in_network z a \<longrightarrow> forward_name H z a = Some n \<longrightarrow>
        (\<forall>b. folded H n \<noteq> ptr_labels b) \<and>
        (\<forall>z' \<in> set (cf_zones c). \<forall>a' n'. in_network z' a' \<longrightarrow> forward_name H z' a' = Some n' \<longrightarrow>
           folded H n' = folded H n \<longrightarrow> z' = z))"

lemma unambiguous_reverse:
  "unambiguous H c \<Longrightarrow> z \<in> set (cf_zones c) \<Longrightarrow> in_network z a \<Longrightarrow> forward_name H z a = Some n \<Longrightarrow> folded H n \<noteq> ptr_labels b"
  unfolding unambiguous_def by blast

lemma unambiguous_zone:
  "unambiguous H c \<Longrightarrow> z \<in> set (cf_zones c) \<Longrightarrow> in_network z a \<Longrightarrow> forward_name H z a = Some n \<Longrightarrow>
   z' \<in> set (cf_zones c) \<Longrightarrow> in_network z' a' \<Longrightarrow> forward_name H z' a' = Some n' \<Longrightarrow> folded H n' = folded H n \<Longrightarrow> z' = z"
  unfolding unambiguous_def by blast

fun outcome_data :: "'n outcome \<Rightarrow> 'n rdata set" where
  "outcome_data (Answer z rs) = rr_data ` set rs"
| "outcome_data (NoName z) = {}"
| "outcome_data NoZone = {}"

section \<open>Refinement\<close>

lemma same_network:
  assumes "distinct (map network_of (cf_zones c))" and "z \<in> set (cf_zones c)" and "z' \<in> set (cf_zones c)"
    and "in_network z a" and "in_network z' a" and "zn_mask z = zn_mask z'"
  shows "z = z'"
proof -
  have "network_of z = network_of z'" using assms(4-6) by (simp add: network_of_def in_network_def)
  with assms(1-3) show ?thesis by (auto simp: distinct_map dest: inj_onD)
qed

context dns_laws
begin

lemma reverse_data_eq:
  assumes "wf_config H c" and "distinct (map network_of (cf_zones c))"
  shows "reverse_data H c q =
    (case match_ptr H c q of None \<Rightarrow> {} | Some (z, a) \<Rightarrow> {RD_PTR n | n. forward_name H z a = Some n})"
proof (cases "match_ptr H c q")
  case None
  have "\<not> (z \<in> set (cf_zones c) \<and> in_network z a)" if "folded H q = ptr_labels a" for z a
  proof -
    have "ptr_name_to_addr H q = Some a" using that by (simp add: ptr_name_to_addr_iff)
    with None show ?thesis by (auto simp: match_ptr_def zone_for_addr_None)
  qed
  with None show ?thesis unfolding reverse_data_def by auto
next
  case (Some p)
  obtain z a where p: "p = (z, a)" by (cases p)
  with Some have a: "folded H q = ptr_labels a" and z: "zone_for_addr c a = Some z"
    by (auto simp: match_ptr_def ptr_name_to_addr_iff split: option.splits)
  have one: "b = a" if "folded H q = ptr_labels b" for b
    using that a by (simp add: ptr_labels_eq_iff)
  have in_z: "z \<in> set (cf_zones c)" "in_network z a" using z by (auto dest: zone_for_addr_SomeD)
  have max: "\<forall>z' \<in> set (cf_zones c). in_network z' a \<longrightarrow> zn_mask z' \<le> zn_mask z"
    using zone_for_addr_maximal [OF assms(1) z] by blast
  have "reverse_data H c q = {RD_PTR n | n. forward_name H z a = Some n}"
  proof (intro set_eqI iffI)
    fix d assume "d \<in> reverse_data H c q"
    then obtain n z' b where d: "d = RD_PTR n" "forward_name H z' b = Some n" and b: "folded H q = ptr_labels b"
      and z': "z' \<in> set (cf_zones c)" "in_network z' b" "\<forall>z'' \<in> set (cf_zones c). in_network z'' b \<longrightarrow> zn_mask z'' \<le> zn_mask z'"
      unfolding reverse_data_def by blast
    have [simp]: "b = a" by (rule one [OF b])
    have "zn_mask z' = zn_mask z" using z' in_z max by (simp add: antisym)
    then have "z' = z" using same_network [OF assms(2) z'(1) in_z(1) _ in_z(2)] z'(2) by simp
    with d show "d \<in> {RD_PTR n | n. forward_name H z a = Some n}" by simp
  next
    fix d assume "d \<in> {RD_PTR n | n. forward_name H z a = Some n}"
    with a in_z max show "d \<in> reverse_data H c q" unfolding reverse_data_def by blast
  qed
  with Some p show ?thesis by simp
qed

lemma forward_data_eq:
  assumes "wf_config H c" and "\<forall>z \<in> set (cf_zones c). \<not> wildcard_template (zn_fwd z)" and "unambiguous H c"
  shows "forward_data H c q = (case match_forward H c q of None \<Rightarrow> {} | Some (z, a) \<Rightarrow> {RD_AAAA a})"
proof -
  have iff: "match_zone_forward H z q = Some a \<longleftrightarrow>
      in_network z a \<and> (\<exists>n. forward_name H z a = Some n \<and> folded H n = folded H q)" if "z \<in> set (cf_zones c)" for z a
    using match_zone_forward_inverts [OF wf_config_zone [OF assms(1) that]] assms(2) that by blast
  have fd: "forward_data H c q = {RD_AAAA a | a z. z \<in> set (cf_zones c) \<and> match_zone_forward H z q = Some a}"
    unfolding forward_data_def using iff by blast
  show ?thesis
  proof (cases "match_forward H c q")
    case None
    then have "match_zone_forward H z q \<noteq> Some a" if "z \<in> set (cf_zones c)" for z a
      using that by (simp add: match_forward_None)
    then have "forward_data H c q = {}" unfolding fd by blast
    with None show ?thesis by simp
  next
    case (Some p)
    obtain z a where p: "p = (z, a)" by (cases p)
    with Some have z: "z \<in> set (cf_zones c)" "match_zone_forward H z q = Some a" by (auto dest: match_forward_SomeD)
    have "a' = a" if z': "z' \<in> set (cf_zones c)" "match_zone_forward H z' q = Some a'" for z' a'
    proof -
      from iff [OF z(1)] z(2) obtain n where n: "in_network z a" "forward_name H z a = Some n" "folded H n = folded H q" by blast
      from iff [OF z'(1)] z'(2) obtain n' where n': "in_network z' a'" "forward_name H z' a' = Some n'" "folded H n' = folded H q" by blast
      have "z' = z" using unambiguous_zone [OF assms(3) z(1) n(1,2) z'(1) n'(1,2)] n(3) n'(3) by simp
      with z z' show ?thesis by simp
    qed
    then have "forward_data H c q = {RD_AAAA a}" unfolding fd using z by blast
    with Some p show ?thesis by simp
  qed
qed

lemma reverse_forward_disjoint:
  assumes "unambiguous H c" and "match_ptr H c q \<noteq> None"
  shows "forward_data H c q = {}"
proof -
  from assms(2) obtain b where "folded H q = ptr_labels b"
    by (auto simp: match_ptr_def ptr_name_to_addr_iff split: option.splits)
  then show ?thesis using unambiguous_reverse [OF assms(1)] unfolding forward_data_def by force
qed

lemma resolve_zone_data:
  assumes "wf_config H c" and "distinct (map network_of (cf_zones c))"
    and "\<forall>z \<in> set (cf_zones c). \<not> wildcard_template (zn_fwd z)" and "unambiguous H c"
  shows "outcome_data (resolve H c q t) = zone_data H c q t"
proof (cases "if reverse_has_type t then match_ptr H c q else None")
  case (Some p)
  obtain z a where p: "p = (z, a)" by (cases p)
  with Some have t: "reverse_has_type t" and m: "match_ptr H c q = Some (z, a)" by (auto split: if_splits)
  obtain n where n: "forward_name H z a = Some n"
    and r: "resolve H c q t = Answer z [\<lparr>rr_name = q, rr_class = CL_IN, rr_ttl = zn_ttl z, rr_data = RD_PTR n\<rparr>]"
    using resolve_reverse [OF assms(1) t m] by blast
  have "reverse_data H c q = {RD_PTR n}" using n by (simp add: reverse_data_eq [OF assms(1,2)] m)
  moreover have "forward_data H c q = {}" using reverse_forward_disjoint [OF assms(4)] m by simp
  moreover have "t = RT_PTR \<or> t = RT_ANY" using t by (auto simp: reverse_has_type_def split: record_type.splits)
  ultimately show ?thesis using r by (auto simp: zone_data_def)
next
  case None
  have "{d \<in> reverse_data H c q. rdata_type d = t \<or> t = RT_ANY} = {}"
    using None by (auto simp: reverse_data_eq [OF assms(1,2)] reverse_has_type_def split: option.splits record_type.splits if_splits)
  then have z: "zone_data H c q t = {d \<in> forward_data H c q. rdata_type d = t \<or> t = RT_ANY}"
    unfolding zone_data_def by blast
  show ?thesis
  proof (cases "match_forward H c q")
    case mf: None
    have "outcome_data (resolve H c q t) = {}"
      using None mf by (auto simp: resolve_def split: option.splits)
    with mf show ?thesis unfolding z by (simp add: forward_data_eq [OF assms(1,3,4)])
  next
    case mf: (Some p)
    obtain z a where p: "p = (z, a)" by (cases p)
    have "outcome_data (resolve H c q t) = (if forward_has_type t then {RD_AAAA a} else {})"
      using None mf p by (auto simp: resolve_def aaaa_record_def from_rdata_fields split: option.splits if_splits)
    moreover have "forward_has_type t \<longleftrightarrow> t = RT_AAAA \<or> t = RT_ANY"
      by (auto simp: forward_has_type_def split: record_type.splits)
    ultimately show ?thesis using mf p unfolding z by (auto simp: forward_data_eq [OF assms(1,3,4)])
  qed
qed

end

section \<open>Properties\<close>

text \<open>
  Property C5. Resolution refines zone data: over an accepted configuration whose templates are
  unambiguous and do not begin with \<open>*\<close>, the records a query of any type resolves to are
  exactly those of that type in the written-out zone data, no more and no fewer, and all of
  them for ANY.
\<close>

theorem resolve_refines_zone_data:
  assumes "dns_laws H" and "config_parse H input = Inr c"
    and "\<forall>z \<in> set (cf_zones c). \<not> wildcard_template (zn_fwd z)" and "unambiguous H c"
  shows "outcome_data (resolve H c q t) = zone_data H c q t"
proof -
  note ok = compile_ok(1,3) [OF config_parse_Inr(2) [OF assms(2)]]
  show ?thesis by (rule dns_laws.resolve_zone_data [OF assms(1) ok assms(3,4)])
qed

lemma example_unambiguous: "unambiguous rfc_lib example_config"
proof -
  have "folded rfc_lib n \<noteq> ptr_labels b" if "forward_name rfc_lib example_zone a = Some n" for n a b
  proof -
    obtain m where "forward_name rfc_lib example_zone a = Some m" "iter rfc_lib m = forward_labels example_zone a"
      using rfc.forward_name_Some [OF wf_example_zone] by blast
    with that have "last (folded rfc_lib n) = ''net''"
      by (simp add: folded_def forward_labels_def example_zone_def to_ascii_lowercase_def to_ascii_lower_def)
    moreover have "last (ptr_labels b) = ''arpa''" by (simp add: ptr_labels_def)
    ultimately show ?thesis by auto
  qed
  then show ?thesis by (simp add: unambiguous_def example_config_def config_default_def)
qed

theorem resolve_refines_zone_data_witness:
  "zone_data rfc_lib example_config ([''Host-0000002a'', ''example'', ''net''], True) RT_ANY =
     outcome_data (resolve rfc_lib example_config ([''Host-0000002a'', ''example'', ''net''], True) RT_ANY)"
proof -
  have "\<forall>z \<in> set (cf_zones example_config). \<not> wildcard_template (zn_fwd z)"
    by (simp add: example_config_def config_default_def example_not_wildcard)
  from resolve_refines_zone_data [OF rfc.dns_laws_axioms example_file_config this example_unambiguous]
  show ?thesis by simp
qed

end
