(* ===== verification/Synthesis.thy ===== *)
theory Synthesis
  imports Zone
begin

text \<open>
  What synthesized names are made of. The crate documentation (\<open>src/src/lib.rs\<close>) promises that a
  query name is turned into an address or rejected, and that every name emitted is built from the
  configuration and that address; \<open>src/src/nibble.rs\<close> that the generated part uses the sixteen
  lowercase digits only. Here both are theorems about \<open>resolve\<close>.
\<close>

section \<open>Bytes of a synthesized name\<close>

text \<open>The bytes the template of a zone writes itself.\<close>

fun label_bytes :: "fwd_label \<Rightarrow> char set" where
  "label_bytes (Literal v _) = set v"
| "label_bytes (Digits a _ b _ _) = set a \<union> set b"

definition template_bytes :: "fwd_template \<Rightarrow> char set" where
  "template_bytes t = (\<Union>l \<in> set (ft_labels t). label_bytes l)"

lemma set_join_dash: "set (join_dash cs) \<subseteq> insert (CHR ''-'') (\<Union>c \<in> set cs. set c)"
  by (induction cs rule: join_dash.induct) auto

lemma hex_digits_bytes: "set (hex_digits w n) \<subseteq> set HEX_LOWER"
proof
  fix c assume "c \<in> set (hex_digits w n)"
  then obtain v where "v < 16" "c = HEX_LOWER ! v" by (blast dest: hex_digits_nth_lower)
  moreover have "length HEX_LOWER = 16" by (simp add: HEX_LOWER_def)
  ultimately show "c \<in> set HEX_LOWER" by simp
qed

lemma dash_group_bytes: "set (dash_group (hex_digits w n)) \<subseteq> insert (CHR ''-'') (set HEX_LOWER)"
proof -
  have "dash_group (hex_digits w n) = join_dash (chunks 4 (hex_digits w n))"
    using hex_digits_ascii [of w n] by (intro dash_group_eq) (simp add: list_all_iff)
  then show ?thesis using set_join_dash [of "chunks 4 (hex_digits w n)"] set_chunks_subset hex_digits_bytes by fastforce
qed

lemma render_label_bytes:
  "set (render_label (hex_digits w n) l) \<subseteq> label_bytes l \<union> insert (CHR ''-'') (set HEX_LOWER)"
  using hex_digits_bytes [of w n] dash_group_bytes [of w n] by (cases l) auto

lemma forward_labels_bytes:
  "l \<in> set (forward_labels z a) \<Longrightarrow> set l \<subseteq> template_bytes (zn_fwd z) \<union> insert (CHR ''-'') (set HEX_LOWER)"
  using render_label_bytes by (fastforce simp: forward_labels_def template_bytes_def)

section \<open>Properties\<close>

text \<open>
  Property C23. Record data is built from the configuration and an address, never from the query:
  a PTR question for an address in a network is answered by every spelling of its reverse name
  with one and the same target, an absolute name that exists for each address of the network,
  and each byte of its labels is a byte the template of the network writes, a lowercase
  hexadecimal digit or a hyphen.
\<close>

theorem ptr_data_from_config_and_address:
  assumes "dns_laws H" and "wf_config H c" and "zone_for_addr c a = Some z"
  shows "\<exists>n. is_fqdn H n \<and>
    (\<forall>q. ptr_name_to_addr H q = Some a \<longrightarrow>
       resolve H c q RT_PTR = Answer z [\<lparr>rr_name = q, rr_class = CL_IN, rr_ttl = zn_ttl z, rr_data = RD_PTR n\<rparr>]) \<and>
    (\<forall>l \<in> set (iter H n). set l \<subseteq> template_bytes (zn_fwd z) \<union> insert (CHR ''-'') (set ''0123456789abcdef''))"
proof -
  have "wf_zone H z" using zone_for_addr_SomeD [OF assms(3)] wf_config_zone [OF assms(2)] by blast
  then obtain n where n: "forward_name H z a = Some n" "is_fqdn H n" "iter H n = forward_labels z a"
    by (rule dns_laws.forward_name_Some [OF assms(1)])
  have "resolve H c q RT_PTR = Answer z [\<lparr>rr_name = q, rr_class = CL_IN, rr_ttl = zn_ttl z, rr_data = RD_PTR n\<rparr>]"
    if "ptr_name_to_addr H q = Some a" for q
    using that assms(3) n(1)
    by (simp add: resolve_def reverse_has_type_def match_ptr_def ptr_record_def dns_laws.from_rdata_fields [OF assms(1)])
  moreover have "set l \<subseteq> template_bytes (zn_fwd z) \<union> insert (CHR ''-'') (set ''0123456789abcdef'')"
    if "l \<in> set (iter H n)" for l
    using forward_labels_bytes [of l z a] that n(3) by (simp add: HEX_LOWER_def)
  ultimately show ?thesis using n(2) by (intro exI [of _ n]) blast
qed

theorem ptr_data_from_config_and_address_witness:
  "\<exists>n. resolve rfc_lib example_config
      (map (\<lambda>c. [c]) ''a20000000000000000000000'' @ map (\<lambda>c. [c]) ''8bd01002'' @ [''ip6'', ''arpa''], True) RT_PTR =
     Answer example_zone [\<lparr>rr_name = (map (\<lambda>c. [c]) ''a20000000000000000000000'' @ map (\<lambda>c. [c]) ''8bd01002'' @
       [''ip6'', ''arpa''], True), rr_class = CL_IN, rr_ttl = zn_ttl example_zone, rr_data = RD_PTR n\<rparr>]"
  using ptr_data_from_config_and_address [OF rfc.dns_laws_axioms wf_example_config example_zone_for] example_ptr_name by blast

end
