(* ===== verification/Parse_Print.thy ===== *)
theory Parse_Print
  imports Parse
begin

text \<open>
  The configuration format read backwards: printing a document and parsing the text gives the
  document back. A document is what a file says, without the places where it says it: the global
  settings in order, the addresses to listen on, and for every network its template and its
  upstream. The printer is a specification of the grammar in the module comment of
  \<open>src/src/config/parse.rs\<close>; it writes the keywords of the table of directives.
\<close>

section \<open>Documents\<close>

record document =
  dc_globals :: "(global_key \<times> bytes) list"
  dc_listen :: "bytes list"
  dc_zones :: "(bytes \<times> bytes option \<times> bytes option) list"

text \<open>What a parsed file says.\<close>

definition zone_contents :: "raw_zone \<Rightarrow> bytes \<times> bytes option \<times> bytes option" where
  "zone_contents z = (rv_value (rz_network z), map_option rv_value (rz_resolves_to z), map_option rv_value (rz_upstream z))"

definition contents :: "raw_config \<Rightarrow> document" where
  "contents cfg = \<lparr>dc_globals = map (\<lambda>g. (rg_key g, rv_value (rg_value g))) (rc_globals cfg),
     dc_listen = map rv_value (rc_listen cfg), dc_zones = map zone_contents (rc_zones cfg)\<rparr>"

section \<open>Printing\<close>

definition directive_for :: "target \<Rightarrow> directive option" where
  "directive_for t = find (\<lambda>d. dr_target d = t) DIRECTIVES"

definition print_line :: "target \<Rightarrow> bytes \<Rightarrow> bytes" where
  "print_line t v = (case directive_for t of None \<Rightarrow> [] | Some d \<Rightarrow> dr_display d) @ '' '' @ v"

definition print_global :: "global_key \<times> bytes \<Rightarrow> bytes" where
  "print_global = (\<lambda>(k, v). if k = GK_RrlOff then ''rrl off'' else print_line (T_Global k) v)"

definition print_zone :: "bytes \<times> bytes option \<times> bytes option \<Rightarrow> bytes list" where
  "print_zone = (\<lambda>(n, r, u). print_line T_Network n #
     (case r of None \<Rightarrow> [] | Some v \<Rightarrow> [print_line T_ResolvesTo v]) @
     (case u of None \<Rightarrow> [] | Some v \<Rightarrow> [print_line T_Upstream v]))"

definition print_lines :: "document \<Rightarrow> bytes list" where
  "print_lines doc = map print_global (dc_globals doc) @ map (print_line T_Listen) (dc_listen doc) @
     concat (map print_zone (dc_zones doc))"

definition print_document :: "document \<Rightarrow> bytes" where
  "print_document doc = concat (map (\<lambda>l. l @ [CHR 0x0A]) (print_lines doc))"

text \<open>
  A value can be written if it is text on one line that neither begins nor ends with white
  space; the value of every directive but \<open>resolves to\<close> is read in lower case.
\<close>

definition value_ok :: "bytes \<Rightarrow> bool" where
  "value_ok v \<longleftrightarrow> v \<noteq> [] \<and> \<not> is_ascii_whitespace (hd v) \<and> \<not> is_ascii_whitespace (last v) \<and>
     CHR 0x0A \<notin> set v \<and> utf8_valid v"

definition lower_ok :: "bytes \<Rightarrow> bool" where
  "lower_ok v \<longleftrightarrow> value_ok v \<and> to_ascii_lowercase v = v"

definition document_ok :: "document \<Rightarrow> bool" where
  "document_ok doc \<longleftrightarrow>
     (\<forall>(k, v) \<in> set (dc_globals doc). if k = GK_RrlOff then v = [] else lower_ok v) \<and>
     distinct (filter (\<lambda>k. k \<noteq> GK_Ns \<and> k \<noteq> GK_RrlOff) (map fst (dc_globals doc))) \<and>
     (\<forall>v \<in> set (dc_listen doc). lower_ok v) \<and>
     (\<forall>(n, r, u) \<in> set (dc_zones doc). lower_ok n \<and> pred_option value_ok r \<and> pred_option lower_ok u)"

section \<open>A line of a directive\<close>

lemma trim_start_id: "v \<noteq> [] \<Longrightarrow> \<not> is_ascii_whitespace (hd v) \<Longrightarrow> trim_ascii_start v = v"
  by (cases v) (simp_all add: trim_ascii_start_def)

lemma trim_end_id: "v \<noteq> [] \<Longrightarrow> \<not> is_ascii_whitespace (last v) \<Longrightarrow> trim_ascii_end v = v"
  by (cases v rule: rev_cases) (simp_all add: trim_ascii_end_def)

lemma trim_start_Cons: "trim_ascii_start (c # s) = (if is_ascii_whitespace c then trim_ascii_start s else c # s)"
  by (simp add: trim_ascii_start_def)

lemmas keyword_simps = strip_keyword_def match_words_def matches_flag_def split_at_checked_def eq_ignore_ascii_case_def
  trim_start_Cons is_ascii_whitespace_def Let_def saturating_add_def usize_max_def

lemmas directive_simps = print_line_def directive_for_def DIRECTIVES_def directive_of_def

text \<open>The line of a directive is recognised as that directive and as no other, with its value.\<close>

lemma find_directive:
  assumes "value_ok v" and "t \<noteq> T_Global GK_RrlOff"
  shows "\<exists>d off. directive_for t = Some d \<and>
    find_map (\<lambda>d. map_option (\<lambda>(off, w). (d, off, w)) (strip_keyword (print_line t v) (dr_words d))) DIRECTIVES =
      Some (d, off, v)"
proof -
  have [simp]: "trim_ascii_start v = v" "trim_ascii_end v = v" "v \<noteq> []"
    using assms(1) by (auto simp: value_ok_def trim_start_id trim_end_id)
  show ?thesis
  proof (cases t)
    case (T_Global k)
    with assms(2) show ?thesis by (cases k) (simp_all add: directive_simps keyword_simps)
  qed (simp_all add: directive_simps keyword_simps)
qed

lemma no_flag:
  assumes "value_ok v" and "t \<noteq> T_Global GK_RrlOff"
  shows "find (\<lambda>(ws, _, _). matches_flag (print_line t v) ws) FLAGS = None"
proof (cases t)
  case (T_Global k)
  with assms(2) show ?thesis by (cases k) (simp_all add: FLAGS_def directive_simps keyword_simps)
qed (simp_all add: FLAGS_def directive_simps keyword_simps)

lemma print_line_body:
  assumes "t \<noteq> T_Global GK_RrlOff"
  shows "trim_ascii_start (print_line t v) = print_line t v" and "print_line t v \<noteq> []"
    and "hd (print_line t v) \<noteq> CHR ''#''" and "CHR 0x0A \<in> set (print_line t v) \<longleftrightarrow> CHR 0x0A \<in> set v"
proof -
  have "trim_ascii_start (print_line t v) = print_line t v \<and> print_line t v \<noteq> [] \<and> hd (print_line t v) \<noteq> CHR ''#'' \<and>
      (CHR 0x0A \<in> set (print_line t v) \<longleftrightarrow> CHR 0x0A \<in> set v)"
  proof (cases t)
    case (T_Global k)
    with assms show ?thesis by (cases k) (simp_all add: directive_simps trim_start_Cons is_ascii_whitespace_def)
  qed (simp_all add: directive_simps trim_start_Cons is_ascii_whitespace_def)
  then show "trim_ascii_start (print_line t v) = print_line t v" "print_line t v \<noteq> []"
    "hd (print_line t v) \<noteq> CHR ''#''" "CHR 0x0A \<in> set (print_line t v) \<longleftrightarrow> CHR 0x0A \<in> set v" by blast+
qed

lemma print_line_no_cr:
  assumes "value_ok v"
  shows "strip_suffix_char (print_line t v) (CHR 0x0D) = None"
proof -
  have "last (print_line t v) = last v" using assms by (simp add: print_line_def value_ok_def)
  then show ?thesis using assms by (auto simp: strip_suffix_char_def value_ok_def is_ascii_whitespace_def)
qed

lemma parse_print_line:
  assumes "value_ok v" and "t \<noteq> T_Global GK_RrlOff"
  shows "\<exists>d rv. directive_for t = Some d \<and> rv_value rv = (if dr_lowercase d then to_ascii_lowercase v else v) \<and>
    parse_line i (print_line t v) (cfg, es) = assign_value d rv (cfg, es)"
proof -
  obtain d off where d: "directive_for t = Some d"
    and f: "find_map (\<lambda>d. map_option (\<lambda>(off, w). (d, off, w)) (strip_keyword (print_line t v) (dr_words d))) DIRECTIVES =
      Some (d, off, v)"
    using find_directive [OF assms] by blast
  have "from_utf8 v = Some v" using assms(1) by (simp add: from_utf8_def value_ok_def)
  let ?v = "if dr_lowercase d then to_ascii_lowercase v else v"
  let ?rv = "\<lparr>rv_line = line_number i, rv_raw_line = print_line t v,
    rv_span = (saturating_add 0 off, saturating_add (saturating_add 0 off) (length ?v)), rv_value = ?v\<rparr>"
  have "parse_line i (print_line t v) (cfg, es) = assign_value d ?rv (cfg, es)"
    using f \<open>from_utf8 v = Some v\<close>
    unfolding parse_line_def Let_def print_line_no_cr [OF assms(1)] option.case print_line_body(1) [OF assms(2)]
    by (simp add: print_line_body(2,3) [OF assms(2)] no_flag [OF assms] Let_def)
  moreover have "rv_value ?rv = ?v" by simp
  ultimately show ?thesis using d by blast
qed

section \<open>Lines of a document\<close>

text \<open>A state of the parser that has met no error and read a document.\<close>

definition says :: "parse_state \<Rightarrow> document \<Rightarrow> bool" where
  "says st doc \<longleftrightarrow> snd st = [] \<and> contents (fst st) = doc"

lemma find_global_None: "find (\<lambda>g. rg_key g = k) gs = None \<longleftrightarrow> k \<notin> set (map rg_key gs)"
  by (auto simp: find_None_iff)

lemma says_keys: "says st doc \<Longrightarrow> set (map rg_key (rc_globals (fst st))) = set (map fst (dc_globals doc))"
  by (auto simp: says_def contents_def image_iff)

lemma says_no_zones: "says st doc \<Longrightarrow> rc_zones (fst st) = [] \<longleftrightarrow> dc_zones doc = []"
  by (auto simp: says_def contents_def)

lemma says_flag:
  assumes "says st doc" and "dc_zones doc = []"
  shows "says (parse_line i ''rrl off'' st) (doc\<lparr>dc_globals := dc_globals doc @ [(GK_RrlOff, [])]\<rparr>)"
proof -
  obtain cfg es where st: "st = (cfg, es)" by (cases st)
  have "find (\<lambda>(ws, _, _). matches_flag ''rrl off'' ws) FLAGS = Some ([''rrl'', ''off''], ''rrl off'', GK_RrlOff)"
    by (simp add: FLAGS_def keyword_simps trim_ascii_def trim_ascii_end_def trim_ascii_start_def)
  moreover have "rc_zones cfg = []" using says_no_zones [OF assms(1)] assms(2) st by simp
  ultimately show ?thesis using assms(1)
    by (auto simp: parse_line_def st says_def contents_def strip_suffix_char_def trim_start_Cons is_ascii_whitespace_def Let_def)
qed

lemma says_global:
  assumes "says st doc" and "dc_zones doc = []" and "if k = GK_RrlOff then v = [] else lower_ok v"
    and "k = GK_Ns \<or> k = GK_RrlOff \<or> k \<notin> set (map fst (dc_globals doc))"
  shows "says (parse_line i (print_global (k, v)) st) (doc\<lparr>dc_globals := dc_globals doc @ [(k, v)]\<rparr>)"
proof (cases "k = GK_RrlOff")
  case True
  with assms says_flag [OF assms(1,2)] show ?thesis by (simp add: print_global_def)
next
  case False
  obtain cfg es where st: "st = (cfg, es)" by (cases st)
  from False assms(3) have v: "value_ok v" "to_ascii_lowercase v = v" by (simp_all add: lower_ok_def)
  have "T_Global k \<noteq> T_Global GK_RrlOff" using False by simp
  then obtain d rv where d: "directive_for (T_Global k) = Some d" and rv: "rv_value rv = v"
    and p: "parse_line i (print_line (T_Global k) v) (cfg, es) = assign_value d rv (cfg, es)"
    using parse_print_line [OF v(1), of "T_Global k" i cfg es] v(2) by (metis (full_types))
  have z: "rc_zones cfg = []" using says_no_zones [OF assms(1)] assms(2) st by simp
  have "dr_target d = T_Global k" using d by (auto simp: directive_for_def find_Some_iff)
  moreover have "dr_scope d = Scope_Global" using d False by (cases k) (auto simp: directive_simps)
  moreover have "(if k \<noteq> GK_Ns then find (\<lambda>g. rg_key g = k) (rc_globals cfg) else None) = None"
    using assms(4) False says_keys [OF assms(1)] by (auto simp: find_global_None st)
  ultimately have "parse_line i (print_line (T_Global k) v) (cfg, es) =
      (cfg\<lparr>rc_globals := rc_globals cfg @ [\<lparr>rg_key = k, rg_value = rv\<rparr>]\<rparr>, es)"
    using z by (simp add: p assign_value_def set_global_def)
  with assms(1) rv False show ?thesis by (auto simp: st print_global_def says_def contents_def)
qed

lemma says_value:
  assumes "says st doc" and "value_ok v" and "t \<noteq> T_Global GK_RrlOff"
  obtains d rv where "directive_for t = Some d" "rv_value rv = (if dr_lowercase d then to_ascii_lowercase v else v)"
    "parse_line i (print_line t v) st = assign_value d rv (fst st, [])"
  using assms parse_print_line [OF assms(2,3), of i "fst st" "[]"] by (cases st) (auto simp: says_def)

lemma says_listen:
  assumes "says st doc" and "lower_ok v"
  shows "says (parse_line i (print_line T_Listen v) st) (doc\<lparr>dc_listen := dc_listen doc @ [v]\<rparr>)"
proof -
  have v: "value_ok v" "to_ascii_lowercase v = v" using assms(2) by (simp_all add: lower_ok_def)
  from assms(1) v(1) show ?thesis
  proof (rule says_value [where t = T_Listen and i = i])
    fix d rv assume "directive_for T_Listen = Some d" "rv_value rv = (if dr_lowercase d then to_ascii_lowercase v else v)"
      "parse_line i (print_line T_Listen v) st = assign_value d rv (fst st, [])"
    with assms(1) v show ?thesis by (auto simp: directive_simps assign_value_def says_def contents_def)
  qed simp
qed

lemma says_network:
  assumes "says st doc" and "lower_ok v"
  shows "says (parse_line i (print_line T_Network v) st) (doc\<lparr>dc_zones := dc_zones doc @ [(v, None, None)]\<rparr>)"
proof -
  have v: "value_ok v" "to_ascii_lowercase v = v" using assms(2) by (simp_all add: lower_ok_def)
  from assms(1) v(1) show ?thesis
  proof (rule says_value [where t = T_Network and i = i])
    fix d rv assume "directive_for T_Network = Some d" "rv_value rv = (if dr_lowercase d then to_ascii_lowercase v else v)"
      "parse_line i (print_line T_Network v) st = assign_value d rv (fst st, [])"
    with assms(1) v show ?thesis
      by (auto simp: directive_simps assign_value_def says_def contents_def zone_contents_def)
  qed simp
qed

lemma contents_last_zone:
  assumes "says st doc" and "dc_zones doc = zs @ [(n, r, u)]"
  obtains ys z where "rc_zones (fst st) = ys @ [z]" "map zone_contents ys = zs" "zone_contents z = (n, r, u)"
proof -
  have "map zone_contents (rc_zones (fst st)) = zs @ [(n, r, u)]" using assms by (auto simp: says_def contents_def)
  then obtain ys z where "rc_zones (fst st) = ys @ z" "map zone_contents ys = zs" "map zone_contents z = [(n, r, u)]"
    by (auto simp: map_eq_append_conv)
  then show thesis using that by (auto simp: map_eq_Cons_conv)
qed

lemma says_resolves:
  assumes "says st doc" and "dc_zones doc = zs @ [(n, None, u)]" and "value_ok v"
  shows "says (parse_line i (print_line T_ResolvesTo v) st) (doc\<lparr>dc_zones := zs @ [(n, Some v, u)]\<rparr>)"
proof -
  from assms(1,2) obtain ys z where z: "rc_zones (fst st) = ys @ [z]" "map zone_contents ys = zs" "zone_contents z = (n, None, u)"
    by (rule contents_last_zone)
  from assms(1,3) show ?thesis
  proof (rule says_value [where t = T_ResolvesTo and i = i])
    fix d rv assume "directive_for T_ResolvesTo = Some d" "rv_value rv = (if dr_lowercase d then to_ascii_lowercase v else v)"
      "parse_line i (print_line T_ResolvesTo v) st = assign_value d rv (fst st, [])"
    with assms(1,2) z show ?thesis
      by (auto simp: directive_simps assign_value_def set_zone_slot_def says_def contents_def zone_contents_def Let_def)
  qed simp
qed

lemma says_upstream:
  assumes "says st doc" and "dc_zones doc = zs @ [(n, r, None)]" and "lower_ok v"
  shows "says (parse_line i (print_line T_Upstream v) st) (doc\<lparr>dc_zones := zs @ [(n, r, Some v)]\<rparr>)"
proof -
  have v: "value_ok v" "to_ascii_lowercase v = v" using assms(3) by (simp_all add: lower_ok_def)
  from assms(1,2) obtain ys z where z: "rc_zones (fst st) = ys @ [z]" "map zone_contents ys = zs" "zone_contents z = (n, r, None)"
    by (rule contents_last_zone)
  from assms(1) v(1) show ?thesis
  proof (rule says_value [where t = T_Upstream and i = i])
    fix d rv assume "directive_for T_Upstream = Some d" "rv_value rv = (if dr_lowercase d then to_ascii_lowercase v else v)"
      "parse_line i (print_line T_Upstream v) st = assign_value d rv (fst st, [])"
    with assms(1,2) v z show ?thesis
      by (auto simp: directive_simps assign_value_def set_zone_slot_def says_def contents_def zone_contents_def Let_def)
  qed simp
qed

section \<open>Documents\<close>

lemma parse_lines_append: "parse_lines i (xs @ ys) st = parse_lines (i + length xs) ys (parse_lines i xs st)"
  by (induction xs arbitrary: i st) simp_all

lemma says_globals:
  assumes "says st doc" and "dc_zones doc = []"
    and "\<forall>(k, v) \<in> set gs. if k = GK_RrlOff then v = [] else lower_ok v"
    and "distinct (filter (\<lambda>k. k \<noteq> GK_Ns \<and> k \<noteq> GK_RrlOff) (map fst (dc_globals doc @ gs)))"
  shows "says (parse_lines i (map print_global gs) st) (doc\<lparr>dc_globals := dc_globals doc @ gs\<rparr>)"
  using assms
proof (induction gs arbitrary: i st doc)
  case (Cons g gs)
  obtain k v where g: "g = (k, v)" by (cases g)
  let ?doc = "doc\<lparr>dc_globals := dc_globals doc @ [(k, v)]\<rparr>"
  have "k = GK_Ns \<or> k = GK_RrlOff \<or> k \<notin> set (map fst (dc_globals doc))"
    using Cons.prems(4) by (auto simp: g)
  then have "says (parse_line i (print_global (k, v)) st) ?doc"
    using Cons.prems(1-3) by (intro says_global) (auto simp: g)
  from Cons.IH [OF this, of "i + 1"] Cons.prems(2-4) show ?case by (simp add: g)
qed simp

lemma says_listens:
  assumes "says st doc" and "\<forall>v \<in> set vs. lower_ok v"
  shows "says (parse_lines i (map (print_line T_Listen) vs) st) (doc\<lparr>dc_listen := dc_listen doc @ vs\<rparr>)"
  using assms
proof (induction vs arbitrary: i st doc)
  case (Cons v vs)
  then have "says (parse_line i (print_line T_Listen v) st) (doc\<lparr>dc_listen := dc_listen doc @ [v]\<rparr>)"
    by (intro says_listen) simp_all
  from Cons.IH [OF this, of "i + 1"] Cons.prems(2) show ?case by simp
qed simp

lemma says_zone:
  assumes "says st doc" and "lower_ok n" and "pred_option value_ok r" and "pred_option lower_ok u"
  shows "says (parse_lines i (print_zone (n, r, u)) st) (doc\<lparr>dc_zones := dc_zones doc @ [(n, r, u)]\<rparr>)"
proof -
  let ?doc = "\<lambda>r u. doc\<lparr>dc_zones := dc_zones doc @ [(n, r, u)]\<rparr>"
  have net: "says (parse_line i (print_line T_Network n) st) (?doc None None)" by (rule says_network [OF assms(1,2)])
  have res: "says (parse_lines j (case r of None \<Rightarrow> [] | Some v \<Rightarrow> [print_line T_ResolvesTo v]) st') (?doc r None)"
    if "says st' (?doc None None)" for j st'
    using that assms(3) says_resolves [OF that, of "dc_zones doc" n None _ j] by (cases r) simp_all
  have up: "says (parse_lines j (case u of None \<Rightarrow> [] | Some v \<Rightarrow> [print_line T_Upstream v]) st') (?doc r u)"
    if "says st' (?doc r None)" for j st'
    using that assms(4) says_upstream [OF that, of "dc_zones doc" n r _ j] by (cases u) simp_all
  show ?thesis by (simp add: print_zone_def parse_lines_append up res net)
qed

lemma says_zones:
  assumes "says st doc" and "\<forall>(n, r, u) \<in> set zs. lower_ok n \<and> pred_option value_ok r \<and> pred_option lower_ok u"
  shows "says (parse_lines i (concat (map print_zone zs)) st) (doc\<lparr>dc_zones := dc_zones doc @ zs\<rparr>)"
  using assms
proof (induction zs arbitrary: i st doc)
  case (Cons z zs)
  obtain n r u where z: "z = (n, r, u)" by (cases z)
  have "says (parse_lines i (print_zone z) st) (doc\<lparr>dc_zones := dc_zones doc @ [z]\<rparr>)"
    using Cons.prems unfolding z by (intro says_zone) auto
  from Cons.IH [OF this, of "i + length (print_zone z)"] Cons.prems(2) show ?case by (simp add: parse_lines_append)
qed simp

text \<open>The lines of a printed file are the lines it was printed from.\<close>

lemma split_inclusive_line:
  "CHR 0x0A \<notin> set l \<Longrightarrow> split_inclusive (CHR 0x0A) (l @ CHR 0x0A # s) = (l @ [CHR 0x0A]) # split_inclusive (CHR 0x0A) s"
  by (induction l) auto

definition clean_line :: "bytes \<Rightarrow> bool" where
  "clean_line l \<longleftrightarrow> CHR 0x0A \<notin> set l \<and> strip_suffix_char l (CHR 0x0D) = None"

lemma lines_concat:
  "\<forall>l \<in> set ls. clean_line l \<Longrightarrow> lines (concat (map (\<lambda>l. l @ [CHR 0x0A]) ls)) = ls"
  by (induction ls)
    (simp_all add: lines_def split_inclusive_line clean_line_def strip_line_end_def strip_suffix_char_def [of "_ @ _"])

lemma print_line_clean: "value_ok v \<Longrightarrow> t \<noteq> T_Global GK_RrlOff \<Longrightarrow> clean_line (print_line t v)"
  using print_line_body(4) [of t v] print_line_no_cr [of v t] by (simp add: clean_line_def value_ok_def)

lemma print_lines_clean:
  assumes "document_ok doc" and "l \<in> set (print_lines doc)"
  shows "clean_line l"
proof -
  have flag: "clean_line ''rrl off''" by (simp add: clean_line_def strip_suffix_char_def)
  from assms(2) consider k v where "(k, v) \<in> set (dc_globals doc)" "l = print_global (k, v)"
    | v where "v \<in> set (dc_listen doc)" "l = print_line T_Listen v"
    | n r u where "(n, r, u) \<in> set (dc_zones doc)" "l \<in> set (print_zone (n, r, u))"
    unfolding print_lines_def by auto
  then show ?thesis
  proof cases
    case 1
    then have "if k = GK_RrlOff then v = [] else lower_ok v" using assms(1) by (auto simp: document_ok_def)
    with 1 flag show ?thesis by (auto simp: print_global_def lower_ok_def intro: print_line_clean split: if_splits)
  next
    case 2
    with assms(1) show ?thesis by (auto simp: document_ok_def lower_ok_def intro: print_line_clean)
  next
    case 3
    with assms(1) have "lower_ok n" "pred_option value_ok r" "pred_option lower_ok u" by (auto simp: document_ok_def)
    with 3(2) show ?thesis by (auto simp: print_zone_def lower_ok_def intro: print_line_clean split: option.splits)
  qed
qed

section \<open>Properties\<close>

text \<open>
  Property C19. Parsing inverts printing: for every document the format can express (values on one
  line without surrounding white space, in lower case except for templates, at most one of each
  single-valued setting), the text written from it with the keywords of the table is parsed
  without an error, and what is read is exactly the document: every setting, address, network,
  template and upstream, in order and attached to its network.
\<close>

theorem parse_inverts_print:
  assumes "document_ok doc"
  shows "snd (parse (print_document doc)) = [] \<and> contents (fst (parse (print_document doc))) = doc"
proof -
  have "says (raw_config_default, []) \<lparr>dc_globals = [], dc_listen = [], dc_zones = []\<rparr>"
    by (simp add: says_def contents_def raw_config_default_def)
  then have "says (parse_lines 0 (map print_global (dc_globals doc)) (raw_config_default, []))
      \<lparr>dc_globals = dc_globals doc, dc_listen = [], dc_zones = []\<rparr>"
    using assms by (auto simp: document_ok_def dest: says_globals [where gs = "dc_globals doc" and i = 0])
  from says_zones [OF says_listens [OF this, of "dc_listen doc"], of "dc_zones doc"] assms
  have "says (parse_lines 0 (print_lines doc) (raw_config_default, []))
      \<lparr>dc_globals = dc_globals doc, dc_listen = dc_listen doc, dc_zones = dc_zones doc\<rparr>"
    by (simp add: document_ok_def print_lines_def parse_lines_append)
  moreover have "lines (print_document doc) = print_lines doc"
    unfolding print_document_def using print_lines_clean [OF assms] by (intro lines_concat) blast
  ultimately show ?thesis by (simp add: parse_def says_def)
qed

theorem parse_inverts_print_witness:
  "snd (parse (print_document \<lparr>dc_globals = [(GK_RrlOff, []), (GK_Ttl, ''300'')], dc_listen = [''::1''],
     dc_zones = [(''2001:db8::/64'', Some ''Host-%DIGITS%.example.net'', None)]\<rparr>)) = []"
proof -
  have "document_ok \<lparr>dc_globals = [(GK_RrlOff, []), (GK_Ttl, ''300'')], dc_listen = [''::1''],
     dc_zones = [(''2001:db8::/64'', Some ''Host-%DIGITS%.example.net'', None)]\<rparr>"
    by (simp add: document_ok_def lower_ok_def value_ok_def is_ascii_whitespace_def utf8_between_def)
  from parse_inverts_print [OF this] show ?thesis by blast
qed

end
