(* ===== verification/Addr_Text.thy ===== *)
theory Addr_Text
  imports Net_Text
begin

text \<open>
  Addresses as text, read back: whatever \<open>Display\<close> writes for an IPv4, IPv6 or socket address,
  \<open>FromStr\<close> reads as that address, also compressed and IPv4-mapped ones. The configuration
  suggests networks and the server logs addresses in this form.
\<close>

section \<open>Numbers in a base\<close>

fun base_string :: "nat \<Rightarrow> nat \<Rightarrow> string" where
  "base_string b n = (if n < b \<or> b < 2 then [''0123456789abcdef'' ! n]
     else base_string b (n div b) @ [''0123456789abcdef'' ! (n mod b)])"

declare base_string.simps [simp del]

lemma hex_string_base: "hex_string n = base_string 16 n"
proof (induction n rule: hex_string.induct)
  case (1 n)
  then show ?case by (cases "n < 16") (simp_all add: hex_string.simps [of n] base_string.simps [of 16 n])
qed

lemma dec_digit: "v < 10 \<Longrightarrow> ''0123456789'' ! v = ''0123456789abcdef'' ! v"
  using nth_append [of "''0123456789''" "''abcdef''" v] by simp

lemma dec_string_base: "dec_string n = base_string 10 n"
proof (induction n rule: dec_string.induct)
  case (1 n)
  then show ?case
    by (cases "n < 10") (simp_all add: dec_string.simps [of n] base_string.simps [of 10 n] dec_digit)
qed

lemma base_string_length: "n < b ^ w \<Longrightarrow> 0 < w \<Longrightarrow> 2 \<le> b \<Longrightarrow> length (base_string b n) \<le> w"
proof (induction w arbitrary: n)
  case (Suc w)
  show ?case
  proof (cases "n < b")
    case True
    then show ?thesis by (subst base_string.simps) simp
  next
    case False
    with Suc.prems have "0 < w" by (cases w) auto
    moreover have "n div b < b ^ w" using Suc.prems by (simp add: less_mult_imp_div_less mult.commute)
    ultimately have "length (base_string b (n div b)) \<le> w" using Suc by simp
    with False Suc.prems show ?thesis by (subst base_string.simps) simp
  qed
qed simp

lemma base_string_nonempty: "base_string b n \<noteq> []"
  by (subst base_string.simps) simp

lemma to_digit_base:
  assumes "v < b" and "b = 10 \<or> b = 16"
  shows "to_digit (of_nat b) (''0123456789abcdef'' ! v) = Some (of_nat v)"
proof -
  have "list_all (\<lambda>v. to_digit 16 (''0123456789abcdef'' ! v) = Some (of_nat v)) [0..<16]"
    "list_all (\<lambda>v. to_digit 10 (''0123456789abcdef'' ! v) = Some (of_nat v)) [0..<10]" by code_simp+
  then show ?thesis using assms by (auto simp: list_all_iff simp del: upt_rec_numeral)
qed

text \<open>The digits of a number are read completely, whatever follows.\<close>

lemma digit_run_base:
  assumes "b = 10 \<or> b = 16" and "n \<le> unat tmax"
    and "case lim of None \<Rightarrow> True | Some m \<Rightarrow> length (base_string b n) \<le> m"
  shows "digit_run (of_nat b) lim tmax (base_string b n @ rest) 0 0 =
    digit_run (of_nat b) lim tmax rest (of_nat n) (length (base_string b n))"
  using assms
proof (induction b n arbitrary: rest rule: base_string.induct)
  case (1 b n)
  have n64: "n < 2 ^ 64" using "1.prems"(2) unsigned_less [of tmax, where ?'a = nat] by simp
  then have max: "of_nat n \<le> tmax" using "1.prems"(2) by (simp add: word_le_nat_alt unat_of_nat)
  show ?case
  proof (cases "n < b")
    case True
    then show ?thesis
      using max "1.prems"(1,3) by (auto simp: base_string.simps [of b n] to_digit_base not_less split: option.splits)
  next
    case False
    let ?ds = "base_string b (n div b)" and ?d = "''0123456789abcdef'' ! (n mod b)"
    have b2: "\<not> b < 2" "n mod b < b" using "1.prems"(1) by auto
    have ds: "base_string b n = ?ds @ [?d]" using False b2 by (simp add: base_string.simps [of b n])
    have "of_nat (n div b) * of_nat b + of_nat (n mod b) = (of_nat n :: u64)"
      by (simp flip: of_nat_mult of_nat_add)
    moreover have "n div b \<le> unat tmax" using "1.prems"(2) by (meson div_le_dividend order.trans)
    moreover have "case lim of None \<Rightarrow> True | Some m \<Rightarrow> length ?ds \<le> m"
      using "1.prems"(3) by (auto simp: ds split: option.splits)
    moreover have "to_digit (of_nat b) ?d = Some (of_nat (n mod b))" by (rule to_digit_base [OF b2(2) "1.prems"(1)])
    ultimately show ?thesis
      using "1.IH" [of "?d # rest"] False b2 max "1.prems"(1,3) by (auto simp: ds not_less split: option.splits)
  qed
qed

definition stops :: "u64 \<Rightarrow> bytes \<Rightarrow> bool" where
  "stops radix rest \<longleftrightarrow> (case rest of [] \<Rightarrow> True | c # _ \<Rightarrow> to_digit radix c = None)"

lemma digit_run_stops: "stops radix rest \<Longrightarrow> digit_run radix lim tmax rest r k = Some (r, k, rest)"
  by (cases rest) (simp_all add: stops_def)

lemma alphabet_zero: "v < 16 \<Longrightarrow> ''0123456789abcdef'' ! v = CHR ''0'' \<Longrightarrow> v = 0"
proof -
  have "list_all (\<lambda>v. ''0123456789abcdef'' ! v = CHR ''0'' \<longrightarrow> v = 0) [0..<16]" by code_simp
  then show "v < 16 \<Longrightarrow> ''0123456789abcdef'' ! v = CHR ''0'' \<Longrightarrow> v = 0"
    by (auto simp: list_all_iff simp del: upt_rec_numeral)
qed

lemma base_string_lead: "b = 10 \<or> b = 16 \<Longrightarrow> hd (base_string b n) = CHR ''0'' \<Longrightarrow> n = 0"
proof (induction b n rule: base_string.induct)
  case (1 b n)
  show ?case
  proof (cases "n < b")
    case True
    with 1 show ?thesis by (auto simp: base_string.simps [of b n] intro: alphabet_zero)
  next
    case False
    with 1 base_string_nonempty [of b "n div b"] have "n div b = 0" by (auto simp: base_string.simps [of b n])
    with False 1 show ?thesis by (auto simp: div_eq_0_iff)
  qed
qed

lemma read_number_base:
  assumes "b = 10 \<or> b = 16" and "n \<le> unat tmax" and "stops (of_nat b) rest"
    and "case lim of None \<Rightarrow> True | Some m \<Rightarrow> length (base_string b n) \<le> m"
  shows "read_number (of_nat b) lim az tmax (base_string b n @ rest) = Some (of_nat n, rest)"
proof -
  have n64: "n < 2 ^ 64" using assms(2) unsigned_less [of tmax, where ?'a = nat] by simp
  then have max: "of_nat n \<le> tmax" using assms(2) by (simp add: word_le_nat_alt unat_of_nat)
  have "digit_run (of_nat b) lim tmax (base_string b n @ rest) 0 0 = Some (of_nat n, length (base_string b n), rest)"
    using digit_run_base [OF assms(1,2,4)] digit_run_stops [OF assms(3)] by simp
  moreover have "\<not> (take 1 (base_string b n @ rest) = ''0'' \<and> 1 < length (base_string b n))"
  proof
    assume *: "take 1 (base_string b n @ rest) = ''0'' \<and> 1 < length (base_string b n)"
    then have "hd (base_string b n) = CHR ''0''" using base_string_nonempty [of b n] by (cases "base_string b n") auto
    with base_string_lead [OF assms(1)] have "n = 0" by blast
    with * assms(1) show False by (auto simp: base_string.simps [of b 0])
  qed
  ultimately show ?thesis using max base_string_nonempty [of b n] by (simp add: read_number_def not_less)
qed

lemma read_hex:
  assumes "n < 65536" and "stops 16 rest"
  shows "read_number 16 (Some 4) True 0xFFFF (hex_string n @ rest) = Some (of_nat n, rest)"
  using read_number_base [of 16 n "0xFFFF" rest "Some 4" True] base_string_length [of n 16 4] assms
  by (simp add: hex_string_base)

lemma read_octet:
  assumes "n < 256" and "stops 10 rest"
  shows "read_number 10 (Some 3) False 255 (dec_string n @ rest) = Some (of_nat n, rest)"
  using read_number_base [of 10 n 255 rest "Some 3" False] base_string_length [of n 10 3] assms
  by (simp add: dec_string_base)

lemma read_decimal:
  assumes "n < 65536" and "stops 10 rest"
  shows "read_number 10 None True 0xFFFF (dec_string n @ rest) = Some (of_nat n, rest)"
  using read_number_base [of 10 n "0xFFFF" rest None True] assms by (simp add: dec_string_base)

section \<open>IPv4\<close>

lemma octets_list: "octets a = [unat (drop_bit 24 a AND 0xFF), unat (drop_bit 16 a AND 0xFF), unat (drop_bit 8 a AND 0xFF), unat (a AND 0xFF)]"
  by (simp add: octets_def)

lemma octet_bound: "unat ((x :: u32) AND 0xFF) < 256"
proof -
  have "x AND 0xFF \<le> 0xFF" by (rule word_and_le1)
  then show ?thesis by (simp add: word_le_nat_alt)
qed

lemma stops_dot: "stops 10 (CHR ''.'' # s)" and stops_colon: "stops 16 (CHR '':'' # s)" "stops 10 (CHR '':'' # s)"
  and stops_bracket: "stops 16 (CHR '']'' # s)" "stops 10 (CHR '']'' # s)"
  and stops_Nil: "stops r []"
proof -
  have "to_digit 10 (CHR ''.'') = None" "to_digit 16 (CHR '':'') = None" "to_digit 10 (CHR '':'') = None"
    "to_digit 16 (CHR '']'') = None" "to_digit 10 (CHR '']'') = None" by code_simp+
  then show "stops 10 (CHR ''.'' # s)" "stops 16 (CHR '':'' # s)" "stops 10 (CHR '':'' # s)"
    "stops 16 (CHR '']'' # s)" "stops 10 (CHR '']'' # s)" "stops r []" by (simp_all add: stops_def)
qed

lemmas stops_simps = stops_dot stops_colon stops_bracket stops_Nil

lemma read_show_ipv4:
  assumes "stops 10 rest"
  shows "read_ipv4_addr (show_ipv4 a @ rest) = Some (map of_nat (octets a), rest)"
  unfolding read_ipv4_addr_def show_ipv4_def octets_list
  by (simp add: read_separator_def read_octet octet_bound stops_simps assms)

text \<open>Words from their groups of bits.\<close>

lemma join_groups: "push_bit k (drop_bit (m + k) (a :: 'a :: len word)) OR take_bit k (drop_bit m a) = drop_bit m a"
proof (rule bit_word_eqI)
  fix n assume "n < LENGTH('a)"
  then show "bit (push_bit k (drop_bit (m + k) a) OR take_bit k (drop_bit m a)) n = bit (drop_bit m a) n"
    by (cases "n < k") (auto simp: bit_simps)
qed

lemma drop_bit_top: "take_bit k (drop_bit m (a :: 'a :: len word)) = drop_bit m a" if "LENGTH('a) \<le> m + k"
proof (rule bit_word_eqI)
  fix n assume "n < LENGTH('a)"
  then show "bit (take_bit k (drop_bit m a)) n = bit (drop_bit m a) n"
    using that by (auto simp: bit_simps dest: bit_imp_le_length)
qed

lemma octet_mask: "(x :: u32) AND 0xFF = take_bit 8 x"
proof -
  have "(0xFF :: u32) = mask 8" by (simp add: mask_eq_exp_minus_1)
  then show ?thesis by (simp only: take_bit_eq_mask)
qed

lemma octet_bits: "ucast (of_nat (unat ((x :: u32) AND 0xFF)) :: u64) = take_bit 8 x"
  by (simp add: octet_mask unsigned_ucast_eq)

lemma from_be_octets: "from_be 8 (map of_nat (octets a)) = (a :: u32)"
proof -
  have "from_be 8 (map of_nat (octets a)) =
      push_bit 8 (push_bit 8 (push_bit 8 (take_bit 8 (drop_bit 24 a)) OR take_bit 8 (drop_bit 16 a)) OR
        take_bit 8 (drop_bit 8 a)) OR take_bit 8 a"
    unfolding from_be_def octets_list list.map foldl.simps octet_bits by simp
  also have "take_bit 8 (drop_bit 24 a) = drop_bit 24 a" by (rule drop_bit_top) simp
  also have "push_bit 8 (drop_bit 24 a) OR take_bit 8 (drop_bit 16 a) = drop_bit 16 a" using join_groups [of 8 16 a] by simp
  also have "push_bit 8 (drop_bit 16 a) OR take_bit 8 (drop_bit 8 a) = drop_bit 8 a" using join_groups [of 8 8 a] by simp
  also have "push_bit 8 (drop_bit 8 a) OR take_bit 8 a = a" using join_groups [of 8 0 a] by simp
  finally show ?thesis .
qed

lemma segment_bits: "ucast (ucast (ucast (x :: u128) :: u16) :: u64) = take_bit 16 x"
  by (rule bit_word_eqI) (auto simp: bit_simps)

lemma segments_list:
  "segments a = [ucast (drop_bit 112 a), ucast (drop_bit 96 a), ucast (drop_bit 80 a), ucast (drop_bit 64 a),
     ucast (drop_bit 48 a), ucast (drop_bit 32 a), ucast (drop_bit 16 a), ucast a]"
  by (simp add: segments_def)

lemma from_be_segments: "from_be 16 (map ucast (segments a)) = (a :: u128)"
proof -
  note j = join_groups [of 16 _ a]
  have "from_be 16 (map ucast (segments a)) =
      push_bit 16 (push_bit 16 (push_bit 16 (push_bit 16 (push_bit 16 (push_bit 16 (push_bit 16
        (take_bit 16 (drop_bit 112 a)) OR take_bit 16 (drop_bit 96 a)) OR take_bit 16 (drop_bit 80 a)) OR
        take_bit 16 (drop_bit 64 a)) OR take_bit 16 (drop_bit 48 a)) OR take_bit 16 (drop_bit 32 a)) OR
        take_bit 16 (drop_bit 16 a)) OR take_bit 16 a"
    unfolding from_be_def segments_list list.map foldl.simps segment_bits by (simp only: push_bit_of_0 or.left_neutral)
  also have "take_bit 16 (drop_bit 112 a) = drop_bit 112 a" by (rule drop_bit_top) simp
  also have "push_bit 16 (drop_bit 112 a) OR take_bit 16 (drop_bit 96 a) = drop_bit 96 a" using j [of 96] by simp
  also have "push_bit 16 (drop_bit 96 a) OR take_bit 16 (drop_bit 80 a) = drop_bit 80 a" using j [of 80] by simp
  also have "push_bit 16 (drop_bit 80 a) OR take_bit 16 (drop_bit 64 a) = drop_bit 64 a" using j [of 64] by simp
  also have "push_bit 16 (drop_bit 64 a) OR take_bit 16 (drop_bit 48 a) = drop_bit 48 a" using j [of 48] by simp
  also have "push_bit 16 (drop_bit 48 a) OR take_bit 16 (drop_bit 32 a) = drop_bit 32 a" using j [of 32] by simp
  also have "push_bit 16 (drop_bit 32 a) OR take_bit 16 (drop_bit 16 a) = drop_bit 16 a" using j [of 16] by simp
  also have "push_bit 16 (drop_bit 16 a) OR take_bit 16 a = a" using j [of 0] by simp
  finally show ?thesis .
qed

section \<open>Groups of an IPv6 address\<close>

lemma digit_run_split:
  "digit_run radix lim tmax s r k = Some (v, k', rest) \<Longrightarrow>
   \<exists>ds. s = ds @ rest \<and> (\<forall>c \<in> set ds. to_digit radix c \<noteq> None) \<and> k' = k + length ds"
proof (induction s arbitrary: r k)
  case (Cons c s)
  show ?case
  proof (cases "to_digit radix c")
    case (Some d)
    then obtain r' where "digit_run radix lim tmax s r' (k + 1) = Some (v, k', rest)"
      using Cons.prems by (auto split: option.splits if_splits)
    from Cons.IH [OF this] obtain ds where "s = ds @ rest" "\<forall>c \<in> set ds. to_digit radix c \<noteq> None" "k' = k + 1 + length ds"
      by blast
    with Some show ?thesis by (intro exI [of _ "c # ds"]) auto
  qed (use Cons.prems in auto)
qed simp

lemma read_number_split:
  assumes "read_number radix lim az tmax s = Some (v, rest)"
  shows "\<exists>ds. s = ds @ rest \<and> (\<forall>c \<in> set ds. to_digit radix c \<noteq> None) \<and> ds \<noteq> []"
proof -
  from assms obtain r k where d: "digit_run radix lim tmax s 0 0 = Some (r, k, rest)" and "k \<noteq> 0"
    by (auto simp: read_number_def split: option.splits if_splits)
  with digit_run_split [OF d] show ?thesis by auto
qed

lemma dot_no_digit: "to_digit 10 (CHR ''.'') = None"
  by code_simp

text \<open>Text that has no dot before something that is neither digit nor dot is no IPv4 address.\<close>

lemma read_ipv4_no_dot:
  assumes "CHR ''.'' \<notin> set h" and "rest = [] \<or> (\<exists>c r. rest = c # r \<and> c \<noteq> CHR ''.'' \<and> to_digit 10 c = None)"
  shows "read_ipv4_addr (h @ rest) = None"
proof (cases "read_number 10 (Some 3) False 255 (h @ rest)")
  case None
  then show ?thesis by (simp add: read_ipv4_addr_def read_separator_def)
next
  case (Some p)
  obtain v s' where p: "p = (v, s')" by (cases p)
  from read_number_split [OF Some [unfolded p]] obtain ds where ds: "h @ rest = ds @ s'" "\<forall>c \<in> set ds. to_digit 10 c \<noteq> None"
    by blast
  have "read_given_char CHR ''.'' s' = None"
  proof (cases s')
    case (Cons c t)
    have "c \<noteq> CHR ''.''"
    proof
      assume c: "c = CHR ''.''"
      from ds(1) Cons obtain us where "h = ds @ us \<and> us @ rest = c # t \<or> ds = h @ us \<and> rest = us @ c # t"
        by (auto simp: append_eq_append_conv2)
      then show False
      proof
        assume "h = ds @ us \<and> us @ rest = c # t"
        with assms c show False by (cases us) auto
      next
        assume "ds = h @ us \<and> rest = us @ c # t"
        with assms(2) ds(2) c show False by (cases us) auto
      qed
    qed
    with Cons show ?thesis by simp
  qed simp
  with Some p show ?thesis by (simp add: read_ipv4_addr_def read_separator_def)
qed

text \<open>The text of groups at a position: after the first, each begins with its colon.\<close>

fun group_text :: "nat \<Rightarrow> u16 list \<Rightarrow> string" where
  "group_text i [] = []"
| "group_text i (s # ss) = (if i = 0 then [] else '':'') @ hex_string (unat s) @ group_text (i + 1) ss"

lemma fmt_subslice_text: "fmt_subslice ss = group_text 0 ss"
proof -
  have "join_with '':'' (hex_string (unat s) # map (\<lambda>s. hex_string (unat s)) ss) =
      hex_string (unat s) @ group_text (Suc i) ss" for i and s :: u16 and ss
  proof (induction ss arbitrary: i s)
    case (Cons x ss)
    from Cons [where i = "Suc i" and s = x] show ?case by simp
  qed simp
  then show ?thesis by (cases ss) (simp_all add: fmt_subslice_def)
qed

lemma base_string_chars: "b = 10 \<or> b = 16 \<Longrightarrow> set (base_string b n) \<subseteq> set ''0123456789abcdef''"
proof (induction b n rule: base_string.induct)
  case (1 b n)
  define A where "A = ''0123456789abcdef''"
  have "length A = 16" by (simp add: A_def)
  then have "A ! v \<in> set A" if "v < b" for v using that "1.prems" by (intro nth_mem) auto
  then show ?case using 1 unfolding base_string.simps [of b n] A_def [symmetric] by (cases "n < b") auto
qed

lemma hex_string_no_dot: "CHR ''.'' \<notin> set (hex_string n)"
  using base_string_chars [of 16 n] by (auto simp: hex_string_base)

text \<open>Where an address ends: at the end, before a compressed run, or before a bracket.\<close>

definition ends :: "bytes \<Rightarrow> bool" where
  "ends rest \<longleftrightarrow> rest = [] \<or> (\<exists>r. rest = CHR '':'' # CHR '':'' # r) \<or> (\<exists>r. rest = CHR '']'' # r)"

lemma ends_stops: "ends rest \<Longrightarrow> stops 16 rest" "ends rest \<Longrightarrow> stops 10 rest"
  by (auto simp: ends_def stops_simps)

lemma read_number_stops: "stops radix rest \<Longrightarrow> read_number radix lim az tmax rest = None"
  by (simp add: read_number_def digit_run_stops)

lemma read_ipv4_stops: "stops 10 rest \<Longrightarrow> read_ipv4_addr rest = None"
  by (simp add: read_ipv4_addr_def read_separator_def read_number_stops)

lemma read_groups_ends:
  assumes "ends rest"
  shows "read_groups limit i rest = ([], False, rest)"
proof -
  have "read_separator CHR '':'' i read_ipv4_addr rest = None"
    "read_separator CHR '':'' i (read_number 16 (Some 4) True 0xFFFF) rest = None"
    using assms ends_stops [OF assms]
    by (auto simp: read_separator_def ends_def read_ipv4_stops read_number_stops stops_simps)
  then show ?thesis by (subst read_groups.simps) simp
qed

lemma group_text_cont:
  assumes "ends rest" and "0 < i"
  shows "group_text i ss @ rest = [] \<or> (\<exists>c r. group_text i ss @ rest = c # r \<and> (c = CHR '':'' \<or> c = CHR '']''))"
  using assms by (cases ss) (auto simp: ends_def)

lemma read_groups_text:
  assumes "ends rest" and "i + length ss \<le> limit"
  shows "read_groups limit i (group_text i ss @ rest) = (map ucast ss, False, rest)"
  using assms
proof (induction ss arbitrary: i)
  case Nil
  then show ?case by (simp add: read_groups_ends)
next
  case (Cons s ss)
  let ?T = "group_text (i + 1) ss @ rest"
  have T: "?T = [] \<or> (\<exists>c r. ?T = c # r \<and> (c = CHR '':'' \<or> c = CHR '']''))"
    using group_text_cont [OF Cons.prems(1), of "i + 1" ss] by simp
  then have T16: "stops 16 ?T" and T4: "?T = [] \<or> (\<exists>c r. ?T = c # r \<and> c \<noteq> CHR ''.'' \<and> to_digit 10 c = None)"
    using stops_simps by (auto simp: stops_def)
  have "read_ipv4_addr (hex_string (unat s) @ ?T) = None"
    by (rule read_ipv4_no_dot [OF hex_string_no_dot T4])
  moreover have "unat s < 65536" using unsigned_less [of s, where ?'a = nat] by simp
  from read_hex [OF this T16] have "read_number 16 (Some 4) True 0xFFFF (hex_string (unat s) @ ?T) = Some (ucast s, ?T)"
    by (simp add: of_nat_unat)
  moreover have "read_groups limit (i + 1) ?T = (map ucast ss, False, rest)"
    using Cons by simp
  moreover have "\<not> limit \<le> i" using Cons.prems by simp
  ultimately show ?case
    by (cases "i = 0") (subst read_groups.simps, simp add: read_separator_def)+
qed

text \<open>The longest run of zeros consists of zeros.\<close>

definition zeros_at :: "u16 list \<Rightarrow> nat \<times> nat \<Rightarrow> bool" where
  "zeros_at ss r \<longleftrightarrow> (\<forall>k < snd r. ss ! (fst r + k) = 0)"

lemma zero_run_zeros:
  assumes "zeros_at (pre @ xs) cur" and "snd cur = 0 \<or> fst cur + snd cur = length pre"
    and "zeros_at (pre @ xs) lng" and "fst lng + snd lng \<le> length pre"
  shows "zeros_at (pre @ xs) (zero_run (length pre) xs cur lng) \<and>
    fst (zero_run (length pre) xs cur lng) + snd (zero_run (length pre) xs cur lng) \<le> length (pre @ xs)"
  using assms
proof (induction xs arbitrary: pre cur lng)
  case (Cons x xs)
  let ?cur = "((if snd cur = 0 then length pre else fst cur), snd cur + 1)"
  let ?lng = "if snd ?cur > snd lng then ?cur else lng"
  show ?case
  proof (cases "x = 0")
    case True
    have z: "zeros_at ((pre @ [x]) @ xs) ?cur"
      using Cons.prems(1,2) True by (auto simp: zeros_at_def less_Suc_eq)
    have len: "fst ?cur + snd ?cur = length (pre @ [x])" using Cons.prems(2) by auto
    have "zeros_at ((pre @ [x]) @ xs) ?lng" "fst ?lng + snd ?lng \<le> length (pre @ [x])"
      using z len Cons.prems(3,4) by auto
    moreover have "zero_run (length pre) (x # xs) cur lng = zero_run (length (pre @ [x])) xs ?cur ?lng"
      by (simp add: True Let_def cong: if_cong split del: if_split)
    ultimately show ?thesis using Cons.IH [OF z _ \<open>zeros_at ((pre @ [x]) @ xs) ?lng\<close>] len by simp
  next
    case False
    have "zeros_at ((pre @ [x]) @ xs) (0, 0)" by (simp add: zeros_at_def)
    from Cons.IH [OF this, of lng] Cons.prems(3,4) False show ?thesis by simp
  qed
qed simp

lemma zero_run_replicate:
  assumes "zero_run 0 ss (0, 0) (0, 0) = (start, len)"
  shows "ss = take start ss @ replicate len 0 @ drop (start + len) ss \<and> start + len \<le> length ss"
proof -
  have z: "\<forall>k < len. ss ! (start + k) = 0" and l: "start + len \<le> length ss"
    using zero_run_zeros [of "[]" ss "(0, 0)" "(0, 0)"] assms by (simp_all add: zeros_at_def)
  have "take len (drop start ss) = replicate len 0"
    using z l by (intro nth_equalityI) auto
  then have "drop start ss = replicate len 0 @ drop (start + len) ss"
    by (metis append_take_drop_id drop_drop add.commute)
  with l show ?thesis by (metis append_take_drop_id)
qed

section \<open>IPv6\<close>

lemma length_segments [simp]: "length (segments a) = 8"
  by (simp add: segments_def)

text \<open>An IPv4-mapped address is written with its dotted quad.\<close>

lemma two_octets:
  assumes "m + 16 \<le> 32"
  shows "ucast (push_bit 8 (ucast (take_bit 8 (drop_bit (m + 8) (ucast a :: u32))) :: u64) OR
    ucast (take_bit 8 (drop_bit m (ucast a :: u32)))) = take_bit 16 (drop_bit m (a :: u128))"
proof (rule bit_word_eqI)
  fix n assume "n < LENGTH(128)"
  then show "bit (ucast (push_bit 8 (ucast (take_bit 8 (drop_bit (m + 8) (ucast a :: u32))) :: u64) OR
      ucast (take_bit 8 (drop_bit m (ucast a :: u32)))) :: u128) n = bit (take_bit 16 (drop_bit m a)) n"
    using assms by (cases "n < 8"; cases "n < 16") (auto simp: bit_simps)
qed

lemma mapped_segments:
  assumes "drop_bit 32 (a :: u128) = 0xFFFF"
  shows "from_be 16 ([0, 0, 0, 0, 0, 0xFFFF,
    from_be 8 (take 2 (map of_nat (octets (ucast a)))), from_be 8 (drop 2 (map of_nat (octets (ucast a))))]) = a"
proof -
  let ?v = "ucast a :: u32"
  have hi: "ucast (from_be 8 (take 2 (map of_nat (octets ?v))) :: u64) = take_bit 16 (drop_bit 16 a)"
    using two_octets [of 16 a] by (simp add: octets_list from_be_def octet_mask)
  have lo: "ucast (from_be 8 (drop 2 (map of_nat (octets ?v))) :: u64) = take_bit 16 a"
    using two_octets [of 0 a] by (simp add: octets_list from_be_def octet_mask)
  have "from_be 16 ([0, 0, 0, 0, 0, 0xFFFF, x, y]) = push_bit 16 (push_bit 16 (drop_bit 32 a) OR ucast x) OR ucast y" for x y
    by (simp only: assms) (simp add: from_be_def)
  then have "from_be 16 ([0, 0, 0, 0, 0, 0xFFFF,
      from_be 8 (take 2 (map of_nat (octets (ucast a)))), from_be 8 (drop 2 (map of_nat (octets (ucast a))))]) =
      push_bit 16 (push_bit 16 (drop_bit 32 a) OR take_bit 16 (drop_bit 16 a)) OR take_bit 16 a" by (simp only: hi lo)
  also have "push_bit 16 (drop_bit 32 a) OR take_bit 16 (drop_bit 16 a) = drop_bit 16 a" using join_groups [of 16 16 a] by simp
  also have "push_bit 16 (drop_bit 16 a) OR take_bit 16 a = a" using join_groups [of 16 0 a] by simp
  finally show ?thesis .
qed

lemma read_show_mapped:
  assumes mapped: "drop_bit 32 a = 0xFFFF" and "ends rest"
  shows "read_ipv6_addr (show_ipv6 a @ rest) = Some (a, rest)"
proof -
  let ?v4 = "show_ipv4 (ucast a)" and ?os = "map of_nat (octets (ucast a :: u32)) :: u64 list"
  have e: "ends (''::'' @ t)" for t by (simp add: ends_def)
  have hex: "hex_string 0xFFFF = ''ffff''" by (simp add: hex_string.simps)
  have "read_ipv4_addr (''ffff'' @ '':'' @ ?v4 @ rest) = None"
    using stops_colon(2) by (intro read_ipv4_no_dot) (auto simp: stops_def)
  moreover have "read_number 16 (Some 4) True 0xFFFF (''ffff'' @ '':'' @ ?v4 @ rest) = Some (0xFFFF, '':'' @ ?v4 @ rest)"
    using read_hex [of "0xFFFF" "'':'' @ ?v4 @ rest"] by (simp add: hex stops_simps)
  moreover have "read_ipv4_addr (?v4 @ rest) = Some (?os, rest)"
    by (rule read_show_ipv4 [OF ends_stops(2) [OF assms(2)]])
  then have "read_groups 7 1 ('':'' @ ?v4 @ rest) = ([from_be 8 (take 2 ?os), from_be 8 (drop 2 ?os)], True, rest)"
    by (subst read_groups.simps) (simp add: read_separator_def)
  ultimately have "read_groups 7 0 (''ffff'' @ '':'' @ ?v4 @ rest) =
      ([0xFFFF, from_be 8 (take 2 ?os), from_be 8 (drop 2 ?os)], True, rest)"
    by (subst read_groups.simps) (simp add: read_separator_def)
  moreover have "show_ipv6 a @ rest = ''::'' @ ''ffff'' @ '':'' @ ?v4 @ rest" using mapped by (simp add: show_ipv6_def)
  moreover have "replicate 5 (0 :: u64) = [0, 0, 0, 0, 0]" by (simp add: numeral_eq_Suc)
  ultimately show ?thesis
    using read_groups_ends [OF e [of "''ffff'' @ '':'' @ ?v4 @ rest"], of 8 0] mapped_segments [OF mapped]
    by (simp add: read_ipv6_addr_def)
qed

lemma read_show_groups:
  assumes other: "drop_bit 32 a \<noteq> 0xFFFF" and "ends rest"
  shows "read_ipv6_addr (show_ipv6 a @ rest) = Some (a, rest)"
proof -
  let ?ss = "segments a"
  obtain start len where z: "zero_run 0 ?ss (0, 0) (0, 0) = (start, len)" by fastforce
  note split = zero_run_replicate [OF z]
  show ?thesis
  proof (cases "1 < len")
    case compressed: True
    define hs where "hs = take start ?ss"
    define ts where "ts = drop (start + len) ?ss"
    from split have ss: "?ss = hs @ replicate len 0 @ ts" and l: "length hs = start" "length ts = 8 - (start + len)" "start + len \<le> 8"
      by (simp_all add: hs_def ts_def)
    have shown: "show_ipv6 a @ rest = group_text 0 hs @ ''::'' @ group_text 0 ts @ rest"
      using other z compressed by (simp add: show_ipv6_def fmt_subslice_text Let_def hs_def ts_def)
    have "ends (''::'' @ group_text 0 ts @ rest)" by (simp add: ends_def)
    then have h: "read_groups 8 0 (show_ipv6 a @ rest) = (map ucast hs, False, ''::'' @ group_text 0 ts @ rest)"
      unfolding shown by (rule read_groups_text) (use l in simp)
    have t: "read_groups (8 - (start + 1)) 0 (group_text 0 ts @ rest) = (map ucast ts, False, rest)"
      by (rule read_groups_text [OF assms(2)]) (use l compressed in simp)
    have "from_be 16 (map ucast hs @ replicate len 0 @ map ucast ts) = a"
      using from_be_segments [of a] unfolding ss by (simp only: map_append map_replicate unsigned_0)
    moreover have "8 - length hs - length ts = len" "length hs \<noteq> 8" using l compressed by simp_all
    ultimately show ?thesis using t l(1) unfolding read_ipv6_addr_def h prod.case by simp
  next
    case plain: False
    have "show_ipv6 a @ rest = group_text 0 ?ss @ rest"
      using other z plain by (simp add: show_ipv6_def fmt_subslice_text Let_def)
    then have "read_groups 8 0 (show_ipv6 a @ rest) = (map ucast ?ss, False, rest)"
      using read_groups_text [OF assms(2), of 0 ?ss 8] by simp
    then show ?thesis using from_be_segments [of a] by (simp add: read_ipv6_addr_def)
  qed
qed

lemma read_show_ipv6: "ends rest \<Longrightarrow> read_ipv6_addr (show_ipv6 a @ rest) = Some (a, rest)"
  using read_show_mapped read_show_groups by blast

section \<open>Addresses and sockets\<close>

lemma ipv6_roundtrip: "ipv6_from_str (show_ipv6 a) = Some a"
  using read_show_ipv6 [of "[]" a] by (simp add: ipv6_from_str_def parse_with_def ends_def)

text \<open>The text of an IPv6 address is none of an IPv4 address: before its first colon there is no dot.\<close>

lemma show_ipv6_colon: "\<exists>h r. show_ipv6 a = h @ CHR '':'' # r \<and> CHR ''.'' \<notin> set h"
proof (cases "drop_bit 32 a = 0xFFFF")
  case True
  then have "show_ipv6 a = [] @ CHR '':'' # '':ffff:'' @ show_ipv4 (ucast a)" by (simp add: show_ipv6_def)
  moreover have "CHR ''.'' \<notin> set ([] :: string)" by simp
  ultimately show ?thesis by blast
next
  case False
  obtain start len where z: "zero_run 0 (segments a) (0, 0) (0, 0) = (start, len)" by fastforce
  have dot: ?thesis if "show_ipv6 a = h @ CHR '':'' # r" "CHR ''.'' \<notin> set h" for h r using that by blast
  show ?thesis
  proof (cases "1 < len")
    case True
    define hs where "hs = take start (segments a)"
    define t where "t = '':'' @ group_text 0 (drop (start + len) (segments a))"
    have s: "show_ipv6 a = group_text 0 hs @ CHR '':'' # t"
      using False z True by (simp add: show_ipv6_def fmt_subslice_text Let_def hs_def t_def)
    show ?thesis
    proof (cases hs)
      case Nil
      with s show ?thesis by (intro dot [of "[]" t]) simp_all
    next
      case (Cons x xs)
      show ?thesis
      proof (cases xs)
        case Nil
        with s Cons show ?thesis by (intro dot [of "hex_string (unat x)" t]) (simp_all add: hex_string_no_dot)
      next
        case (Cons y ys)
        with s \<open>hs = x # xs\<close> show ?thesis
          by (intro dot [of "hex_string (unat x)" "hex_string (unat y) @ group_text 2 ys @ CHR '':'' # t"])
            (simp_all add: hex_string_no_dot numeral_2_eq_2)
      qed
    qed
  next
    case plain: False
    then show ?thesis using False z
      by (intro dot [of "hex_string (unat (hd (segments a)))" "tl (group_text 1 (tl (segments a)))"])
        (simp_all add: show_ipv6_def fmt_subslice_text Let_def segments_list hex_string_no_dot)
  qed
qed

lemma read_ipv4_of_ipv6: "read_ipv4_addr (show_ipv6 a @ rest) = None"
proof -
  obtain h r where "show_ipv6 a = h @ CHR '':'' # r" "CHR ''.'' \<notin> set h" using show_ipv6_colon by blast
  with read_ipv4_no_dot [of h "CHR '':'' # r @ rest"] stops_colon(2) show ?thesis by (auto simp: stops_def)
qed

lemma ip_roundtrip: "ip_from_str (show_ip a) = Some a"
proof (cases a)
  case (V4 x)
  then show ?thesis
    using read_show_ipv4 [of "[]" x] by (simp add: ip_from_str_def parse_with_def read_ip_addr_def stops_simps from_be_octets)
next
  case (V6 x)
  then show ?thesis
    using read_show_ipv6 [of "[]" x] read_ipv4_of_ipv6 [of x "[]"]
    by (simp add: ip_from_str_def parse_with_def read_ip_addr_def ends_def)
qed

lemma read_port_dec: "read_port (CHR '':'' # dec_string (unat (p :: u16))) = Some (p, [])"
proof -
  have "unat p < 65536" using unsigned_less [of p, where ?'a = nat] by simp
  moreover have "ucast (ucast p :: u64) = p" by (rule bit_word_eqI) (auto simp: bit_simps)
  ultimately show ?thesis using read_decimal [of "unat p" "[]"] by (simp add: read_port_def stops_Nil)
qed

lemma socket_addr_roundtrip: "socket_addr_from_str (show_socket_addr sa) = Some sa"
proof -
  obtain a p where sa: "sa = (a, p)" by (cases sa)
  show ?thesis
  proof (cases a)
    case (V4 x)
    have "read_ipv4_addr (show_ipv4 x @ '':'' @ dec_string (unat p)) = Some (map of_nat (octets x), '':'' @ dec_string (unat p))"
      by (rule read_show_ipv4) (simp add: stops_simps)
    with V4 sa show ?thesis
      by (simp add: socket_addr_from_str_def parse_with_def read_socket_addr_v4_def read_port_dec from_be_octets)
  next
    case (V6 x)
    have "read_ipv6_addr (show_ipv6 x @ '']:'' @ dec_string (unat p)) = Some (x, '']:'' @ dec_string (unat p))"
      by (rule read_show_ipv6) (simp add: ends_def)
    moreover have "read_ipv4_addr (''['' @ t) = None" for t
    proof -
      have "to_digit 10 (CHR ''['') = None" by code_simp
      then have "stops 10 (''['' @ t)" by (simp add: stops_def)
      then show ?thesis by (rule read_ipv4_stops)
    qed
    ultimately show ?thesis using V6 sa
      by (simp add: socket_addr_from_str_def parse_with_def read_socket_addr_v4_def read_socket_addr_v6_def read_port_dec
          read_scope_id_def)
  qed
qed

section \<open>Prefix lengths\<close>

lemma u32_digits_base:
  assumes "n \<le> unat u32_max"
  shows "u32_digits (base_string 10 n @ rest) 0 = u32_digits rest (of_nat n)"
  using assms
proof (induction "10 :: nat" n arbitrary: rest rule: base_string.induct)
  case (1 n)
  have max: "of_nat n \<le> u32_max" using "1.prems" by (simp add: word_le_nat_alt unat_of_nat u32_max_def)
  have dig: "to_digit 10 (''0123456789abcdef'' ! v) = Some (of_nat v)" if "v < 10" for v
    using to_digit_base [of v 10] that by simp
  show ?case
  proof (cases "n < 10")
    case True
    then show ?thesis using max dig by (simp add: base_string.simps [of 10 n])
  next
    case False
    have "of_nat (n div 10) * 10 + of_nat (n mod 10) = (of_nat n :: u64)"
      by (metis div_mult_mod_eq of_nat_add of_nat_mult of_nat_numeral)
    moreover have "n div 10 \<le> unat u32_max" using "1.prems" by simp
    ultimately show ?thesis
      using "1.hyps" [OF _ \<open>n div 10 \<le> unat u32_max\<close>, of "[''0123456789abcdef'' ! (n mod 10)] @ rest"] False max dig
      by (simp add: base_string.simps [of 10 n])
  qed
qed

lemma u32_roundtrip: "u32_from_str (dec_string (unat (m :: u8))) = Some (ucast m)"
proof -
  let ?s = "base_string 10 (unat m)"
  have m: "unat m < 256" using unsigned_less [of m, where ?'a = nat] by simp
  then have d: "u32_digits ?s 0 = Some (of_nat (unat m))"
    using u32_digits_base [of "unat m" "[]"] by (simp add: u32_max_def)
  obtain c s where s: "?s = c # s" using base_string_nonempty [of 10 "unat m"] by (cases ?s) auto
  then have "c \<noteq> CHR ''+''" using base_string_chars [of 10 "unat m"] by auto
  with s d show ?thesis by (simp add: u32_from_str_def dec_string_base) (rule bit_word_eqI, auto simp: bit_simps)
qed

end
