(* ===== verification/Rrl.thy ===== *)
theory Rrl
  imports Config
begin

text \<open>
  \<open>src/src/rrl.rs\<close>: response rate limiting. The keyed token-bucket limiter is the crate
  \<open>governor\<close>, which is not part of the repository: its operations are the record \<open>governor\<close>,
  with the clock's reading as an argument, and what the program relies on is the locale
  \<open>keyed_limiter\<close> (one bucket per key). The lemmas show which clients
  share a bucket, that buckets do not interfere and what a run of suppressed responses looks
  like; how many responses a client prefix can draw is in \<open>Rate\<close>.
\<close>

section \<open>ClientKey\<close>

datatype client_key = Key_V4 u32 | Key_V6 u64

text \<open>The derived order: by variant, then by the masked bits.\<close>

instantiation client_key :: linorder
begin

fun less_eq_client_key :: "client_key \<Rightarrow> client_key \<Rightarrow> bool" where
  "less_eq_client_key (Key_V4 a) (Key_V4 b) \<longleftrightarrow> a \<le> b"
| "less_eq_client_key (Key_V4 a) (Key_V6 b) \<longleftrightarrow> True"
| "less_eq_client_key (Key_V6 a) (Key_V4 b) \<longleftrightarrow> False"
| "less_eq_client_key (Key_V6 a) (Key_V6 b) \<longleftrightarrow> a \<le> b"

definition less_client_key :: "client_key \<Rightarrow> client_key \<Rightarrow> bool" where
  "less_client_key a b \<longleftrightarrow> a \<le> b \<and> \<not> b \<le> a"

instance
proof
  fix a b c :: client_key
  show "a < b \<longleftrightarrow> a \<le> b \<and> \<not> b \<le> a" by (simp add: less_client_key_def)
  show "a \<le> a" by (cases a) simp_all
  show "a \<le> b \<Longrightarrow> b \<le> c \<Longrightarrow> a \<le> c" by (cases a; cases b; cases c) auto
  show "a \<le> b \<Longrightarrow> b \<le> a \<Longrightarrow> a = b" by (cases a; cases b) auto
  show "a \<le> b \<or> b \<le> a" by (cases a; cases b) auto
qed

end

definition client_key_new :: "ip_addr \<Rightarrow> u8 \<Rightarrow> u8 \<Rightarrow> client_key" where
  "client_key_new addr ipv4_prefix ipv6_prefix =
    (case addr of
       V4 bits \<Rightarrow>
         (let shift = saturating_sub (32 :: u32) (ucast (min ipv4_prefix 32))
          in Key_V4 (if shift \<ge> 32 then 0 else push_bit (unat shift) (drop_bit (unat shift) bits)))
     | V6 v6 \<Rightarrow>
         (let high = (ucast (drop_bit 64 v6) :: u64);
              p = min ipv6_prefix 64;
              shift = saturating_sub (64 :: u32) (ucast p)
          in Key_V6 (if shift \<ge> 64 then 0 else push_bit (unat shift) (drop_bit (unat shift) high))))"

datatype kind = Kind_Answer | Kind_Negative

datatype decision = Allow | Drop | Truncate

section \<open>The limiter crate\<close>

text \<open>The clock is read once per operation, in nanoseconds since its start.\<close>

record ('q, 'l) governor =
  per_second :: "u32 \<Rightarrow> 'q"
  allow_burst :: "'q \<Rightarrow> u32 \<Rightarrow> 'q"
  keyed :: "'q \<Rightarrow> 'l"
  check_key :: "'l \<Rightarrow> client_key \<Rightarrow> nat \<Rightarrow> bool \<times> 'l"
  retain_recent :: "'l \<Rightarrow> nat \<Rightarrow> 'l"
  limiter_len :: "'l \<Rightarrow> nat"

section \<open>Rrl\<close>

record 'l rrl =
  rl_params :: rrl_params
  rl_answers :: 'l
  rl_negatives :: 'l
  rl_suppressed :: u64

definition quota :: "('q, 'l) governor \<Rightarrow> rrl_params \<Rightarrow> 'q" where
  "quota G params =
    (let rps = (if rp_responses_per_second params \<noteq> 0 then rp_responses_per_second params else 1);
         burst = (if rp_burst params \<noteq> 0 then rp_burst params else rps)
     in allow_burst G (per_second G rps) burst)"

definition rrl_new :: "('q, 'l) governor \<Rightarrow> rrl_params \<Rightarrow> 'l rrl" where
  "rrl_new G params =
    (let q = quota G params
     in \<lparr>rl_params = params, rl_answers = keyed G q, rl_negatives = keyed G q, rl_suppressed = 0\<rparr>)"

text \<open>The decision on the \<open>n\<close>th suppressed response, from the \<open>slip\<close> parameter.\<close>

definition slip_decision :: "u32 \<Rightarrow> u64 \<Rightarrow> decision" where
  "slip_decision slip n =
    (if slip = 0 then Drop else if n mod ucast slip = 0 then Truncate else Drop)"

definition rrl_decide ::
  "('q, 'l) governor \<Rightarrow> 'l rrl \<Rightarrow> ip_addr \<Rightarrow> kind \<Rightarrow> bool \<Rightarrow> nat \<Rightarrow> decision \<times> 'l rrl" where
  "rrl_decide G r addr k is_tcp now =
    (if \<not> rp_enabled (rl_params r) \<or> is_tcp then (Allow, r)
     else
       let key = client_key_new addr (rp_ipv4_prefix (rl_params r)) (rp_ipv6_prefix (rl_params r));
           (ok, r') = (case k of
              Kind_Answer \<Rightarrow> (let (ok, l) = check_key G (rl_answers r) key now
                in (ok, r\<lparr>rl_answers := l\<rparr>))
            | Kind_Negative \<Rightarrow> (let (ok, l) = check_key G (rl_negatives r) key now
                in (ok, r\<lparr>rl_negatives := l\<rparr>)))
       in if ok then (Allow, r')
          else
            let n = rl_suppressed r';
                r'' = r'\<lparr>rl_suppressed := n + 1\<rparr>
            in (slip_decision (rp_slip (rl_params r'')) n, r''))"

definition sweep :: "('q, 'l) governor \<Rightarrow> 'l rrl \<Rightarrow> nat \<Rightarrow> 'l rrl" where
  "sweep G r now =
    (let r' = r\<lparr>rl_answers := retain_recent G (rl_answers r) now\<rparr>
     in r'\<lparr>rl_negatives := retain_recent G (rl_negatives r') now\<rparr>)"

definition tracked :: "('q, 'l) governor \<Rightarrow> 'l rrl \<Rightarrow> nat" where
  "tracked G r = saturating_add (limiter_len G (rl_answers r)) (limiter_len G (rl_negatives r))"

definition rrl_enabled :: "'l rrl \<Rightarrow> bool" where
  "rrl_enabled r = rp_enabled (rl_params r)"

section \<open>Which clients share a bucket\<close>

lemma shift_down_up_eq_iff:
  "push_bit s (drop_bit s x) = push_bit s (drop_bit s y) \<longleftrightarrow> drop_bit s x = drop_bit s (y :: 'a :: len word)"
proof
  assume *: "push_bit s (drop_bit s x) = push_bit s (drop_bit s y)"
  show "drop_bit s x = drop_bit s y"
  proof (rule bit_word_eqI)
    fix n
    show "bit (drop_bit s x) n \<longleftrightarrow> bit (drop_bit s y) n"
      using arg_cong [OF *, of "\<lambda>w. bit w (s + n)"]
      by (auto simp: bit_push_bit_iff bit_drop_bit_eq dest: bit_imp_le_length)
  qed
qed simp

lemma unat_prefix_shift:
  "unat (saturating_sub (w :: u32) (ucast (p :: u8))) = unat w - unat p"
proof -
  have "unat (ucast p :: u32) = unat p" 
    using unsigned_less [where ?'a = nat, of p] by (simp add: unsigned_ucast_eq take_bit_nat_eq_self)
  then show ?thesis by (auto simp: saturating_sub_def word_le_nat_alt unat_sub)
qed

lemma high_word_drop: "drop_bit s (ucast (drop_bit 64 a) :: u64) = drop_bit s (ucast (drop_bit 64 b)) \<longleftrightarrow>
  drop_bit (64 + s) a = drop_bit (64 + s) (b :: u128)"
proof -
  have "drop_bit s (ucast (drop_bit 64 x) :: u64) = ucast (drop_bit (64 + s) x)" for x :: u128
    by (rule bit_word_eqI) (auto simp: bit_drop_bit_eq bit_ucast_iff ac_simps dest: bit_imp_le_length)
  moreover have "ucast (drop_bit (64 + s) x) = (ucast (drop_bit (64 + s) y) :: u64) \<longleftrightarrow>
      drop_bit (64 + s) x = drop_bit (64 + s) y" for x y :: u128
  proof
    assume *: "ucast (drop_bit (64 + s) x) = (ucast (drop_bit (64 + s) y) :: u64)"
    show "drop_bit (64 + s) x = drop_bit (64 + s) y"
    proof (rule bit_word_eqI)
      fix n show "bit (drop_bit (64 + s) x) n \<longleftrightarrow> bit (drop_bit (64 + s) y) n"
        using arg_cong [OF *, of "\<lambda>w. bit w n"]
        by (cases "n < 64") (auto simp: bit_ucast_iff bit_drop_bit_eq dest: bit_imp_le_length)
    qed
  qed simp
  ultimately show ?thesis by simp
qed

lemma min_prefix_le: "unat (min p 32 :: u8) \<le> 32" "unat (min p 64 :: u8) \<le> 64"
  by (simp_all add: min_def word_le_nat_alt)

lemma client_key_V4:
  "client_key_new (V4 a) p4 p6 = Key_V4 (if unat (min p4 32) = 0 then 0
     else push_bit (32 - unat (min p4 32)) (drop_bit (32 - unat (min p4 32)) a))"
proof -
  let ?s = "saturating_sub (32 :: u32) (ucast (min p4 32))"
  have s: "unat ?s = 32 - unat (min p4 32)" by (simp only: unat_prefix_shift) simp
  then have "?s \<ge> 32 \<longleftrightarrow> unat (min p4 32) = 0"
    using min_prefix_le(1) [of p4] by (simp only: word_le_nat_alt) auto
  then show ?thesis unfolding client_key_new_def Let_def ip_addr.case s by simp
qed

lemma client_key_V6:
  "client_key_new (V6 a) p4 p6 = Key_V6 (if unat (min p6 64) = 0 then 0
     else push_bit (64 - unat (min p6 64)) (drop_bit (64 - unat (min p6 64)) (ucast (drop_bit 64 a))))"
proof -
  let ?s = "saturating_sub (64 :: u32) (ucast (min p6 64))"
  have s: "unat ?s = 64 - unat (min p6 64)" by (simp only: unat_prefix_shift) simp
  then have "?s \<ge> 64 \<longleftrightarrow> unat (min p6 64) = 0"
    using min_prefix_le(2) [of p6] by (simp only: word_le_nat_alt) auto
  then show ?thesis unfolding client_key_new_def Let_def ip_addr.case s by simp
qed

text \<open>
  Rate-limit buckets aggregate by prefix: two IPv4 clients share a bucket exactly
  when they agree on the first \<open>min p4 32\<close> bits, two IPv6 clients exactly when they agree on
  the first \<open>min p6 64\<close> bits, and clients of different families never do.
\<close>

lemma client_key_aggregates_prefix:
  "(client_key_new (V4 a) p4 p6 = client_key_new (V4 b) p4 p6 \<longleftrightarrow>
      drop_bit (32 - unat (min p4 32)) a = drop_bit (32 - unat (min p4 32)) b) \<and>
   (client_key_new (V6 c) p4 p6 = client_key_new (V6 d) p4 p6 \<longleftrightarrow>
      drop_bit (128 - unat (min p6 64)) c = drop_bit (128 - unat (min p6 64)) d) \<and>
   client_key_new (V4 a) p4 p6 \<noteq> client_key_new (V6 c) p4 p6"
proof -
  have "drop_bit 32 x = 0" for x :: u32 by (rule bit_word_eqI) (simp add: bit_drop_bit_eq)
  then have "client_key_new (V4 a) p4 p6 = client_key_new (V4 b) p4 p6 \<longleftrightarrow>
      drop_bit (32 - unat (min p4 32)) a = drop_bit (32 - unat (min p4 32)) b"
    by (simp add: client_key_V4 shift_down_up_eq_iff)
  moreover have "drop_bit 128 x = 0" for x :: u128 by (rule bit_word_eqI) (simp add: bit_drop_bit_eq)
  then have "client_key_new (V6 c) p4 p6 = client_key_new (V6 d) p4 p6 \<longleftrightarrow>
      drop_bit (128 - unat (min p6 64)) c = drop_bit (128 - unat (min p6 64)) d"
    using high_word_drop [of "64 - unat (min p6 64)" c d] min_prefix_le(2) [of p6]
    by (simp add: client_key_V6 shift_down_up_eq_iff)
  ultimately show ?thesis by (simp add: client_key_V4 client_key_V6)
qed

section \<open>What the limiter crate promises\<close>

fun admits :: "('b \<Rightarrow> nat \<Rightarrow> bool \<times> 'b) \<Rightarrow> 'b \<Rightarrow> nat list \<Rightarrow> bool list" where
  "admits f b [] = []"
| "admits f b (t # ts) = fst (f b t) # admits f (snd (f b t)) ts"

text \<open>
  A keyed limiter keeps one bucket per key: a check reads and updates the bucket of its own
  key only. What \<open>retain_recent\<close> may forget is in the extension \<open>token_bucket\<close> of \<open>Rate\<close>.
\<close>

locale keyed_limiter =
  fixes G :: "('q, 'l) governor" and bucket :: "'l \<Rightarrow> client_key \<Rightarrow> 'b"
    and admit :: "'b \<Rightarrow> nat \<Rightarrow> bool \<times> 'b"
  assumes check_ok: "fst (check_key G l key t) = fst (admit (bucket l key) t)"
    and check_bucket: "bucket (snd (check_key G l key t)) key' =
      (if key' = key then snd (admit (bucket l key) t) else bucket l key')"

section \<open>Runs\<close>

text \<open>A request to decide: the client, the budget, the transport and the clock's reading.\<close>

type_synonym rrl_event = "ip_addr \<times> kind \<times> bool \<times> nat"

fun rrl_run :: "('q, 'l) governor \<Rightarrow> 'l rrl \<Rightarrow> rrl_event list \<Rightarrow> decision list \<times> 'l rrl" where
  "rrl_run G r [] = ([], r)"
| "rrl_run G r ((addr, k, tcp, t) # es) =
    (let (d, r') = rrl_decide G r addr k tcp t; (ds, r'') = rrl_run G r' es in (d # ds, r''))"

definition event_key :: "rrl_params \<Rightarrow> rrl_event \<Rightarrow> client_key" where
  "event_key P e = client_key_new (fst e) (rp_ipv4_prefix P) (rp_ipv6_prefix P)"

text \<open>The event draws from the bucket of \<open>key\<close> in the budget \<open>k\<close>.\<close>

definition draws :: "rrl_params \<Rightarrow> client_key \<Rightarrow> kind \<Rightarrow> rrl_event \<Rightarrow> bool" where
  "draws P key k e \<longleftrightarrow> rp_enabled P \<and> event_key P e = key \<and> fst (snd e) = k \<and> \<not> fst (snd (snd e))"

definition event_time :: "rrl_event \<Rightarrow> nat" where
  "event_time e = snd (snd (snd e))"

definition limiter_of :: "'l rrl \<Rightarrow> kind \<Rightarrow> 'l" where
  "limiter_of r k = (case k of Kind_Answer \<Rightarrow> rl_answers r | Kind_Negative \<Rightarrow> rl_negatives r)"

text \<open>Whether each event that draws from a bucket was allowed, in a run.\<close>

definition allowed :: "rrl_params \<Rightarrow> client_key \<Rightarrow> kind \<Rightarrow> rrl_event list \<Rightarrow> decision list \<Rightarrow> bool list" where
  "allowed P key k es ds = map (\<lambda>(e, d). d = Allow) (filter (\<lambda>(e, d). draws P key k e) (zip es ds))"

lemma allowed_self:
  assumes "length ds = length es" and "\<forall>e \<in> set es. draws P key k e"
  shows "allowed P key k es ds = map (\<lambda>d. d = Allow) ds"
  using assms by (induction ds es rule: list_induct2) (auto simp: allowed_def)

lemmas rrl_unfold = rrl_decide_def limiter_of_def draws_def event_key_def Let_def

lemma rrl_decide_params [simp]: "rl_params (snd (rrl_decide G r addr k tcp t)) = rl_params r"
  by (cases k) (auto simp: rrl_decide_def Let_def split: prod.splits)

lemma rrl_decide_allow_tcp: "\<not> rp_enabled (rl_params r) \<or> tcp \<Longrightarrow> rrl_decide G r addr k tcp t = (Allow, r)"
  by (auto simp: rrl_decide_def)

lemma slip_decision_not_Allow [simp]: "slip_decision slip n \<noteq> Allow"
  by (simp add: slip_decision_def)

lemma decide_suppressed:
  "if fst (rrl_decide G r addr k tcp t) = Allow
   then rl_suppressed (snd (rrl_decide G r addr k tcp t)) = rl_suppressed r
   else rl_suppressed (snd (rrl_decide G r addr k tcp t)) = rl_suppressed r + 1 \<and>
     fst (rrl_decide G r addr k tcp t) = slip_decision (rp_slip (rl_params r)) (rl_suppressed r)"
  by (cases k) (auto simp: rrl_decide_def Let_def split: prod.splits if_splits)

lemma rrl_run_Cons:
  "fst (rrl_run G r (e # es)) =
   (let d = rrl_decide G r (fst e) (fst (snd e)) (fst (snd (snd e))) (event_time e)
    in fst d # fst (rrl_run G (snd d) es))"
  by (cases e) (simp add: event_time_def Let_def split: prod.splits)

lemma length_rrl_run [simp]: "length (fst (rrl_run G r es)) = length es"
proof (induction es arbitrary: r)
  case (Cons e es)
  show ?case unfolding rrl_run_Cons by (simp add: Let_def Cons)
qed simp

text \<open>The suppressed responses of a run follow the counter, whatever was allowed between.\<close>

lemma run_suppressed:
  "filter (\<lambda>d. d \<noteq> Allow) (fst (rrl_run G r es)) =
   map (\<lambda>i. slip_decision (rp_slip (rl_params r)) (rl_suppressed r + of_nat i))
     [0..<length (filter (\<lambda>d. d \<noteq> Allow) (fst (rrl_run G r es)))]"
proof (induction es arbitrary: r)
  case (Cons e es)
  let ?d = "rrl_decide G r (fst e) (fst (snd e)) (fst (snd (snd e))) (event_time e)"
  have run: "fst (rrl_run G r (e # es)) = fst ?d # fst (rrl_run G (snd ?d) es)"
    by (simp only: rrl_run_Cons Let_def)
  note d = decide_suppressed [of G r "fst e" "fst (snd e)" "fst (snd (snd e))" "event_time e"]
  let ?n = "length (filter (\<lambda>d. d \<noteq> Allow) (fst (rrl_run G (snd ?d) es)))"
  show ?case
  proof (cases "fst ?d = Allow")
    case True
    with d Cons [of "snd ?d"] show ?thesis unfolding run by simp
  next
    case False
    have "[0..<Suc ?n] = 0 # map Suc [0..<?n]" by (simp only: map_Suc_upt upt_conv_Cons zero_less_Suc)
    with False d Cons [of "snd ?d"] show ?thesis
      unfolding run by (simp add: ac_simps comp_def slip_decision_not_Allow del: upt_Suc)
  qed
qed simp

context keyed_limiter
begin

lemma decide_allow:
  "fst (rrl_decide G r addr k tcp t) = Allow \<longleftrightarrow>
   \<not> rp_enabled (rl_params r) \<or> tcp \<or>
   fst (admit (bucket (limiter_of r k) (event_key (rl_params r) (addr, k, tcp, t))) t)"
  by (cases k) (auto simp: rrl_unfold check_ok [symmetric] split: prod.splits)

lemma decide_bucket:
  "bucket (limiter_of (snd (rrl_decide G r addr k tcp t)) k') key =
   (if draws (rl_params r) key k' (addr, k, tcp, t)
    then snd (admit (bucket (limiter_of r k') key) t) else bucket (limiter_of r k') key)"
proof (cases "\<not> rp_enabled (rl_params r) \<or> tcp")
  case False
  let ?key = "client_key_new addr (rp_ipv4_prefix (rl_params r)) (rp_ipv6_prefix (rl_params r))"
  obtain ok l where c: "check_key G (limiter_of r k) ?key t = (ok, l)" by fastforce
  have "limiter_of (snd (rrl_decide G r addr k tcp t)) k' = (if k' = k then l else limiter_of r k')"
    using c False by (cases k; cases k') (auto simp: rrl_unfold)
  moreover have "bucket l key = (if key = ?key then snd (admit (bucket (limiter_of r k) ?key) t)
      else bucket (limiter_of r k) key)"
    using check_bucket [of "limiter_of r k" ?key t key] c by simp
  ultimately show ?thesis using False by (auto simp: draws_def event_key_def)
qed (auto simp: rrl_decide_def draws_def)

text \<open>One client's outcomes in one budget are those of its own bucket on its own requests.\<close>

lemma allowed_admits:
  "allowed (rl_params r) key k es (fst (rrl_run G r es)) =
   admits admit (bucket (limiter_of r k) key)
     (map event_time (filter (draws (rl_params r) key k) es))"
proof (induction es arbitrary: r)
  case (Cons e es)
  obtain addr k0 tcp t where e: "e = (addr, k0, tcp, t)" by (cases e)
  let ?r = "snd (rrl_decide G r addr k0 tcp t)"
  have run: "fst (rrl_run G r (e # es)) = fst (rrl_decide G r addr k0 tcp t) # fst (rrl_run G ?r es)"
    unfolding rrl_run_Cons by (simp add: Let_def e event_time_def)
  note IH = Cons [of ?r, unfolded rrl_decide_params decide_bucket]
  show ?case
  proof (cases "draws (rl_params r) key k e")
    case True
    then have "fst (rrl_decide G r addr k0 tcp t) = Allow \<longleftrightarrow> fst (admit (bucket (limiter_of r k) key) t)"
      by (auto simp: decide_allow draws_def e event_key_def)
    with True IH show ?thesis unfolding run by (simp add: allowed_def e event_time_def)
  next
    case False
    with IH show ?thesis unfolding run by (simp add: allowed_def e)
  qed
qed (simp add: allowed_def)

end

section \<open>A keyed store of theoretical arrival times\<close>

text \<open>
  The generic cell rate algorithm: a bucket is the time from which the client is quiet
  again, a request moves it on by the interval \<open>T\<close> and is admitted while it is at most
  \<open>(b - 1) T\<close> ahead. A missing key is a bucket at time 0.
\<close>

type_synonym gcra_state = "nat \<times> nat \<times> (client_key \<Rightarrow> nat)"

fun gcra_admit :: "nat \<times> nat \<times> nat \<Rightarrow> nat \<Rightarrow> bool \<times> (nat \<times> nat \<times> nat)" where
  "gcra_admit (T, b, tat) t =
    (if tat \<le> t + T * (b - 1) then (True, (T, b, max tat t + T)) else (False, (T, b, tat)))"

definition gcra_bucket :: "gcra_state \<Rightarrow> client_key \<Rightarrow> nat \<times> nat \<times> nat" where
  "gcra_bucket l key = (case l of (T, b, m) \<Rightarrow> (T, b, m key))"

definition gcra_lib :: "(nat \<times> nat, gcra_state) governor" where
  "gcra_lib = \<lparr>
     per_second = (\<lambda>rps. (max 1 (1000000000 div unat rps), unat rps)),
     allow_burst = (\<lambda>(T, _) burst. (T, unat burst)),
     keyed = (\<lambda>(T, b). (T, b, \<lambda>_. 0)),
     check_key = (\<lambda>(T, b, m) key t. case gcra_admit (T, b, m key) t of
        (ok, (_, _, tat)) \<Rightarrow> (ok, (T, b, m(key := tat)))),
     retain_recent = (\<lambda>(T, b, m) t. (T, b, \<lambda>key. if m key \<le> t then 0 else m key)),
     limiter_len = (\<lambda>_. 0)\<rparr>"

interpretation gcra: keyed_limiter gcra_lib gcra_bucket gcra_admit
  by unfold_locales (auto simp: gcra_lib_def gcra_bucket_def split: prod.splits if_splits)

section \<open>Properties\<close>

text \<open>
  Property C16. Rate-limit budgets do not interfere: in any run, whether the responses of one
  client prefix in one budget are allowed is what the run of these requests alone would
  have decided; the traffic of other clients, the other budget and TCP leave it unchanged.
\<close>

theorem rrl_budgets_independent:
  assumes "keyed_limiter G bucket admit"
  shows "allowed (rl_params r) key k es (fst (rrl_run G r es)) =
    map (\<lambda>d. d = Allow) (fst (rrl_run G r (filter (draws (rl_params r) key k) es)))"
proof -
  let ?fs = "filter (draws (rl_params r) key k) es"
  have "map (\<lambda>d. d = Allow) (fst (rrl_run G r ?fs)) = allowed (rl_params r) key k ?fs (fst (rrl_run G r ?fs))"
    by (rule allowed_self [symmetric]) simp_all
  then show ?thesis by (simp add: keyed_limiter.allowed_admits [OF assms])
qed

theorem rrl_budgets_independent_witness:
  "let r = rrl_new gcra_lib rrl_params_default;
       es = [(V4 0xC0000201, Kind_Negative, False, 0), (V4 0xCB007101, Kind_Negative, False, 1),
             (V4 0xC0000202, Kind_Answer, False, 2), (V4 0xC0000203, Kind_Negative, False, 3)];
       ds = fst (rrl_run gcra_lib r es)
   in allowed (rl_params r) (Key_V4 0xC0000200) Kind_Negative es ds =
     map (\<lambda>d. d = Allow) (fst (rrl_run gcra_lib r
       (filter (draws (rl_params r) (Key_V4 0xC0000200) Kind_Negative) es)))"
  unfolding Let_def by (rule rrl_budgets_independent [OF gcra.keyed_limiter_axioms])

text \<open>
  Property C35. Suppressed responses slip deterministically: whatever is allowed in between and whichever
  clients and budgets they fall to, the \<open>i\<close>th suppressed response of a fresh limiter, counted
  from 0, is an empty truncated reply when the 64-bit count is a multiple of \<open>slip\<close> and is
  dropped otherwise; with \<open>slip 0\<close> all are dropped. Nothing is assumed of the limiter crate.
\<close>

theorem rrl_slip_pattern:
  "filter (\<lambda>d. d \<noteq> Allow) (fst (rrl_run G (rrl_new G P) es)) =
   map (\<lambda>i. if rp_slip P \<noteq> 0 \<and> (i mod 2 ^ 64) mod unat (rp_slip P) = 0 then Truncate else Drop)
     [0..<length (filter (\<lambda>d. d \<noteq> Allow) (fst (rrl_run G (rrl_new G P) es)))]"
proof -
  have "slip_decision slip (of_nat i) =
      (if slip \<noteq> 0 \<and> (i mod 2 ^ 64) mod unat slip = 0 then Truncate else Drop)" for slip i
  proof -
    have "unat ((of_nat i :: u64) mod ucast slip) = (i mod 2 ^ 64) mod unat slip"
      using unsigned_less [where ?'a = nat, of slip]
      by (simp add: unat_mod unat_of_nat unsigned_ucast_eq take_bit_nat_eq_self)
    then have "(of_nat i :: u64) mod ucast slip = 0 \<longleftrightarrow> (i mod 2 ^ 64) mod unat slip = 0"
      by (metis unat_eq_0)
    then show ?thesis by (simp add: slip_decision_def)
  qed
  then show ?thesis
    using run_suppressed [of G "rrl_new G P" es] by (simp add: rrl_new_def Let_def)
qed

end
