(* ===== verification/Upstream.thy ===== *)
theory Upstream
  imports Config
begin

text \<open>
  \<open>src/src/upstream.rs\<close>: optional upstream lookups. The resolver and the timer are not part of
  the repository: what \<open>tokio::time::timeout\<close> of the resolver's lookup returns is an input of
  \<open>lookup_finish\<close>, and the clock's reading an argument. \<open>lookup_ptr\<close> awaits once, so it is two
  steps, \<open>lookup_begin\<close> before the await and \<open>lookup_finish\<close> after it; \<open>Concurrent\<close> takes it apart
  further, into its accesses to shared state. The lemmas show that the filter is an
  allowlist, how the circuit breaker moves, and that a lookup returns its permit.
\<close>

section \<open>Constants\<close>

definition MAX_RELAYED_RECORDS :: nat where
  "MAX_RELAYED_RECORDS = 8"

definition MIN_RELAY_TTL :: u32 where
  "MIN_RELAY_TTL = 30"

definition MAX_RELAY_TTL :: u32 where
  "MAX_RELAY_TTL = 3600"

definition MAX_INFLIGHT :: nat where
  "MAX_INFLIGHT = 64"

definition BREAKER_THRESHOLD :: u32 where
  "BREAKER_THRESHOLD = 8"

text \<open>In milliseconds, as every time of this theory.\<close>

definition BREAKER_COOLDOWN :: nat where
  "BREAKER_COOLDOWN = 10000"

definition UPSTREAM_LABEL :: bytes where
  "UPSTREAM_LABEL = ''upstream''"

section \<open>The filter\<close>

definition clamp :: "'a :: linorder \<Rightarrow> 'a \<Rightarrow> 'a \<Rightarrow> 'a" where
  "clamp x lo hi = (if x < lo then lo else if x > hi then hi else x)"

definition filter_upstream :: "'n dns_lib \<Rightarrow> 'n \<Rightarrow> 'n \<Rightarrow> 'n rr list \<Rightarrow> 'n rr list" where
  "filter_upstream H qname up_qname answers =
    map (\<lambda>r. from_rdata H qname (clamp (rr_ttl r) MIN_RELAY_TTL MAX_RELAY_TTL) (rr_data r))
      (take MAX_RELAYED_RECORDS
        (filter (\<lambda>r. rr_class r = CL_IN \<and> record_type_of H r = RT_PTR \<and> name_eq H (rr_name r) up_qname \<and>
            (case rr_data r of RD_PTR _ \<Rightarrow> True | _ \<Rightarrow> False)) answers))"

definition upstream_qname :: "'n dns_lib \<Rightarrow> 'n \<Rightarrow> 'n option" where
  "upstream_qname H qname = (case append_label H qname UPSTREAM_LABEL of Inr n \<Rightarrow> Some n | Inl _ \<Rightarrow> None)"

section \<open>Breaker\<close>

text \<open>The state behind the mutex, and whether a panic of a holder has poisoned it.\<close>

record breaker =
  br_consecutive_failures :: u32
  br_open_until :: "nat option"
  br_poisoned :: bool

definition breaker_default :: breaker where
  "breaker_default = \<lparr>br_consecutive_failures = 0, br_open_until = None, br_poisoned = False\<rparr>"

definition is_open :: "breaker \<Rightarrow> nat \<Rightarrow> bool \<times> breaker" where
  "is_open b now =
    (case br_open_until b of
       Some until \<Rightarrow>
         if now < until then (True, b)
         else (False, b\<lparr>br_open_until := None, br_consecutive_failures := 0\<rparr>)
     | None \<Rightarrow> (False, b))"

definition record_success :: "breaker \<Rightarrow> breaker" where
  "record_success b =
    (if br_poisoned b then b else b\<lparr>br_consecutive_failures := 0, br_open_until := None\<rparr>)"

definition record_failure :: "breaker \<Rightarrow> nat \<Rightarrow> bool \<times> breaker" where
  "record_failure b now =
    (if br_poisoned b then (False, b)
     else
       let b' = b\<lparr>br_consecutive_failures := saturating_inc (br_consecutive_failures b)\<rparr>
       in if br_consecutive_failures b' \<ge> BREAKER_THRESHOLD \<and> br_open_until b' = None
          then (True, b'\<lparr>br_open_until := Some (now + BREAKER_COOLDOWN)\<rparr>)
          else (False, b'))"

section \<open>Upstream\<close>

record upstream =
  us_addr :: ip_addr
  us_permits :: nat
  us_breaker :: breaker
  us_timeout :: u64

text \<open>
  How the resolver is set up: the local domain, the search list and the name servers, each asked
  over UDP and TCP, and the options that are set; the others keep the resolver's defaults.
\<close>

record resolver_config =
  rsc_domain :: "bytes option"
  rsc_search :: "bytes list"
  rsc_name_servers :: "ip_addr list"

record resolver_opts =
  ro_timeout :: u64
  ro_attempts :: nat
  ro_recursion_desired :: bool
  ro_edns0 :: bool
  ro_cache_size :: u64
  ro_try_tcp_on_error :: bool
  ro_num_concurrent_reqs :: nat

definition upstream_config :: "ip_addr \<Rightarrow> resolver_config" where
  "upstream_config addr = \<lparr>rsc_domain = None, rsc_search = [], rsc_name_servers = [addr]\<rparr>"

definition upstream_opts :: "u64 \<Rightarrow> resolver_opts" where
  "upstream_opts timeout = \<lparr>ro_timeout = timeout, ro_attempts = 0, ro_recursion_desired = False, ro_edns0 = True,
     ro_cache_size = 4096, ro_try_tcp_on_error = False, ro_num_concurrent_reqs = 1\<rparr>"

text \<open>The construction of a resolver, which may fail with a message.\<close>

type_synonym build = "resolver_config \<Rightarrow> resolver_opts \<Rightarrow> string option"

definition upstream_new :: "build \<Rightarrow> ip_addr \<Rightarrow> u64 \<Rightarrow> (string, upstream) result" where
  "upstream_new build addr timeout =
    (case build (upstream_config addr) (upstream_opts timeout) of
       Some e \<Rightarrow> Inl (''cannot build upstream resolver for '' @ show_ip addr @ '': '' @ e)
     | None \<Rightarrow> Inr \<lparr>us_addr = addr, us_permits = MAX_INFLIGHT, us_breaker = breaker_default,
         us_timeout = timeout\<rparr>)"

text \<open>What the awaited lookup gives: records, a resolver error, or the deadline.\<close>

datatype 'n lookup_result = Found "'n rr list" | Lookup_Error | Elapsed

text \<open>Up to the await: \<open>Inl\<close> is an immediate return, \<open>Inr\<close> the name asked with a permit held.\<close>

definition lookup_begin ::
  "'n dns_lib \<Rightarrow> upstream \<Rightarrow> 'n \<Rightarrow> nat \<Rightarrow> ('n rr list, 'n) result \<times> upstream" where
  "lookup_begin H u qname now =
    (let (open_now, b) = is_open (us_breaker u) now; u = u\<lparr>us_breaker := b\<rparr>
     in if open_now then (Inl [], u)
        else if us_permits u = 0 then (Inl [], u)
        else
          let u' = u\<lparr>us_permits := us_permits u - 1\<rparr>
          in (case upstream_qname H qname of
                None \<Rightarrow> (Inl [], u'\<lparr>us_permits := us_permits u' + 1\<rparr>)
              | Some up_qname \<Rightarrow> (Inr up_qname, u')))"

text \<open>From the await on; the permit is released when the function returns.\<close>

definition lookup_finish ::
  "'n dns_lib \<Rightarrow> upstream \<Rightarrow> 'n \<Rightarrow> 'n \<Rightarrow> 'n lookup_result \<Rightarrow> nat \<Rightarrow> 'n rr list \<times> upstream" where
  "lookup_finish H u qname up_qname result now =
    (let (records, b) =
       (case result of
          Found answers \<Rightarrow> (filter_upstream H qname up_qname answers, record_success (us_breaker u))
        | Lookup_Error \<Rightarrow> ([], record_success (us_breaker u))
        | Elapsed \<Rightarrow> ([], snd (record_failure (us_breaker u) now)))
     in (records, u\<lparr>us_breaker := b, us_permits := us_permits u + 1\<rparr>))"

definition lookup_ptr ::
  "'n dns_lib \<Rightarrow> upstream \<Rightarrow> 'n \<Rightarrow> nat \<Rightarrow> 'n lookup_result \<Rightarrow> nat \<Rightarrow> 'n rr list \<times> upstream" where
  "lookup_ptr H u qname now result later =
    (case lookup_begin H u qname now of
       (Inl records, u') \<Rightarrow> (records, u')
     | (Inr up_qname, u') \<Rightarrow> lookup_finish H u' qname up_qname result later)"

section \<open>Permits and breaker\<close>

definition breaker_inv :: "breaker \<Rightarrow> bool" where
  "breaker_inv b \<longleftrightarrow> \<not> br_poisoned b \<and>
     (br_open_until b = None \<longleftrightarrow> br_consecutive_failures b < BREAKER_THRESHOLD)"

lemma is_open_inv [inv_intros]: "breaker_inv b \<Longrightarrow> breaker_inv (snd (is_open b now))"
  by (auto simp: is_open_def breaker_inv_def BREAKER_THRESHOLD_def split: option.splits)

lemma record_success_inv [inv_intros]: "breaker_inv b \<Longrightarrow> breaker_inv (record_success b)"
  by (auto simp: record_success_def breaker_inv_def BREAKER_THRESHOLD_def)

lemma saturating_inc_ge: "BREAKER_THRESHOLD \<le> a \<Longrightarrow> BREAKER_THRESHOLD \<le> saturating_inc a"
  by (simp add: word_le_nat_alt unat_saturating_inc BREAKER_THRESHOLD_def)

lemma record_failure_inv [inv_intros]: "breaker_inv b \<Longrightarrow> breaker_inv (snd (record_failure b now))"
  using saturating_inc_ge [of "br_consecutive_failures b"]
  by (auto simp: record_failure_def breaker_inv_def Let_def not_less not_le)

lemma lookup_begin_inv:
  assumes "lookup_begin H u q now = (r, u')" and "breaker_inv (us_breaker u)"
  shows "breaker_inv (us_breaker u') \<and>
    (case r of Inl _ \<Rightarrow> us_permits u' = us_permits u | Inr _ \<Rightarrow> us_permits u = us_permits u' + 1)"
  using assms is_open_inv [OF assms(2), of now]
  by (auto simp: lookup_begin_def Let_def split: prod.splits if_splits option.splits)

lemma lookup_finish_inv:
  assumes "lookup_finish H u q up res now = (rs, u')" and "breaker_inv (us_breaker u)"
  shows "breaker_inv (us_breaker u') \<and> us_permits u' = us_permits u + 1"
  using assms by (cases res) (auto simp: lookup_finish_def intro: inv_intros)

section \<open>Runs of timeouts\<close>

fun failures :: "breaker \<Rightarrow> nat list \<Rightarrow> bool list \<times> breaker" where
  "failures b [] = ([], b)"
| "failures b (t # ts) =
    (let (tripped, b') = record_failure b t; (rest, b'') = failures b' ts in (tripped # rest, b''))"


lemma failures_append:
  "failures b (xs @ ys) =
   (fst (failures b xs) @ fst (failures (snd (failures b xs)) ys), snd (failures (snd (failures b xs)) ys))"
  by (induction xs arbitrary: b) (simp_all add: Let_def case_prod_beta)

lemma failures_state:
  "fst (failures breaker_default ts) = map (\<lambda>i. i = 7) [0..<length ts] \<and>
   \<not> br_poisoned (snd (failures breaker_default ts)) \<and>
   unat (br_consecutive_failures (snd (failures breaker_default ts))) = min (length ts) (2 ^ 32 - 1) \<and>
   br_open_until (snd (failures breaker_default ts)) =
     (if length ts < 8 then None else Some (ts ! 7 + BREAKER_COOLDOWN))"
proof (induction ts rule: rev_induct)
  case (snoc t ts)
  let ?b = "snd (failures breaker_default ts)"
  have inc: "unat (saturating_inc (br_consecutive_failures ?b)) = min (length ts + 1) (2 ^ 32 - 1)"
    using snoc by (simp add: unat_saturating_inc)
  then have ge: "saturating_inc (br_consecutive_failures ?b) \<ge> BREAKER_THRESHOLD \<longleftrightarrow> 7 \<le> length ts"
    by (auto simp: word_le_nat_alt BREAKER_THRESHOLD_def)
  have step: "failures ?b [t] = ([7 \<le> length ts \<and> length ts < 8],
      ?b\<lparr>br_consecutive_failures := saturating_inc (br_consecutive_failures ?b),
         br_open_until := (if 7 \<le> length ts \<and> length ts < 8 then Some (t + BREAKER_COOLDOWN) else br_open_until ?b)\<rparr>)"
    using snoc ge by (simp add: record_failure_def Let_def)
  have "length ts = 7 \<Longrightarrow> (ts @ [t]) ! 7 = t" by (simp add: nth_append)
  moreover have "7 < length ts \<Longrightarrow> (ts @ [t]) ! 7 = ts ! 7" by (simp add: nth_append)
  ultimately show ?case unfolding failures_append step using snoc inc by auto
qed (simp add: breaker_default_def)

section \<open>Properties\<close>

text \<open>
  Property C28. The upstream filter is an allowlist: whatever the upstream answers, at most
  eight records survive, and each is a PTR record of class IN owned by the query name, with
  a TTL between 30 and 3600 seconds and a target taken from an IN record of the answer whose
  owner is exactly the name that was asked.
\<close>

theorem filter_upstream_allowlist:
  assumes "dns_laws H"
  shows "length (filter_upstream H q up answers) \<le> 8 \<and>
    (\<forall>r \<in> set (filter_upstream H q up answers).
      rr_name r = q \<and> rr_class r = CL_IN \<and> 30 \<le> rr_ttl r \<and> rr_ttl r \<le> 3600 \<and>
      (\<exists>r0 \<in> set answers. \<exists>n. rr_class r0 = CL_IN \<and> name_eq H (rr_name r0) up \<and>
         rr_data r0 = RD_PTR n \<and> rr_data r = RD_PTR n))"
proof
  show "length (filter_upstream H q up answers) \<le> 8"
    by (simp add: filter_upstream_def MAX_RELAYED_RECORDS_def)
  show "\<forall>r \<in> set (filter_upstream H q up answers).
      rr_name r = q \<and> rr_class r = CL_IN \<and> 30 \<le> rr_ttl r \<and> rr_ttl r \<le> 3600 \<and>
      (\<exists>r0 \<in> set answers. \<exists>n. rr_class r0 = CL_IN \<and> name_eq H (rr_name r0) up \<and>
         rr_data r0 = RD_PTR n \<and> rr_data r = RD_PTR n)"
  proof
    fix r assume "r \<in> set (filter_upstream H q up answers)"
    then obtain r0 where r0: "r0 \<in> set answers" "rr_class r0 = CL_IN" "name_eq H (rr_name r0) up"
      "case rr_data r0 of RD_PTR _ \<Rightarrow> True | _ \<Rightarrow> False"
      and r: "r = \<lparr>rr_name = q, rr_class = CL_IN, rr_ttl = clamp (rr_ttl r0) MIN_RELAY_TTL MAX_RELAY_TTL,
        rr_data = rr_data r0\<rparr>"
      by (auto simp: filter_upstream_def dns_laws.from_rdata_fields [OF assms] dest!: in_set_takeD)
    from r0(4) obtain n where "rr_data r0 = RD_PTR n" by (cases "rr_data r0") auto
    with r0 r show "rr_name r = q \<and> rr_class r = CL_IN \<and> 30 \<le> rr_ttl r \<and> rr_ttl r \<le> 3600 \<and>
      (\<exists>r0 \<in> set answers. \<exists>n. rr_class r0 = CL_IN \<and> name_eq H (rr_name r0) up \<and>
         rr_data r0 = RD_PTR n \<and> rr_data r = RD_PTR n)"
      by (auto simp: clamp_def MIN_RELAY_TTL_def MAX_RELAY_TTL_def)
  qed
qed

theorem filter_upstream_allowlist_witness:
  "\<exists>r. filter_upstream rfc_lib ([''q''], True) ([''q'', ''upstream''], True)
      [\<lparr>rr_name = ([''Q'', ''upstream''], True), rr_class = CL_IN, rr_ttl = 5, rr_data = RD_PTR ([''host''], True)\<rparr>,
       \<lparr>rr_name = ([''x''], True), rr_class = CL_IN, rr_ttl = 5, rr_data = RD_AAAA 1\<rparr>] = [r] \<and>
     rr_name r = ([''q''], True) \<and> 30 \<le> rr_ttl r"
proof -
  let ?answers = "[\<lparr>rr_name = ([''Q'', ''upstream''], True), rr_class = CL_IN, rr_ttl = 5, rr_data = RD_PTR ([''host''], True)\<rparr>,
       \<lparr>rr_name = ([''x''], True), rr_class = CL_IN, rr_ttl = 5, rr_data = RD_AAAA 1\<rparr>]"
  have "length (filter_upstream rfc_lib ([''q''], True) ([''q'', ''upstream''], True) ?answers) = 1" by code_simp
  then obtain r where "filter_upstream rfc_lib ([''q''], True) ([''q'', ''upstream''], True) ?answers = [r]"
    by (auto simp: length_Suc_conv)
  with filter_upstream_allowlist [OF rfc.dns_laws_axioms, of "([''q''], True)" "([''q'', ''upstream''], True)" ?answers]
  show ?thesis by simp
qed

text \<open>
  The breaker opens on the eighth consecutive timeout and not before: of the
  timeouts counted from a fresh breaker the eighth, and only the eighth, reports that it
  tripped, and the breaker is then open until ten seconds after it.
\<close>

lemma breaker_trips_on_eighth_timeout:
  "let (tripped, b) = failures breaker_default ts in
     tripped = map (\<lambda>i. i = 7) [0..<length ts] \<and>
     (\<forall>now. fst (is_open b now) \<longleftrightarrow> 8 \<le> length ts \<and> now < ts ! 7 + 10000)"
  using failures_state [of ts]
  by (auto simp: Let_def case_prod_beta is_open_def BREAKER_COOLDOWN_def split: option.splits)

text \<open>
  An upstream in trouble costs nothing and is tried again: while the breaker is
  open, or with no permit left, a lookup returns no records without asking and without
  taking a permit; from the end of the cooldown on it asks again, with the count of failures
  reset.
\<close>

lemma lookup_skips_and_recovers:
  "(now < until \<longrightarrow> br_open_until (us_breaker u) = Some until \<longrightarrow>
      lookup_begin H u q now = (Inl [], u)) \<and>
   (us_permits u = 0 \<longrightarrow> fst (lookup_begin H u q now) = Inl [] \<and> us_permits (snd (lookup_begin H u q now)) = 0) \<and>
   (until \<le> now \<longrightarrow> br_open_until (us_breaker u) = Some until \<longrightarrow> 0 < us_permits u \<longrightarrow>
      upstream_qname H q = Some up \<longrightarrow>
      fst (lookup_begin H u q now) = Inr up \<and>
      br_open_until (us_breaker (snd (lookup_begin H u q now))) = None \<and>
      br_consecutive_failures (us_breaker (snd (lookup_begin H u q now))) = 0)"
  by (auto simp: lookup_begin_def is_open_def Let_def split: option.splits)

text \<open>
  Only a timeout counts as a failure of the upstream: a lookup that ends in any
  resolver error, like one that ends in records, closes the breaker and resets its count,
  and every failure mode yields no records.
\<close>

lemma lookup_error_counts_as_success:
  assumes "\<not> br_poisoned (us_breaker u)"
  shows "fst (lookup_finish H u q up Lookup_Error now) = [] \<and>
    us_breaker (snd (lookup_finish H u q up Lookup_Error now)) = breaker_default \<and>
    us_breaker (snd (lookup_finish H u q up (Found rs) now)) = breaker_default \<and>
    fst (lookup_finish H u q up Elapsed now) = []"
  using assms by (cases "us_breaker u") (simp add: lookup_finish_def record_success_def breaker_default_def)

end
