(* ===== verification/Decide.thy ===== *)
theory Decide
  imports Zone Rrl Upstream
begin

text \<open>
  \<open>src/src/server/handler.rs\<close>, first half: the state of the handler's zones with their upstream
  clients, and the decision what to answer. A decision is a function of the zones and the
  question except for the optional upstream lookup, whose result and clock readings are the
  argument \<open>lookup_env\<close>; it returns the zones with the client it used updated. The second
  half, from messages to messages, is in \<open>Handler\<close>.
\<close>

section \<open>State\<close>

record 'n zones =
  zs_config :: "'n config"
  zs_upstreams :: "ip_addr \<rightharpoonup> upstream"

fun zones_new_loop ::
  "build \<Rightarrow> u64 \<Rightarrow> 'n zone list \<Rightarrow> (ip_addr \<rightharpoonup> upstream) \<Rightarrow>
   (string, ip_addr \<rightharpoonup> upstream) result" where
  "zones_new_loop build timeout [] upstreams = Inr upstreams"
| "zones_new_loop build timeout (z # zs) upstreams =
    (case zn_upstream z of
       None \<Rightarrow> zones_new_loop build timeout zs upstreams
     | Some addr \<Rightarrow>
         if upstreams addr = None then
           (case upstream_new build addr timeout of
              Inl e \<Rightarrow> Inl e
            | Inr u \<Rightarrow> zones_new_loop build timeout zs (upstreams(addr \<mapsto> u)))
         else zones_new_loop build timeout zs upstreams)"

definition zones_new :: "build \<Rightarrow> 'n config \<Rightarrow> (string, 'n zones) result" where
  "zones_new build config =
    (case zones_new_loop build (sp_upstream_timeout (cf_params config)) (cf_zones config) Map.empty of
       Inl e \<Rightarrow> Inl e
     | Inr upstreams \<Rightarrow> Inr \<lparr>zs_config = config, zs_upstreams = upstreams\<rparr>)"

record 'n reply =
  re_code :: response_code
  re_authoritative :: bool
  re_answers :: "'n rr list"
  re_authority :: "'n rr list"
  re_kind :: kind

definition reply_refused :: "'n reply" where
  "reply_refused = \<lparr>re_code = Refused, re_authoritative = False, re_answers = [], re_authority = [],
     re_kind = Kind_Negative\<rparr>"

definition reply_error :: "response_code \<Rightarrow> 'n reply" where
  "reply_error code = \<lparr>re_code = code, re_authoritative = False, re_answers = [], re_authority = [],
     re_kind = Kind_Negative\<rparr>"

section \<open>Deciding\<close>

definition i32_try_from :: "u32 \<Rightarrow> i32" where
  "i32_try_from n = (if n \<le> 0x7FFFFFFF then n else 0x7FFFFFFF)"

definition soa_record :: "'n dns_lib \<Rightarrow> 'n \<Rightarrow> 'n soa_params \<Rightarrow> u32 \<Rightarrow> 'n rr" where
  "soa_record H apex soa ttl =
    from_rdata H apex (min ttl (so_minimum soa))
      (RD_SOA (so_primary soa) (so_hostmaster soa) (so_serial soa) (i32_try_from (so_refresh soa))
        (i32_try_from (so_retry soa)) (i32_try_from (so_expire soa)) (so_minimum soa))"

definition ns_records :: "'n dns_lib \<Rightarrow> 'n \<Rightarrow> 'n config \<Rightarrow> u32 \<Rightarrow> 'n rr list" where
  "ns_records H apex config ttl = map (\<lambda>ns. from_rdata H apex ttl (RD_NS ns)) (cf_nameservers config)"

definition negative_authority :: "'n dns_lib \<Rightarrow> 'n config \<Rightarrow> 'n \<Rightarrow> kind \<Rightarrow> 'n rr list" where
  "negative_authority H config qname k =
    (if k \<noteq> Kind_Negative then []
     else
       (case cf_soa config of
          None \<Rightarrow> []
        | Some soa \<Rightarrow>
            (case find_map (\<lambda>z. map_option (\<lambda>apex. [soa_record H apex soa (zn_ttl z)])
                     (find (\<lambda>apex. zone_of H apex qname) [zn_ptr_zone z, zn_fwd_parent z]))
                   (cf_zones config) of
               None \<Rightarrow> []
             | Some rs \<Rightarrow> rs)))"

text \<open>What an upstream lookup finds, and the clock when it starts and when it ends.\<close>

record 'n lookup_env =
  le_now :: nat
  le_result :: "'n lookup_result"
  le_later :: nat

text \<open>The reply for the origin of a zone, on the types it holds records of.\<close>

definition apex_reply :: "'n dns_lib \<Rightarrow> 'n config \<Rightarrow> 'n \<Rightarrow> record_type \<Rightarrow> 'n reply" where
  "apex_reply H config apex qtype =
    (let ttl = (case cf_zones config of [] \<Rightarrow> 3600 | z # _ \<Rightarrow> zn_ttl z);
         answers =
           (if qtype = RT_SOA \<or> qtype = RT_ANY
            then (case cf_soa config of None \<Rightarrow> [] | Some soa \<Rightarrow> [soa_record H apex soa ttl]) else []) @
           (if qtype = RT_NS \<or> qtype = RT_ANY then ns_records H apex config ttl else [])
     in \<lparr>re_code = NoError, re_authoritative = True, re_answers = answers, re_authority = [],
         re_kind = (if answers = [] then Kind_Negative else Kind_Answer)\<rparr>)"

definition upstream_override ::
  "'n dns_lib \<Rightarrow> 'n zones \<Rightarrow> 'n zone \<Rightarrow> 'n \<Rightarrow> record_type \<Rightarrow> 'n lookup_env \<Rightarrow> 'n rr list \<Rightarrow>
   'n rr list \<times> 'n zones" where
  "upstream_override H zones z qname qtype env records =
    (if records \<noteq> [] \<and> qtype = RT_PTR then
       (case zn_upstream z of
          None \<Rightarrow> (records, zones)
        | Some addr \<Rightarrow>
            (case zs_upstreams zones addr of
               None \<Rightarrow> (records, zones)
             | Some u \<Rightarrow>
                 let (relayed, u') = lookup_ptr H u qname (le_now env) (le_result env) (le_later env);
                     zones' = zones\<lparr>zs_upstreams := (zs_upstreams zones)(addr \<mapsto> u')\<rparr>
                 in (if relayed \<noteq> [] then relayed else records, zones')))
     else (records, zones))"

definition handler_decide ::
  "'n dns_lib \<Rightarrow> 'n zones \<Rightarrow> 'n \<Rightarrow> record_type \<Rightarrow> dns_class \<Rightarrow> 'n lookup_env \<Rightarrow> 'n reply \<times> 'n zones" where
  "handler_decide H zones qname qtype qclass env =
    (let config = zs_config zones in
     if \<not> (qclass = CL_IN \<or> qclass = CL_ANY) then (reply_refused, zones)
     else if qtype = RT_AXFR \<or> qtype = RT_IXFR then (reply_refused, zones)
     else
       (case (if qtype = RT_SOA \<or> qtype = RT_NS \<or> qtype = RT_ANY
              then find (\<lambda>a. name_eq H a qname) (apexes H config) else None) of
          Some apex \<Rightarrow> (apex_reply H config apex qtype, zones)
        | None \<Rightarrow>
            (case resolve H config qname qtype of
               Answer z records \<Rightarrow>
                 let (records, zones') = upstream_override H zones z qname qtype env records;
                     k = (if records = [] then Kind_Negative else Kind_Answer)
                 in (\<lparr>re_code = NoError, re_authoritative = True, re_answers = records,
                      re_authority = negative_authority H config qname k, re_kind = k\<rparr>, zones')
             | NoName z \<Rightarrow>
                 let apex = (if zone_of H (zn_ptr_zone z) qname then zn_ptr_zone z else zn_fwd_parent z);
                     authority = (case cf_soa config of None \<Rightarrow> [] | Some soa \<Rightarrow> [soa_record H apex soa (zn_ttl z)])
                 in (\<lparr>re_code = NXDomain, re_authoritative = True, re_answers = [],
                      re_authority = authority, re_kind = Kind_Negative\<rparr>, zones)
             | NoZone \<Rightarrow>
                 (case sp_out_of_zone (cf_params config) of
                    Policy_Refused \<Rightarrow> (reply_refused, zones)
                  | Policy_NxDomain \<Rightarrow> (\<lparr>re_code = NXDomain, re_authoritative = False, re_answers = [],
                      re_authority = [], re_kind = Kind_Negative\<rparr>, zones)))))"

section \<open>Decisions\<close>

lemma upstream_override_config: "zs_config (snd (upstream_override H zs z q t env rs)) = zs_config zs"
  by (simp add: upstream_override_def Let_def case_prod_beta split: option.splits)

lemma handler_decide_config: "zs_config (snd (handler_decide H zs q t c env)) = zs_config zs"
  by (simp add: handler_decide_def Let_def case_prod_beta upstream_override_config
      split: option.splits outcome.splits out_of_zone_policy.splits)

lemma in_apexes: "apex \<in> set (apexes H c) \<Longrightarrow> \<exists>z \<in> set (cf_zones c). apex = zn_ptr_zone z \<or> apex = zn_fwd_parent z"
  using apexes_subset [of H c] by blast

lemma lookup_ptr_records:
  "\<exists>up. set (fst (lookup_ptr H u q now res later)) \<subseteq>
     (case res of Found rs \<Rightarrow> set (filter_upstream H q up rs) | _ \<Rightarrow> {})"
  by (cases res) (auto simp: lookup_ptr_def lookup_begin_def lookup_finish_def Let_def case_prod_beta
      split: sum.splits option.splits)

definition in_namespace :: "'n dns_lib \<Rightarrow> 'n config \<Rightarrow> 'n \<Rightarrow> bool" where
  "in_namespace H c q \<longleftrightarrow> (\<exists>z \<in> set (cf_zones c). zone_of H (zn_ptr_zone z) q \<or> zone_of H (zn_fwd_parent z) q)"

text \<open>The cases of a decision, with what each says of the query.\<close>

lemma handler_decide_cases:
  obtains (refused) "\<And>e. handler_decide H zs q t c e = (reply_refused, zs)"
      "\<not> (c = CL_IN \<or> c = CL_ANY) \<or> t = RT_AXFR \<or> t = RT_IXFR"
  | (apex) apex where "c = CL_IN \<or> c = CL_ANY" "t = RT_SOA \<or> t = RT_NS \<or> t = RT_ANY"
      "apex \<in> set (apexes H (zs_config zs))" "name_eq H apex q"
      "\<And>e. handler_decide H zs q t c e = (apex_reply H (zs_config zs) apex t, zs)"
  | (answer) z rs rs' zs' where "c = CL_IN \<or> c = CL_ANY" "resolve H (zs_config zs) q t = Answer z rs"
      "upstream_override H zs z q t env rs = (rs', zs')"
      "handler_decide H zs q t c env = (let k = (if rs' = [] then Kind_Negative else Kind_Answer) in
         (\<lparr>re_code = NoError, re_authoritative = True, re_answers = rs',
           re_authority = negative_authority H (zs_config zs) q k, re_kind = k\<rparr>, zs'))"
  | (no_name) z where "c = CL_IN \<or> c = CL_ANY" "resolve H (zs_config zs) q t = NoName z"
      "\<And>e. handler_decide H zs q t c e = (\<lparr>re_code = NXDomain, re_authoritative = True, re_answers = [],
         re_authority = (case cf_soa (zs_config zs) of None \<Rightarrow> [] | Some soa \<Rightarrow>
           [soa_record H (if zone_of H (zn_ptr_zone z) q then zn_ptr_zone z else zn_fwd_parent z) soa (zn_ttl z)]),
         re_kind = Kind_Negative\<rparr>, zs)"
  | (no_zone) r where "c = CL_IN \<or> c = CL_ANY" "resolve H (zs_config zs) q t = NoZone"
      "\<And>e. handler_decide H zs q t c e = (r, zs)" "\<not> re_authoritative r" "re_answers r = []" "re_authority r = []"
      "re_kind r = Kind_Negative" "re_code r \<in> {Refused, NXDomain}"
proof -
  show thesis
  proof (cases "\<not> (c = CL_IN \<or> c = CL_ANY) \<or> t = RT_AXFR \<or> t = RT_IXFR")
    case True
    then show thesis by (intro refused) (auto simp: handler_decide_def Let_def)
  next
    case ok: False
    let ?found = "if t = RT_SOA \<or> t = RT_NS \<or> t = RT_ANY then find (\<lambda>a. name_eq H a q) (apexes H (zs_config zs)) else None"
    show thesis
    proof (cases ?found)
      case (Some a)
      then have "a \<in> set (apexes H (zs_config zs))" "name_eq H a q" "t = RT_SOA \<or> t = RT_NS \<or> t = RT_ANY"
        by (auto simp: find_Some_iff split: if_splits)
      with Some ok show thesis by (intro apex [of a]) (auto simp: handler_decide_def Let_def)
    next
      case None
      show thesis
      proof (cases "resolve H (zs_config zs) q t")
        case (Answer z rs)
        obtain rs' zs' where "upstream_override H zs z q t env rs = (rs', zs')" by fastforce
        with Answer None ok show thesis by (intro answer [of z rs rs' zs']) (auto simp: handler_decide_def Let_def)
      next
        case (NoName z)
        with None ok show thesis by (intro no_name [of z]) (auto simp: handler_decide_def Let_def)
      next
        case NoZone
        let ?r = "fst (handler_decide H zs q t c env)"
        show thesis
          using None ok NoZone
          by (intro no_zone [of ?r]) (auto simp: handler_decide_def reply_refused_def Let_def split: out_of_zone_policy.splits)
      qed
    qed
  qed
qed



context dns_laws
begin

lemma apex_in_namespace:
  assumes "apex \<in> set (apexes H c)" and "name_eq H apex q"
  shows "in_namespace H c q"
proof -
  from in_apexes [OF assms(1)] obtain z where "z \<in> set (cf_zones c)" "apex = zn_ptr_zone z \<or> apex = zn_fwd_parent z" by blast
  moreover have "zone_of H apex q" using zone_of_cong [OF name_eq_refl assms(2), of apex] zone_of_refl by simp
  ultimately show ?thesis by (auto simp: in_namespace_def)
qed

lemma resolve_in_namespace:
  assumes "wf_config H c" and "\<forall>z \<in> set (cf_zones c). \<not> wildcard_template (zn_fwd z)"
  shows "resolve H c q t \<noteq> NoZone \<longleftrightarrow> in_namespace H c q"
proof -
  have "zone_containing H c q = None \<longleftrightarrow> \<not> in_namespace H c q"
    by (auto simp: zone_containing_None in_namespace_def)
  moreover have "match_ptr H c q \<noteq> None \<Longrightarrow> in_namespace H c q"
    using match_ptr_in_zone [OF assms(1)] by (force simp: in_namespace_def)
  moreover have "match_forward H c q \<noteq> None \<Longrightarrow> in_namespace H c q"
    using match_zone_forward_in_zone [OF wf_config_zone [OF assms(1)]] assms(2)
    by (fastforce simp: in_namespace_def dest: match_forward_SomeD)
  ultimately show ?thesis by (auto simp: resolve_def split: option.splits prod.splits)
qed

lemma decide_authority:
  assumes "wf_config H (zs_config zs)" and "\<forall>z \<in> set (cf_zones (zs_config zs)). \<not> wildcard_template (zn_fwd z)"
    and "c = CL_IN \<or> c = CL_ANY" and "t \<noteq> RT_AXFR" and "t \<noteq> RT_IXFR"
  shows "(re_authoritative (fst (handler_decide H zs q t c env)) \<longleftrightarrow> in_namespace H (zs_config zs) q) \<and>
    (\<not> re_authoritative (fst (handler_decide H zs q t c env)) \<longrightarrow>
       re_answers (fst (handler_decide H zs q t c env)) = [] \<and> re_authority (fst (handler_decide H zs q t c env)) = [] \<and>
       re_code (fst (handler_decide H zs q t c env)) \<in> {Refused, NXDomain})"
proof (cases rule: handler_decide_cases [where H = H and zs = zs and q = q and t = t and c = c and env = env])
  case (apex a)
  with apex_in_namespace [of a "zs_config zs" q] show ?thesis by (simp add: apex_reply_def Let_def)
qed (use assms resolve_in_namespace [OF assms(1,2), of q t] in \<open>auto simp: Let_def\<close>)

lemma decide_authoritative_in_namespace:
  assumes "wf_config H (zs_config zs)" and "\<forall>z \<in> set (cf_zones (zs_config zs)). \<not> wildcard_template (zn_fwd z)"
    and "re_authoritative (fst (handler_decide H zs q t c env))"
  shows "in_namespace H (zs_config zs) q"
proof -
  have "(c = CL_IN \<or> c = CL_ANY) \<and> t \<noteq> RT_AXFR \<and> t \<noteq> RT_IXFR"
    using assms(3) by (auto simp: handler_decide_def reply_refused_def Let_def split: if_splits)
  with decide_authority [OF assms(1,2), of c t q env] assms(3) show ?thesis by blast
qed

lemma soa_record_fields:
  "rr_name (soa_record H apex soa ttl) = apex" "rr_class (soa_record H apex soa ttl) = CL_IN"
  "rr_ttl (soa_record H apex soa ttl) = min ttl (so_minimum soa)"
  "record_type_of H (soa_record H apex soa ttl) = RT_SOA"
  by (simp_all add: soa_record_def from_rdata_fields record_type_of_data)

lemma ns_record_fields:
  "r \<in> set (ns_records H apex c ttl) \<Longrightarrow> rr_name r = apex \<and> rr_class r = CL_IN \<and> record_type_of H r = RT_NS"
  by (auto simp: ns_records_def from_rdata_fields record_type_of_data)

lemma apex_answers:
  assumes "r \<in> set (re_answers (apex_reply H c apex t))" and "t = RT_SOA \<or> t = RT_NS \<or> t = RT_ANY"
  shows "rr_name r = apex \<and> rr_class r = CL_IN \<and> (record_type_of H r = t \<or> t = RT_ANY)"
proof -
  define ttl where "ttl = (case cf_zones c of [] \<Rightarrow> 3600 | z # _ \<Rightarrow> zn_ttl z)"
  define soas where "soas = (case cf_soa c of None \<Rightarrow> [] | Some soa \<Rightarrow> [soa_record H apex soa ttl])"
  have "r \<in> set ((if t = RT_SOA \<or> t = RT_ANY then soas else []) @
      (if t = RT_NS \<or> t = RT_ANY then ns_records H apex c ttl else []))"
    using assms(1) by (simp only: apex_reply_def Let_def ttl_def soas_def reply.simps)
  then consider "r \<in> set soas" "t = RT_SOA \<or> t = RT_ANY" | "r \<in> set (ns_records H apex c ttl)" "t = RT_NS \<or> t = RT_ANY"
    by (auto split: if_split_asm)
  then show ?thesis
  proof cases
    case 1
    then obtain soa where "r = soa_record H apex soa ttl" unfolding soas_def by (cases "cf_soa c") auto
    with 1(2) show ?thesis by (auto simp: soa_record_fields)
  next
    case 2
    with ns_record_fields [OF 2(1)] show ?thesis by auto
  qed
qed

lemma relayed_records:
  assumes "r \<in> set (fst (lookup_ptr H u q now res later))"
  shows "rr_name r = q \<and> rr_class r = CL_IN \<and> record_type_of H r = RT_PTR"
proof -
  obtain up rs where "r \<in> set (filter_upstream H q up rs)"
    using lookup_ptr_records [of H u q now res later] assms by (cases res) auto
  then show ?thesis
    by (auto simp: filter_upstream_def from_rdata_fields record_type_of_data dest!: in_set_takeD)
qed

lemma resolve_records:
  assumes "wf_config H c" and "resolve H c q t = Answer z rs" and "r \<in> set rs"
  shows "rr_name r = q \<and> rr_class r = CL_IN \<and> (record_type_of H r = t \<or> t = RT_ANY)"
proof (cases "if reverse_has_type t then match_ptr H c q else None")
  case (Some p)
  obtain z' a where p: "p = (z', a)" by (cases p)
  with Some have t: "reverse_has_type t" and m: "match_ptr H c q = Some (z', a)" by (auto split: if_splits)
  from resolve_reverse [OF assms(1) t m] obtain n where
    "resolve H c q t = Answer z' [\<lparr>rr_name = q, rr_class = CL_IN, rr_ttl = zn_ttl z', rr_data = RD_PTR n\<rparr>]" by blast
  with assms(2,3) t show ?thesis
    by (auto simp: record_type_of_data reverse_has_type_def split: record_type.splits)
next
  case None
  with assms(2,3) obtain a where "forward_has_type t" "r = aaaa_record H z q a"
    by (auto simp: resolve_def split: option.splits if_splits)
  then show ?thesis
    by (auto simp: aaaa_record_def from_rdata_fields record_type_of_data forward_has_type_def split: record_type.splits)
qed

lemma override_records:
  assumes "upstream_override H zs z q t env rs = (rs', zs')" and "r \<in> set rs'"
  shows "r \<in> set rs \<or> t = RT_PTR \<and> rr_name r = q \<and> rr_class r = CL_IN \<and> record_type_of H r = RT_PTR"
  using assms relayed_records
  by (auto simp: upstream_override_def Let_def case_prod_beta split: option.splits if_splits)

end

definition example_zones :: "rfc_name zones" where
  "example_zones = \<lparr>zs_config = example_config, zs_upstreams = Map.empty\<rparr>"

definition example_env :: "rfc_name lookup_env" where
  "example_env = \<lparr>le_now = 0, le_result = Elapsed, le_later = 300\<rparr>"

lemma example_aaaa:
  "handler_decide rfc_lib example_zones ([''Host-0000002a'', ''example'', ''net''], True) RT_AAAA CL_IN example_env =
   (\<lparr>re_code = NoError, re_authoritative = True, re_answers =
       [\<lparr>rr_name = ([''Host-0000002a'', ''example'', ''net''], True), rr_class = CL_IN, rr_ttl = 300,
         rr_data = RD_AAAA 0x20010db800000000000000000000002a\<rparr>], re_authority = [], re_kind = Kind_Answer\<rparr>,
    example_zones)"
proof -
  have "resolve rfc_lib example_config ([''Host-0000002a'', ''example'', ''net''], True) RT_AAAA =
    Answer example_zone [aaaa_record rfc_lib example_zone ([''Host-0000002a'', ''example'', ''net''], True)
      0x20010db800000000000000000000002a]"
    by (simp add: resolve_def reverse_has_type_def forward_has_type_def match_forward_def
        example_config_def config_default_def example_match)
  moreover have "zn_ttl example_zone = 300" by (simp add: example_zone_def)
  ultimately show ?thesis
    by (simp add: handler_decide_def Let_def example_zones_def upstream_override_def aaaa_record_def rfc_eval
        negative_authority_def)
qed



definition relay_zones :: "rfc_name zones" where
  "relay_zones = \<lparr>zs_config = example_config\<lparr>cf_zones := [example_zone\<lparr>zn_upstream := Some (V4 0x7F000001)\<rparr>]\<rparr>,
     zs_upstreams = [V4 0x7F000001 \<mapsto>
       \<lparr>us_addr = V4 0x7F000001, us_permits = 64, us_breaker = breaker_default, us_timeout = 300\<rparr>]\<rparr>"

lemma wf_zone_upstream: "wf_zone H (z\<lparr>zn_upstream := u\<rparr>) \<longleftrightarrow> wf_zone H z"
  by (simp add: wf_zone_def)

lemma wf_relay_config: "wf_config rfc_lib (zs_config relay_zones)"
  by (simp add: wf_config_def relay_zones_def example_config_def config_default_def wf_zone_upstream wf_example_zone)

lemma relay_match_ptr:
  "match_ptr rfc_lib (zs_config relay_zones) (map (\<lambda>c. [c]) ''a20000000000000000000000'' @
     map (\<lambda>c. [c]) ''8bd01002'' @ [''ip6'', ''arpa''], True) =
   Some (example_zone\<lparr>zn_upstream := Some (V4 0x7F000001)\<rparr>, 0x20010db800000000000000000000002a)"
  unfolding match_ptr_def example_ptr_name using example_zone_for
  by (simp add: relay_zones_def zone_for_addr_def example_config_def config_default_def split: if_splits)

lemma override_cases:
  assumes "upstream_override H zs z q t env rs = (rs', zs')"
  obtains (kept) "rs' = rs" "zs' = zs"
  | (asked) addr u where "t = RT_PTR" "rs \<noteq> []" "zn_upstream z = Some addr" "zs_upstreams zs addr = Some u"
      "zs' = zs\<lparr>zs_upstreams := (zs_upstreams zs)(addr \<mapsto>
         snd (lookup_ptr H u q (le_now env) (le_result env) (le_later env)))\<rparr>"
      "rs' = (let new = fst (lookup_ptr H u q (le_now env) (le_result env) (le_later env)) in
         if new \<noteq> [] then new else rs)"
proof (cases "rs \<noteq> [] \<and> t = RT_PTR")
  case True
  show thesis
  proof (cases "zn_upstream z")
    case (Some addr)
    show thesis
    proof (cases "zs_upstreams zs addr")
      case u: (Some u)
      with True Some assms show thesis
        by (intro asked [of addr u]) (auto simp: upstream_override_def Let_def case_prod_beta)
    qed (use True Some assms kept in \<open>simp add: upstream_override_def\<close>)
  qed (use True assms kept in \<open>simp add: upstream_override_def\<close>)
next
  case False
  then have "upstream_override H zs z q t env rs = (rs, zs)" by (auto simp: upstream_override_def)
  with assms kept show thesis by simp
qed

lemma resolve_PTR_nonempty:
  assumes "resolve H c q RT_PTR = Answer z rs" and "rs \<noteq> []"
  obtains a where "match_ptr H c q = Some (z, a)"
  using assms by (auto simp: resolve_def reverse_has_type_def forward_has_type_def split: option.splits)

lemma lookup_ptr_found:
  assumes "fst (lookup_ptr H u q now res later) \<noteq> []"
  obtains up rs where "res = Found rs" "upstream_qname H q = Some up"
    "fst (lookup_ptr H u q now res later) = filter_upstream H q up rs"
  using assms
  by (cases res) (auto simp: lookup_ptr_def lookup_begin_def lookup_finish_def Let_def case_prod_beta
      split: sum.splits option.splits if_splits)

section \<open>Properties\<close>

text \<open>
  Property C11. Authority ends where the configuration does: over a compiled configuration
  (no template beginning with \<open>*\<close>), a query of class IN or ANY that is not for a zone
  transfer is answered authoritatively exactly when its name lies at or below a configured
  apex; outside it the reply holds no records and is REFUSED or, if so configured, NXDOMAIN.
\<close>

theorem authoritative_iff_in_namespace:
  assumes "dns_laws H" and "wf_config H (zs_config zs)"
    and "\<forall>z \<in> set (cf_zones (zs_config zs)). \<not> wildcard_template (zn_fwd z)"
    and "c = CL_IN \<or> c = CL_ANY" and "t \<noteq> RT_AXFR" and "t \<noteq> RT_IXFR"
  shows "let r = fst (handler_decide H zs q t c env) in
    (re_authoritative r \<longleftrightarrow> in_namespace H (zs_config zs) q) \<and>
    (\<not> re_authoritative r \<longrightarrow> re_answers r = [] \<and> re_authority r = [] \<and> re_code r \<in> {Refused, NXDomain})"
  using dns_laws.decide_authority [OF assms] by (simp add: Let_def)

theorem authoritative_iff_in_namespace_witness:
  "re_authoritative (fst (handler_decide rfc_lib example_zones ([''x'', ''Example'', ''net''], True) RT_A CL_IN example_env)) \<and>
   re_answers (fst (handler_decide rfc_lib example_zones ([''example'', ''org''], True) RT_A CL_IN example_env)) = []"
proof -
  have nw: "\<forall>z \<in> set (cf_zones (zs_config example_zones)). \<not> wildcard_template (zn_fwd z)"
    by (simp add: example_zones_def example_config_def config_default_def example_not_wildcard)
  have wf: "wf_config rfc_lib (zs_config example_zones)" by (simp add: example_zones_def wf_example_config)
  have cls: "CL_IN = CL_IN \<or> CL_IN = CL_ANY" and ty: "RT_A \<noteq> RT_AXFR" "RT_A \<noteq> RT_IXFR" by simp_all
  have ns: "in_namespace rfc_lib (zs_config example_zones) ([''x'', ''Example'', ''net''], True)"
    "\<not> in_namespace rfc_lib (zs_config example_zones) ([''example'', ''org''], True)"
    unfolding in_namespace_def rfc.zone_of_suffix
    by (simp_all add: example_zones_def example_config_def config_default_def example_zone_def folded_def
        rfc_eval suffix_drop_iff)
  show ?thesis
    using authoritative_iff_in_namespace [OF rfc.dns_laws_axioms wf nw cls ty] ns by (metis (no_types, lifting))
qed

text \<open>
  Property C22. Answers are about the question: every record in the answer section, also one
  relayed from an upstream, is of class IN, is owned by the queried name and has the queried
  type (any type for ANY).
\<close>

theorem answers_match_question:
  assumes "dns_laws H" and "wf_config H (zs_config zs)"
    and "r \<in> set (re_answers (fst (handler_decide H zs q t c env)))"
  shows "name_eq H (rr_name r) q \<and> rr_class r = CL_IN \<and> (record_type_of H r = t \<or> t = RT_ANY)"
proof (cases rule: handler_decide_cases [where H = H and zs = zs and q = q and t = t and c = c and env = env])
  case (apex a)
  with assms(3) dns_laws.apex_answers [OF assms(1), of r "zs_config zs" a t] show ?thesis by auto
next
  case (answer z rs rs' zs')
  with assms(3) have "r \<in> set rs'" by (simp add: Let_def)
  from dns_laws.override_records [OF assms(1) answer(3) this]
  show ?thesis
    using dns_laws.resolve_records [OF assms(1,2) answer(2), of r] dns_laws.name_eq_refl [OF assms(1), of q] by auto
qed (use assms in \<open>auto simp: reply_refused_def\<close>)

theorem answers_match_question_witness:
  "\<exists>r. r \<in> set (re_answers (fst (handler_decide rfc_lib example_zones ([''Host-0000002a'', ''example'', ''net''], True)
       RT_AAAA CL_IN example_env))) \<and>
     rr_data r = RD_AAAA 0x20010db800000000000000000000002a \<and>
     name_eq rfc_lib (rr_name r) ([''Host-0000002a'', ''example'', ''net''], True) \<and> rr_class r = CL_IN \<and>
     (record_type_of rfc_lib r = RT_AAAA \<or> RT_AAAA = RT_ANY)"
proof -
  let ?q = "([''Host-0000002a'', ''example'', ''net''], True)"
  obtain r where r: "r \<in> set (re_answers (fst (handler_decide rfc_lib example_zones ?q RT_AAAA CL_IN example_env)))"
    "rr_data r = RD_AAAA 0x20010db800000000000000000000002a"
    by (simp add: example_aaaa)
  have "wf_config rfc_lib (zs_config example_zones)" by (simp add: example_zones_def wf_example_config)
  from answers_match_question [OF rfc.dns_laws_axioms this r(1)] r show ?thesis by blast
qed



text \<open>
  Property C24. The server is no open forwarder: what a decision gives depends on an upstream, and
  the state of a client changes, only for a PTR query whose name denotes an address in a
  configured network with an upstream, and then only the client of that network's upstream.
\<close>

theorem upstream_only_for_matched_ptr:
  "(snd (handler_decide H zs q t c env) = zs \<and>
    handler_decide H zs q t c env = handler_decide H zs q t c env') \<or>
   (\<exists>z a addr. t = RT_PTR \<and> match_ptr H (zs_config zs) q = Some (z, a) \<and> zn_upstream z = Some addr \<and>
      zs_config (snd (handler_decide H zs q t c env)) = zs_config zs \<and>
      (\<forall>other. other = addr \<or>
         zs_upstreams (snd (handler_decide H zs q t c env)) other = zs_upstreams zs other))"
proof (cases rule: handler_decide_cases [where H = H and zs = zs and q = q and t = t and c = c and env = env])
  case (answer z rs rs' zs')
  from answer(3) show ?thesis
  proof (cases rule: override_cases)
    case (asked addr u)
    obtain a where "match_ptr H (zs_config zs) q = Some (z, a)"
      using answer(2) asked(1,2) by (blast elim: resolve_PTR_nonempty)
    with asked answer(4) show ?thesis by (auto simp: Let_def)
  next
    case kept
    show ?thesis
    proof (cases "rs \<noteq> [] \<and> t = RT_PTR \<and> zn_upstream z \<noteq> None")
      case True
      then obtain a addr where "match_ptr H (zs_config zs) q = Some (z, a)" "zn_upstream z = Some addr"
        using answer(2) by (blast elim: resolve_PTR_nonempty)
      with True kept answer(4) show ?thesis by (auto simp: Let_def)
    next
      case False
      then have "upstream_override H zs z q t e rs = (rs, zs)" for e by (auto simp: upstream_override_def)
      with answer(2,4) kept show ?thesis by (auto simp: handler_decide_def Let_def split: option.splits)
    qed
  qed
qed simp_all

text \<open>
  Property C25. An upstream can refine an answer but never take it away: over a compiled
  configuration a PTR query of class IN or ANY for an address in a network is answered with
  the synthesized record, unless the network's upstream returned records that pass the
  filter, which then replace it; timeouts, errors, an open breaker and exhausted permits all
  leave the synthesized record.
\<close>

theorem upstream_never_hides_answer:
  assumes "dns_laws H" and "wf_config H (zs_config zs)"
    and "match_ptr H (zs_config zs) q = Some (z, a)" and "c = CL_IN \<or> c = CL_ANY"
  shows "\<exists>n. forward_name H z a = Some n \<and> re_code (fst (handler_decide H zs q RT_PTR c env)) = NoError \<and>
    (re_answers (fst (handler_decide H zs q RT_PTR c env)) =
       [\<lparr>rr_name = q, rr_class = CL_IN, rr_ttl = zn_ttl z, rr_data = RD_PTR n\<rparr>] \<or>
     (\<exists>up rs. zn_upstream z \<noteq> None \<and> le_result env = Found rs \<and> upstream_qname H q = Some up \<and>
        filter_upstream H q up rs \<noteq> [] \<and>
        re_answers (fst (handler_decide H zs q RT_PTR c env)) = filter_upstream H q up rs))"
proof -
  let ?r = "\<lambda>n. \<lparr>rr_name = q, rr_class = CL_IN, rr_ttl = zn_ttl z, rr_data = RD_PTR n\<rparr>"
  obtain n where n: "forward_name H z a = Some n" and r: "resolve H (zs_config zs) q RT_PTR = Answer z [?r n]"
    using dns_laws.resolve_reverse [OF assms(1,2) _ assms(3), of RT_PTR] by (auto simp: reverse_has_type_def)
  obtain rs' zs' where o: "upstream_override H zs z q RT_PTR env [?r n] = (rs', zs')" by fastforce
  with r assms(4) have d: "re_code (fst (handler_decide H zs q RT_PTR c env)) = NoError"
    "re_answers (fst (handler_decide H zs q RT_PTR c env)) = rs'"
    by (auto simp: handler_decide_def Let_def)
  from o show ?thesis
  proof (cases rule: override_cases)
    case (asked addr u)
    let ?new = "fst (lookup_ptr H u q (le_now env) (le_result env) (le_later env))"
    show ?thesis
    proof (cases "?new = []")
      case False
      then obtain up rs where "le_result env = Found rs" "upstream_qname H q = Some up" "?new = filter_upstream H q up rs"
        by (rule lookup_ptr_found)
      with False n d asked show ?thesis by (auto simp: Let_def)
    qed (use n d asked in \<open>auto simp: Let_def\<close>)
  qed (use n d in auto)
qed

theorem upstream_never_hides_answer_witness:
  "re_code (fst (handler_decide rfc_lib relay_zones (map (\<lambda>c. [c]) ''a20000000000000000000000'' @
     map (\<lambda>c. [c]) ''8bd01002'' @ [''ip6'', ''arpa''], True) RT_PTR CL_IN example_env)) = NoError"
  using upstream_never_hides_answer [OF rfc.dns_laws_axioms wf_relay_config relay_match_ptr, of CL_IN example_env] by blast

end
