(* ===== verification/Handler.thy ===== *)
theory Handler
  imports Decide
begin

text \<open>
  \<open>src/src/server/handler.rs\<close>, second half: from a request to the responses handed to the
  transport. Parsing and serialising messages is the work of \<open>hickory_server\<close>: a request is
  the record of what the handler reads of it, a response the record of what it hands over
  to be sent, and whether sending succeeds is an input. A panic is an outcome of its own,
  which \<open>handle_request\<close> catches.
\<close>

section \<open>State\<close>

record ('n, 'l) handler =
  hd_zones :: "'n zones"
  hd_rrl :: "'l rrl"
  hd_querylog :: bool

definition handler_new :: "'n zones \<Rightarrow> 'l rrl \<Rightarrow> bool \<Rightarrow> ('n, 'l) handler" where
  "handler_new zones rrl querylog = \<lparr>hd_zones = zones, hd_rrl = rrl, hd_querylog = querylog\<rparr>"

section \<open>Messages\<close>

datatype op_code = Op_Query | Op_Notify | Op_Update | Op_Other u8

datatype protocol = Proto_Udp | Proto_Tcp | Proto_Other

record metadata =
  md_id :: u16
  md_is_response :: bool
  md_op_code :: op_code
  md_authoritative :: bool
  md_truncation :: bool
  md_recursion_desired :: bool
  md_recursion_available :: bool
  md_authentic_data :: bool
  md_checking_disabled :: bool
  md_response_code :: response_code

text \<open>The query of a request, when the message holds exactly one.\<close>

record 'n request_info =
  ri_name :: 'n
  ri_type :: record_type
  ri_class :: dns_class

text \<open>
  A request: where it came from, its header, the result of \<open>request_info\<close>, and the EDNS part
  as its version and the payload size the client accepts.
\<close>

record 'n request =
  rq_src :: socket_addr
  rq_protocol :: protocol
  rq_metadata :: metadata
  rq_info :: "(string, 'n request_info) result"
  rq_edns :: "(u8 \<times> u16) option"

definition rq_version :: "'n request \<Rightarrow> u8" where
  "rq_version r = (case rq_edns r of None \<Rightarrow> 0 | Some (v, _) \<Rightarrow> v)"

record 'n response =
  rs_metadata :: metadata
  rs_answers :: "'n rr list"
  rs_authority :: "'n rr list"
  rs_edns :: "(u8 \<times> u16) option"

text \<open>
  The message library: the response header for a request, a fresh header, and the payload
  size of a request (the one of its EDNS part, 512 without one). \<open>ResponseInfo\<close> is a header.
\<close>

record 'n msg_lib =
  response_from_request :: "metadata \<Rightarrow> metadata"
  metadata_new :: "u16 \<Rightarrow> bool \<Rightarrow> op_code \<Rightarrow> metadata"
  max_payload :: "'n request \<Rightarrow> u16"

section \<open>Sending\<close>

text \<open>\<open>Ord::clamp\<close> panics when its bounds are out of order.\<close>

definition clamp_checked :: "u16 \<Rightarrow> u16 \<Rightarrow> u16 \<Rightarrow> u16 option" where
  "clamp_checked x lo hi = (if lo \<le> hi then Some (clamp x lo hi) else None)"

text \<open>
  The outcome of a handler step: a returned result, or a panic. What is handed to
  \<open>send_response\<close> is collected in order; \<open>deliver\<close> says what the transport makes of it.
\<close>

datatype outcome_flow = Returned "(string, metadata) result" | Panicked

type_synonym 'n deliver = "'n response \<Rightarrow> (string, metadata) result"

definition deliver_result :: "'n deliver \<Rightarrow> 'n response \<Rightarrow> (string, metadata) result" where
  "deliver_result deliver response =
    (case deliver response of Inl e \<Rightarrow> Inl (''send failed: '' @ e) | Inr info \<Rightarrow> Inr info)"

definition handler_send ::
  "'n msg_lib \<Rightarrow> ('n, 'l) handler \<Rightarrow> 'n deliver \<Rightarrow> metadata \<Rightarrow> 'n reply \<Rightarrow> 'n request \<Rightarrow> bool \<Rightarrow>
   outcome_flow \<times> 'n response list" where
  "handler_send M h deliver request_meta reply request is_tcp =
    (let metadata = (response_from_request M request_meta)\<lparr>md_response_code := re_code reply,
           md_authoritative := re_authoritative reply,
           md_recursion_available := False, md_authentic_data := False\<rparr>;
         edns = (case rq_edns request of
            None \<Rightarrow> Some None
          | Some _ \<Rightarrow>
              let max = sp_max_udp_payload (cf_params (zs_config (hd_zones h)))
              in (case (if is_tcp then Some max else clamp_checked (max_payload M request) 512 max) of
                    None \<Rightarrow> None
                  | Some advertised \<Rightarrow> Some (Some (0, advertised))))
     in (case edns of
           None \<Rightarrow> (Panicked, [])
         | Some e \<Rightarrow>
             let response = \<lparr>rs_metadata = metadata, rs_answers = re_answers reply,
                   rs_authority = re_authority reply, rs_edns = e\<rparr>
             in (Returned (deliver_result deliver response), [response])))"

definition build_no_records :: "metadata \<Rightarrow> 'n response" where
  "build_no_records m = \<lparr>rs_metadata = m, rs_answers = [], rs_authority = [], rs_edns = None\<rparr>"

section \<open>Handling\<close>

text \<open>
  What a request meets on its way: the transport, the upstream, the limiter's clock, and the
  zones a reload stores while it waits for the upstream, if any: the decision is made on the
  zones loaded before, the reply is sent with the payload limit of those loaded after.
\<close>

record 'n request_env =
  en_deliver :: "'n deliver"
  en_lookup :: "'n lookup_env"
  en_reload :: "'n zones option"
  en_clock :: nat

definition handle_inner ::
  "'n dns_lib \<Rightarrow> 'n msg_lib \<Rightarrow> ('q, 'l) governor \<Rightarrow> ('n, 'l) handler \<Rightarrow> 'n request \<Rightarrow> 'n request_env \<Rightarrow>
   outcome_flow \<times> 'n response list \<times> ('n, 'l) handler" where
  "handle_inner H M G h request env =
    (case rq_info request of
       Inl e \<Rightarrow> (Returned (Inl (''malformed request: '' @ e)), [], h)
     | Inr info \<Rightarrow>
         let is_tcp = (rq_protocol request = Proto_Tcp);
             request_meta = rq_metadata request
         in if md_op_code request_meta \<noteq> Op_Query then
              let (r, sent) = handler_send M h (en_deliver env) request_meta (reply_error NotImp) request is_tcp
              in (r, sent, h)
            else if rq_version request > 0 then
              let (r, sent) = handler_send M h (en_deliver env) request_meta (reply_error BADVERS) request is_tcp
              in (r, sent, h)
            else
              let (reply, zones) = handler_decide H (hd_zones h) (ri_name info) (ri_type info) (ri_class info)
                    (en_lookup env);
                  (decision, rrl) = rrl_decide G (hd_rrl h) (fst (rq_src request)) (re_kind reply) is_tcp (en_clock env);
                  h' = h\<lparr>hd_zones := (case en_reload env of None \<Rightarrow> zones | Some next \<Rightarrow> next), hd_rrl := rrl\<rparr>
              in (case decision of
                    Allow \<Rightarrow>
                      let (r, sent) = handler_send M h' (en_deliver env) request_meta reply request is_tcp
                      in (r, sent, h')
                  | Drop \<Rightarrow> (Returned (Inr (response_from_request M request_meta)), [], h')
                  | Truncate \<Rightarrow>
                      let response = build_no_records ((response_from_request M request_meta)\<lparr>md_truncation := True\<rparr>)
                      in (Returned (deliver_result (en_deliver env) response), [response], h')))"

definition servfail ::
  "'n msg_lib \<Rightarrow> 'n request \<Rightarrow> 'n deliver \<Rightarrow> metadata \<times> 'n response" where
  "servfail M request deliver =
    (let metadata = (metadata_new M (md_id (rq_metadata request)) True Op_Query)\<lparr>md_response_code := ServFail\<rparr>;
         response = build_no_records metadata
     in (case deliver response of Inr info \<Rightarrow> (info, response) | Inl _ \<Rightarrow> (metadata, response)))"

definition handle_request ::
  "'n dns_lib \<Rightarrow> 'n msg_lib \<Rightarrow> ('q, 'l) governor \<Rightarrow> ('n, 'l) handler \<Rightarrow> 'n request \<Rightarrow> 'n request_env \<Rightarrow>
   metadata \<times> 'n response list \<times> ('n, 'l) handler" where
  "handle_request H M G h request env =
    (case handle_inner H M G h request env of
       (Returned (Inr info), sent, h') \<Rightarrow> (info, sent, h')
     | (_, sent, h') \<Rightarrow>
         let (info, response) = servfail M request (en_deliver env) in (info, sent @ [response], h'))"

section \<open>The message library\<close>

text \<open>
  A response header repeats the identifier and the operation of the request and has every
  other flag of an authoritative answer clear; a fresh header has every flag clear.
\<close>

locale msg_laws =
  fixes M :: "'n msg_lib"
  assumes response_header: "md_id (response_from_request M m) = md_id m"
      "md_is_response (response_from_request M m)"
      "\<not> md_authoritative (response_from_request M m)" "\<not> md_truncation (response_from_request M m)"
      "\<not> md_recursion_available (response_from_request M m)" "\<not> md_authentic_data (response_from_request M m)"
    and fresh_header: "md_id (metadata_new M i b op) = i" "md_is_response (metadata_new M i b op) = b"
      "\<not> md_authoritative (metadata_new M i b op)" "\<not> md_truncation (metadata_new M i b op)"
      "\<not> md_recursion_available (metadata_new M i b op)" "\<not> md_authentic_data (metadata_new M i b op)"
begin

lemmas headers = response_header fresh_header

end

definition rfc_header :: "u16 \<Rightarrow> bool \<Rightarrow> op_code \<Rightarrow> bool \<Rightarrow> bool \<Rightarrow> metadata" where
  "rfc_header i b op rd cd = \<lparr>md_id = i, md_is_response = b, md_op_code = op, md_authoritative = False,
     md_truncation = False, md_recursion_desired = rd, md_recursion_available = False,
     md_authentic_data = False, md_checking_disabled = cd, md_response_code = NoError\<rparr>"

definition rfc_msg :: "'n msg_lib" where
  "rfc_msg = \<lparr>
     response_from_request = (\<lambda>m. rfc_header (md_id m) True (md_op_code m) (md_recursion_desired m) (md_checking_disabled m)),
     metadata_new = (\<lambda>i b op. rfc_header i b op False False),
     max_payload = (\<lambda>r. case rq_edns r of None \<Rightarrow> 512 | Some (_, n) \<Rightarrow> n)\<rparr>"

interpretation rfc_msg: msg_laws rfc_msg
  by unfold_locales (simp_all add: rfc_msg_def rfc_header_def)

section \<open>What is sent\<close>

definition payload_limit :: "'n zones \<Rightarrow> u16" where
  "payload_limit zs = sp_max_udp_payload (cf_params (zs_config zs))"

text \<open>The zones in place when a reply is sent: those of the decision, or those a reload stored.\<close>

definition limits_ok :: "('n, 'l) handler \<Rightarrow> 'n request_env \<Rightarrow> bool" where
  "limits_ok h env \<longleftrightarrow> 512 \<le> payload_limit (hd_zones h) \<and>
     (case en_reload env of None \<Rightarrow> True | Some next \<Rightarrow> 512 \<le> payload_limit next)"

definition reply_header :: "'n msg_lib \<Rightarrow> metadata \<Rightarrow> 'n reply \<Rightarrow> metadata" where
  "reply_header M m reply = (response_from_request M m)\<lparr>md_response_code := re_code reply,
     md_authoritative := re_authoritative reply, md_recursion_available := False, md_authentic_data := False\<rparr>"

definition reply_edns :: "'n msg_lib \<Rightarrow> ('n, 'l) handler \<Rightarrow> 'n request \<Rightarrow> bool \<Rightarrow> (u8 \<times> u16) option" where
  "reply_edns M h request is_tcp = (case rq_edns request of None \<Rightarrow> None
     | Some _ \<Rightarrow> Some (0, if is_tcp then payload_limit (hd_zones h)
         else clamp (max_payload M request) 512 (payload_limit (hd_zones h))))"

lemma handler_send_Returned:
  assumes "512 \<le> payload_limit (hd_zones h)"
  shows "handler_send M h deliver m reply request is_tcp =
    (let r = \<lparr>rs_metadata = reply_header M m reply, rs_answers = re_answers reply,
       rs_authority = re_authority reply, rs_edns = reply_edns M h request is_tcp\<rparr>
     in (Returned (deliver_result deliver r), [r]))"
  using assms
  by (cases "rq_edns request")
    (auto simp: handler_send_def reply_header_def reply_edns_def payload_limit_def clamp_checked_def Let_def)

lemma reply_edns_bounds:
  assumes "512 \<le> payload_limit (hd_zones h)" and "reply_edns M h request is_tcp = Some (v, p)"
  shows "rq_edns request \<noteq> None \<and> v = 0 \<and> 512 \<le> p \<and> p \<le> payload_limit (hd_zones h)"
  using assms by (auto simp: reply_edns_def clamp_def split: option.splits if_splits)

text \<open>A query the handler decides: one question, the standard operation, EDNS version 0.\<close>

definition standard_query :: "'n request \<Rightarrow> 'n request_info \<Rightarrow> bool" where
  "standard_query request info \<longleftrightarrow>
     rq_info request = Inr info \<and> md_op_code (rq_metadata request) = Op_Query \<and> rq_version request = 0"

definition decided_reply ::
  "'n dns_lib \<Rightarrow> ('n, 'l) handler \<Rightarrow> 'n request_info \<Rightarrow> 'n request_env \<Rightarrow> 'n reply \<times> 'n zones" where
  "decided_reply H h info env = handler_decide H (hd_zones h) (ri_name info) (ri_type info) (ri_class info) (en_lookup env)"

definition limiter_verdict ::
  "'n dns_lib \<Rightarrow> ('q, 'l) governor \<Rightarrow> ('n, 'l) handler \<Rightarrow> 'n request \<Rightarrow> 'n request_info \<Rightarrow> 'n request_env \<Rightarrow>
   decision \<times> 'l rrl" where
  "limiter_verdict H G h request info env =
    rrl_decide G (hd_rrl h) (fst (rq_src request)) (re_kind (fst (decided_reply H h info env)))
      (rq_protocol request = Proto_Tcp) (en_clock env)"

definition handler_after ::
  "'n dns_lib \<Rightarrow> ('q, 'l) governor \<Rightarrow> ('n, 'l) handler \<Rightarrow> 'n request \<Rightarrow> 'n request_info \<Rightarrow> 'n request_env \<Rightarrow>
   ('n, 'l) handler" where
  "handler_after H G h request info env =
    h\<lparr>hd_zones := (case en_reload env of None \<Rightarrow> snd (decided_reply H h info env) | Some next \<Rightarrow> next),
      hd_rrl := snd (limiter_verdict H G h request info env)\<rparr>"

lemma limits_ok_after: "limits_ok h env \<Longrightarrow> 512 \<le> payload_limit (hd_zones (handler_after H G h request info env))"
  by (auto simp: limits_ok_def handler_after_def payload_limit_def decided_reply_def handler_decide_config split: option.splits)

lemma handle_inner_query:
  assumes "standard_query request info"
  shows "handle_inner H M G h request env =
    (case fst (limiter_verdict H G h request info env) of
       Allow \<Rightarrow> (let (r, sent) = handler_send M (handler_after H G h request info env) (en_deliver env)
             (rq_metadata request) (fst (decided_reply H h info env)) request (rq_protocol request = Proto_Tcp)
          in (r, sent, handler_after H G h request info env))
     | Drop \<Rightarrow> (Returned (Inr (response_from_request M (rq_metadata request))), [], handler_after H G h request info env)
     | Truncate \<Rightarrow> (let response = build_no_records ((response_from_request M (rq_metadata request))\<lparr>md_truncation := True\<rparr>)
          in (Returned (deliver_result (en_deliver env) response), [response], handler_after H G h request info env)))"
  using assms unfolding standard_query_def handler_after_def limiter_verdict_def decided_reply_def
  by (simp add: handle_inner_def Let_def case_prod_beta split: decision.split)

text \<open>The cases of handling a request.\<close>

lemma handle_inner_cases:
  obtains (malformed) e where "rq_info request = Inl e"
      "handle_inner H M G h request env = (Returned (Inl (''malformed request: '' @ e)), [], h)"
  | (error) info reply r sent where "rq_info request = Inr info"
      "md_op_code (rq_metadata request) \<noteq> Op_Query \<and> reply = reply_error NotImp \<or>
       md_op_code (rq_metadata request) = Op_Query \<and> 0 < rq_version request \<and> reply = reply_error BADVERS"
      "handler_send M h (en_deliver env) (rq_metadata request) reply request (rq_protocol request = Proto_Tcp) = (r, sent)"
      "handle_inner H M G h request env = (r, sent, h)"
  | (allow) info r sent where "standard_query request info" "fst (limiter_verdict H G h request info env) = Allow"
      "handler_send M (handler_after H G h request info env) (en_deliver env) (rq_metadata request)
         (fst (decided_reply H h info env)) request (rq_protocol request = Proto_Tcp) = (r, sent)"
      "handle_inner H M G h request env = (r, sent, handler_after H G h request info env)"
  | (drop) info where "standard_query request info" "fst (limiter_verdict H G h request info env) = Drop"
      "handle_inner H M G h request env =
         (Returned (Inr (response_from_request M (rq_metadata request))), [], handler_after H G h request info env)"
  | (truncate) info response where "standard_query request info"
      "fst (limiter_verdict H G h request info env) = Truncate"
      "response = build_no_records ((response_from_request M (rq_metadata request))\<lparr>md_truncation := True\<rparr>)"
      "handle_inner H M G h request env =
         (Returned (deliver_result (en_deliver env) response), [response], handler_after H G h request info env)"
proof (cases "rq_info request")
  case (Inl e)
  then show thesis by (intro malformed) (auto simp: handle_inner_def)
next
  case info: (Inr info)
  let ?send = "\<lambda>h reply. handler_send M h (en_deliver env) (rq_metadata request) reply request (rq_protocol request = Proto_Tcp)"
  consider "md_op_code (rq_metadata request) \<noteq> Op_Query"
    | "md_op_code (rq_metadata request) = Op_Query" "0 < rq_version request"
    | "md_op_code (rq_metadata request) = Op_Query" "rq_version request = 0"
    by (metis word_neq_0_conv)
  then show thesis
  proof cases
    case 1
    obtain r sent where "?send h (reply_error NotImp) = (r, sent)" by fastforce
    with info 1 show thesis by (intro error [of info "reply_error NotImp" r sent]) (auto simp: handle_inner_def Let_def)
  next
    case 2
    obtain r sent where "?send h (reply_error BADVERS) = (r, sent)" by fastforce
    with info 2 show thesis by (intro error [of info "reply_error BADVERS" r sent]) (auto simp: handle_inner_def Let_def)
  next
    case 3
    with info have q: "standard_query request info" by (simp add: standard_query_def)
    note inner = handle_inner_query [OF q, of H M G h env]
    show thesis
    proof (cases "fst (limiter_verdict H G h request info env)")
      case Allow
      obtain r sent where "?send (handler_after H G h request info env) (fst (decided_reply H h info env)) = (r, sent)" by fastforce
      with inner Allow show thesis by (intro allow [OF q Allow, of r sent]) simp_all
    next
      case Drop
      with inner show thesis by (intro drop [OF q Drop]) simp
    next
      case Truncate
      with inner show thesis by (intro truncate [OF q Truncate]) (simp_all add: Let_def)
    qed
  qed
qed

text \<open>A transport that delivers everything.\<close>

definition delivers :: "'n deliver \<Rightarrow> bool" where
  "delivers deliver \<longleftrightarrow> (\<forall>r. \<not> isl (deliver r))"

lemma deliver_result_ok: "delivers d \<Longrightarrow> \<exists>i. deliver_result d r = Inr i"
  by (auto simp: delivers_def deliver_result_def isl_def split: sum.splits)

lemma handle_request_ok:
  assumes "handle_inner H M G h request env = (Returned (Inr info), sent, h')"
  shows "handle_request H M G h request env = (info, sent, h')"
  using assms by (simp add: handle_request_def)

lemma handle_request_failed:
  assumes "handle_inner H M G h request env = (r, sent, h')" and "\<nexists>info. r = Returned (Inr info)"
  shows "snd (handle_request H M G h request env) = (sent @ [snd (servfail M request (en_deliver env))], h')"
  using assms by (auto simp: handle_request_def Let_def case_prod_beta split: outcome_flow.splits sum.splits)

lemma servfail_response:
  "snd (servfail M request d) = build_no_records
     ((metadata_new M (md_id (rq_metadata request)) True Op_Query)\<lparr>md_response_code := ServFail\<rparr>)"
  by (simp add: servfail_def Let_def split: sum.splits)

text \<open>Every response comes out of the handling proper or is the last-resort one.\<close>

lemma handle_request_responses:
  "set (fst (snd (handle_request H M G h request env))) \<subseteq>
     insert (snd (servfail M request (en_deliver env))) (set (fst (snd (handle_inner H M G h request env))))"
proof -
  obtain r sent h' where i: "handle_inner H M G h request env = (r, sent, h')" by (metis prod_cases3)
  show ?thesis
  proof (cases "\<exists>info. r = Returned (Inr info)")
    case True
    with i handle_request_ok [of H M G h request env _ sent h'] show ?thesis by auto
  next
    case False
    with handle_request_failed [OF i] i show ?thesis by auto
  qed
qed

lemma handler_send_responses:
  assumes "handler_send M h d m reply request tcp = (r, sent)" and "x \<in> set sent"
  shows "rs_metadata x = reply_header M m reply \<and> rs_answers x = re_answers reply \<and> rs_authority x = re_authority reply"
  using assms
  by (auto simp: handler_send_def reply_header_def Let_def split: option.splits if_splits)

lemma handler_send_nonempty:
  assumes "handler_send M h d m reply request tcp = (Returned (Inr i), sent)"
  shows "sent \<noteq> []"
  using assms by (auto simp: handler_send_def Let_def split: option.splits if_splits)

lemma standard_query_unique: "standard_query request info \<Longrightarrow> standard_query request info' \<longleftrightarrow> info' = info"
  by (auto simp: standard_query_def)

lemma handle_inner_silent:
  assumes "handle_inner H M G h request env = (Returned (Inr m), sent, h')"
  shows "sent = [] \<longleftrightarrow> (\<exists>info. standard_query request info \<and> fst (limiter_verdict H G h request info env) = Drop)"
proof (cases rule: handle_inner_cases [where H = H and M = M and G = G and h = h and request = request and env = env])
  case (error info reply r sent')
  with assms have "handler_send M h (en_deliver env) (rq_metadata request) reply request (rq_protocol request = Proto_Tcp) =
      (Returned (Inr m), sent)" by simp
  from handler_send_nonempty [OF this] error(1,2) show ?thesis by (auto simp: standard_query_def)
next
  case (allow info r sent')
  with assms have "handler_send M (handler_after H G h request info env) (en_deliver env) (rq_metadata request)
      (fst (decided_reply H h info env)) request (rq_protocol request = Proto_Tcp) = (Returned (Inr m), sent)" by simp
  from handler_send_nonempty [OF this] show ?thesis by (simp add: standard_query_unique [OF allow(1)] allow(2))
next
  case (drop info)
  with assms show ?thesis by (simp add: standard_query_unique [OF drop(1)] drop(2))
next
  case (truncate info response)
  with assms have "sent \<noteq> []" by auto
  then show ?thesis by (simp add: standard_query_unique [OF truncate(1)] truncate(2))
qed (use assms in simp)

lemma handle_inner_drop:
  assumes "standard_query request info" and "fst (limiter_verdict H G h request info env) = Drop"
  shows "\<exists>m h'. handle_inner H M G h request env = (Returned (Inr m), [], h')"
  using assms
  by (cases rule: handle_inner_cases [where H = H and M = M and G = G and h = h and request = request and env = env])
    (simp_all add: standard_query_unique, auto simp: standard_query_def)

lemma handle_request_silent:
  "fst (snd (handle_request H M G h request env)) = [] \<longleftrightarrow>
   (\<exists>info. standard_query request info \<and> fst (limiter_verdict H G h request info env) = Drop)"
proof -
  obtain r sent h' where i: "handle_inner H M G h request env = (r, sent, h')" by (metis prod_cases3)
  show ?thesis
  proof (cases "\<exists>m. r = Returned (Inr m)")
    case True
    then obtain m where m: "handle_inner H M G h request env = (Returned (Inr m), sent, h')" using i by blast
    then show ?thesis using handle_inner_silent [OF m] by (simp add: handle_request_ok)
  next
    case False
    then have "\<not> (\<exists>info. standard_query request info \<and> fst (limiter_verdict H G h request info env) = Drop)"
      using handle_inner_drop [of request _ H G h env M] i by fastforce
    with False show ?thesis by (simp add: handle_request_failed [OF i])
  qed
qed

definition example_request :: "protocol \<Rightarrow> op_code \<Rightarrow> rfc_name request" where
  "example_request proto op = \<lparr>rq_src = (V4 0xC0000201, 5353), rq_protocol = proto,
     rq_metadata = \<lparr>md_id = 7, md_is_response = False, md_op_code = op, md_authoritative = False, md_truncation = False,
       md_recursion_desired = True, md_recursion_available = False, md_authentic_data = True,
       md_checking_disabled = False, md_response_code = NoError\<rparr>,
     rq_info = Inr \<lparr>ri_name = ([''x'', ''example'', ''net''], True), ri_type = RT_A, ri_class = CL_IN\<rparr>,
     rq_edns = Some (0, 4096)\<rparr>"

definition example_handler :: "(rfc_name, gcra_state) handler" where
  "example_handler = handler_new example_zones (rrl_new gcra_lib rrl_params_default) False"

definition example_request_env :: "rfc_name request_env" where
  "example_request_env = \<lparr>en_deliver = (\<lambda>r. Inr (rs_metadata r)), en_lookup = example_env, en_reload = None, en_clock = 0\<rparr>"

lemma example_limits: "limits_ok example_handler example_request_env"
  by (simp add: limits_ok_def example_handler_def handler_new_def payload_limit_def example_zones_def
      example_config_def config_default_def server_params_default_def example_request_env_def)

lemma example_delivers: "delivers (en_deliver example_request_env)"
  by (simp add: delivers_def example_request_env_def)

lemma example_standard: "standard_query (example_request proto Op_Query)
    \<lparr>ri_name = ([''x'', ''example'', ''net''], True), ri_type = RT_A, ri_class = CL_IN\<rparr>"
  by (simp add: standard_query_def example_request_def rq_version_def)

lemma handle_inner_no_panic:
  assumes "limits_ok h env"
  shows "fst (handle_inner H M G h request env) \<noteq> Panicked"
proof (cases rule: handle_inner_cases [where H = H and M = M and G = G and h = h and request = request and env = env])
  case (error info reply r sent)
  have "512 \<le> payload_limit (hd_zones h)" using assms by (simp add: limits_ok_def)
  with error(3,4) show ?thesis by (auto simp: handler_send_Returned Let_def)
next
  case (allow info r sent)
  then show ?thesis unfolding handler_send_Returned [OF limits_ok_after [OF assms]] Let_def by auto
qed auto

section \<open>Properties\<close>

text \<open>
  Property C13. Only rate limiting is silent: a request is left without any response exactly
  when it is a standard query whose reply the limiter decides to drop; malformed requests,
  failures to send and panics are all answered, if only with SERVFAIL.
\<close>

theorem silent_only_when_dropped:
  "fst (snd (handle_request H M G h request env)) = [] \<longleftrightarrow>
   (\<exists>info. standard_query request info \<and> fst (limiter_verdict H G h request info env) = Drop)"
  by (rule handle_request_silent)

text \<open>
  Property C26. The limiter decides what leaves: with a transport that delivers, the responses to
  a standard query are none when the limiter drops, one truncated response without records
  when it slips, and one response with exactly the decided records and code when it allows.
\<close>

theorem reply_follows_limiter:
  assumes "standard_query request info" and "limits_ok h env" and "delivers (en_deliver env)"
    and "msg_laws M"
  shows "case fst (limiter_verdict H G h request info env) of
      Drop \<Rightarrow> fst (snd (handle_request H M G h request env)) = []
    | Truncate \<Rightarrow> \<exists>r. fst (snd (handle_request H M G h request env)) = [r] \<and> md_truncation (rs_metadata r) \<and>
        rs_answers r = [] \<and> rs_authority r = []
    | Allow \<Rightarrow> \<exists>r. fst (snd (handle_request H M G h request env)) = [r] \<and> \<not> md_truncation (rs_metadata r) \<and>
        rs_answers r = re_answers (fst (decided_reply H h info env)) \<and>
        rs_authority r = re_authority (fst (decided_reply H h info env)) \<and>
        md_response_code (rs_metadata r) = re_code (fst (decided_reply H h info env))"
proof (cases rule: handle_inner_cases [where H = H and M = M and G = G and h = h and request = request and env = env])
  case (allow i r sent)
  with assms(1) have [simp]: "i = info" by (simp add: standard_query_def)
  obtain x where x: "r = Returned (deliver_result (en_deliver env) x)" "sent = [x]"
    using allow(3) unfolding handler_send_Returned [OF limits_ok_after [OF assms(2)]] Let_def by blast
  with deliver_result_ok [OF assms(3), of x] allow(4) obtain m where
    "handle_request H M G h request env = (m, [x], handler_after H G h request i env)"
    by (auto simp: handle_request_ok)
  with allow(2) handler_send_responses [OF allow(3), of x] x show ?thesis
    by (simp add: reply_header_def msg_laws.headers [OF assms(4)])
next
  case (truncate i x)
  with assms(1) have [simp]: "i = info" by (simp add: standard_query_def)
  from deliver_result_ok [OF assms(3), of x] truncate(4) obtain m where
    "handle_request H M G h request env = (m, [x], handler_after H G h request i env)"
    by (auto simp: handle_request_ok)
  with truncate(2,3) show ?thesis by (simp add: build_no_records_def)
next
  case (drop i)
  with assms(1) show ?thesis by (simp add: standard_query_def handle_request_ok)
qed (use assms(1) in \<open>auto simp: standard_query_def\<close>)

theorem reply_follows_limiter_witness:
  "\<exists>r. fst (snd (handle_request rfc_lib rfc_msg gcra_lib example_handler (example_request Proto_Tcp Op_Query)
     example_request_env)) = [r] \<and> \<not> md_truncation (rs_metadata r)"
proof -
  have "fst (limiter_verdict rfc_lib gcra_lib example_handler (example_request Proto_Tcp Op_Query) info env) = Allow" for info env
    by (simp add: limiter_verdict_def example_request_def rrl_decide_allow_tcp)
  with reply_follows_limiter [OF example_standard [of Proto_Tcp] example_limits example_delivers rfc_msg.msg_laws_axioms,
      of rfc_lib gcra_lib]
  show ?thesis by auto
qed

text \<open>
  Property C15. The advertised payload stays within its limits and computing it never panics: if
  the payload limits of the configuration, and of one a reload may store meanwhile, are at
  least 512, then handling a request never ends in a panic, and an EDNS part is sent only to
  clients that sent one, with version 0 and a size between 512 and the configured limit.
\<close>

theorem edns_within_limits:
  assumes "limits_ok h env"
  shows "fst (handle_inner H M G h request env) \<noteq> Panicked \<and>
    (\<forall>r \<in> set (fst (snd (handle_inner H M G h request env))). \<forall>v p. rs_edns r = Some (v, p) \<longrightarrow>
       rq_edns request \<noteq> None \<and> v = 0 \<and> 512 \<le> p \<and>
       (p \<le> payload_limit (hd_zones h) \<or> (\<exists>next. en_reload env = Some next \<and> p \<le> payload_limit next)))"
proof (cases rule: handle_inner_cases [where H = H and M = M and G = G and h = h and request = request and env = env])
  case (error info reply r sent)
  have "512 \<le> payload_limit (hd_zones h)" using assms by (simp add: limits_ok_def)
  with error(3,4) show ?thesis
    by (auto simp: handler_send_Returned Let_def dest: reply_edns_bounds)
next
  case (allow info r sent)
  let ?h = "handler_after H G h request info env"
  have lim: "p \<le> payload_limit (hd_zones h) \<or> (\<exists>next. en_reload env = Some next \<and> p \<le> payload_limit next)"
    if "p \<le> payload_limit (hd_zones ?h)" for p
    using that by (auto simp: handler_after_def payload_limit_def decided_reply_def handler_decide_config split: option.splits)
  obtain x where x: "r = Returned (deliver_result (en_deliver env) x)" "sent = [x]"
    "rs_edns x = reply_edns M ?h request (rq_protocol request = Proto_Tcp)"
    using allow(3) unfolding handler_send_Returned [OF limits_ok_after [OF assms]] Let_def by fastforce
  have "rq_edns request \<noteq> None \<and> v = 0 \<and> 512 \<le> p \<and>
      (p \<le> payload_limit (hd_zones h) \<or> (\<exists>next. en_reload env = Some next \<and> p \<le> payload_limit next))"
    if "rs_edns x = Some (v, p)" for v p
    using reply_edns_bounds [OF limits_ok_after [OF assms], of M H G request info request _ v p] that x(3) lim by metis
  with x(1,2) allow(4) show ?thesis by simp
qed (auto simp: build_no_records_def)

theorem edns_within_limits_witness:
  "fst (handle_inner rfc_lib rfc_msg gcra_lib example_handler (example_request Proto_Udp Op_Query) example_request_env) \<noteq> Panicked"
  using edns_within_limits [OF example_limits] by blast

text \<open>
  Property C14. Every response repeats the identifier of its request, is marked as a response, offers
  no recursion and claims no validated data, whatever the configuration. It is marked
  authoritative only for a standard query, and, where the zones are well formed and no template
  begins with \<open>*\<close>, only for a name in the configured namespace (a template that begins with \<open>*\<close>
  also answers for names outside it).
\<close>

theorem response_headers:
  assumes "msg_laws M" and "dns_laws H"
    and "r \<in> set (fst (snd (handle_request H M G h request env)))"
  shows "md_id (rs_metadata r) = md_id (rq_metadata request) \<and> md_is_response (rs_metadata r) \<and>
    \<not> md_recursion_available (rs_metadata r) \<and> \<not> md_authentic_data (rs_metadata r) \<and>
    (md_authoritative (rs_metadata r) \<longrightarrow>
       (\<exists>info. standard_query request info \<and>
         (wf_config H (zs_config (hd_zones h)) \<and>
          (\<forall>z \<in> set (cf_zones (zs_config (hd_zones h))). \<not> wildcard_template (zn_fwd z)) \<longrightarrow>
            in_namespace H (zs_config (hd_zones h)) (ri_name info))))"
proof -
  note hdr = msg_laws.headers [OF assms(1)]
  consider "r = snd (servfail M request (en_deliver env))" | "r \<in> set (fst (snd (handle_inner H M G h request env)))"
    using handle_request_responses assms(3) by blast
  then show ?thesis
  proof cases
    case 1
    then show ?thesis by (simp add: servfail_response build_no_records_def hdr)
  next
    case inner: 2
    then show ?thesis
    proof (cases rule: handle_inner_cases [where H = H and M = M and G = G and h = h and request = request and env = env])
      case (error info reply r0 sent)
      with inner have "r \<in> set sent" by simp
      from handler_send_responses [OF error(3) this] error(2) show ?thesis
        by (auto simp: reply_header_def reply_error_def hdr)
    next
      case (allow info r0 sent)
      with inner have "r \<in> set sent" by simp
      from handler_send_responses [OF allow(3) this] allow(1)
        dns_laws.decide_authoritative_in_namespace [OF assms(2), of "hd_zones h" "ri_name info" "ri_type info" "ri_class info" "en_lookup env"]
      show ?thesis by (auto simp: reply_header_def hdr decided_reply_def)
    qed (auto simp: build_no_records_def hdr)
  qed
qed

theorem response_headers_witness:
  "\<exists>r. r \<in> set (fst (snd (handle_request rfc_lib rfc_msg gcra_lib example_handler (example_request Proto_Udp Op_Notify)
       example_request_env))) \<and> md_id (rs_metadata r) = 7 \<and> md_is_response (rs_metadata r) \<and>
     \<not> md_recursion_available (rs_metadata r) \<and> \<not> md_authentic_data (rs_metadata r) \<and> \<not> md_authoritative (rs_metadata r)"
proof -
  let ?sent = "fst (snd (handle_request rfc_lib rfc_msg gcra_lib example_handler (example_request Proto_Udp Op_Notify)
       example_request_env))"
  have "?sent \<noteq> []"
    unfolding handle_request_silent by (simp add: standard_query_def example_request_def)
  then obtain r where r: "r \<in> set ?sent" by (cases ?sent) auto
  from response_headers [OF rfc_msg.msg_laws_axioms rfc.dns_laws_axioms r]
  have "md_id (rs_metadata r) = 7 \<and> md_is_response (rs_metadata r) \<and> \<not> md_recursion_available (rs_metadata r) \<and>
      \<not> md_authentic_data (rs_metadata r) \<and> \<not> md_authoritative (rs_metadata r)"
    by (auto simp: example_request_def standard_query_def)
  with r show ?thesis by blast
qed

text \<open>
  Property C40. Replies to other operations and to unknown EDNS versions bypass the limiter: a
  request that is not a standard query, or asks for an EDNS version above 0, is answered
  with NOTIMP or BADVERS whatever the state of the limiter, and leaves that state unchanged,
  so any number of them is answered.
\<close>

theorem error_replies_bypass_limiter:
  assumes "rq_info request = Inr info"
    and "md_op_code (rq_metadata request) \<noteq> Op_Query \<or> 0 < rq_version request"
    and "limits_ok h env" and "delivers (en_deliver env)"
  shows "snd (snd (handle_request H M G h request env)) = h \<and>
    (\<exists>r. fst (snd (handle_request H M G h request env)) = [r] \<and> md_response_code (rs_metadata r) \<in> {NotImp, BADVERS})"
proof (cases rule: handle_inner_cases [where H = H and M = M and G = G and h = h and request = request and env = env])
  case (error i reply r sent)
  have lim: "512 \<le> payload_limit (hd_zones h)" using assms(3) by (simp add: limits_ok_def)
  obtain x where x: "r = Returned (deliver_result (en_deliver env) x)" "sent = [x]"
    using error(3) unfolding handler_send_Returned [OF lim] Let_def by blast
  with deliver_result_ok [OF assms(4), of x] error(4) obtain m where
    "handle_request H M G h request env = (m, [x], h)" by (auto simp: handle_request_ok)
  with handler_send_responses [OF error(3), of x] x error(2) show ?thesis
    by (auto simp: reply_header_def reply_error_def)
qed (use assms in \<open>auto simp: standard_query_def\<close>)

theorem error_replies_bypass_limiter_witness:
  "snd (snd (handle_request rfc_lib rfc_msg gcra_lib example_handler (example_request Proto_Udp Op_Notify)
     example_request_env)) = example_handler"
proof -
  have "rq_info (example_request Proto_Udp Op_Notify) =
      Inr \<lparr>ri_name = ([''x'', ''example'', ''net''], True), ri_type = RT_A, ri_class = CL_IN\<rparr>"
    "md_op_code (rq_metadata (example_request Proto_Udp Op_Notify)) \<noteq> Op_Query \<or>
     0 < rq_version (example_request Proto_Udp Op_Notify)"
    by (simp_all add: example_request_def)
  from error_replies_bypass_limiter [OF this example_limits example_delivers] show ?thesis by blast
qed

end
