(* ===== verification/Bind.thy ===== *)
theory Bind
  imports Config
begin

text \<open>
  \<open>src/src/server/bind.rs\<close>: creating the sockets. The operating system and the async runtime
  are parameters: \<open>os_lib\<close> says how each call ends, from the whole history of calls made so
  far, and every call is recorded, so that the order of the calls can be stated. An
  operation is a function on the history, \<open>'a io\<close>, that ends in a message or a value.
\<close>

section \<open>The operating system\<close>

datatype domain = Domain_IPV4 | Domain_IPV6

datatype sock_type = Sock_Dgram | Sock_Stream

datatype sys_call =
    Sys_Socket domain sock_type
  | Sys_Only_V6 nat
  | Sys_Reuse_Address nat
  | Sys_Nonblocking nat
  | Sys_Bind nat socket_addr
  | Sys_Register sock_type nat
  | Sys_Local_Addr nat
  | Sys_Listen nat u32

datatype io_error_kind = PermissionDenied | AddrNotAvailable | Io_Other

record io_error =
  ie_kind :: io_error_kind
  ie_text :: string

text \<open>How the last call of a history ends: with a socket, with nothing, with an address.\<close>

record os_lib =
  os_socket :: "sys_call list \<Rightarrow> (io_error, nat) result"
  os_unit :: "sys_call list \<Rightarrow> (io_error, unit) result"
  os_addr :: "sys_call list \<Rightarrow> (io_error, socket_addr) result"

type_synonym 'a io = "sys_call list \<Rightarrow> (string, 'a) result \<times> sys_call list"

definition io_return :: "'a \<Rightarrow> 'a io" where
  "io_return x tr = (Inr x, tr)"

definition io_bind :: "'a io \<Rightarrow> ('a \<Rightarrow> 'b io) \<Rightarrow> 'b io" where
  "io_bind m f tr = (case m tr of (Inl e, tr') \<Rightarrow> (Inl e, tr') | (Inr x, tr') \<Rightarrow> f x tr')"

definition io_call :: "(sys_call list \<Rightarrow> (io_error, 'a) result) \<Rightarrow> sys_call \<Rightarrow> (io_error \<Rightarrow> string) \<Rightarrow> 'a io" where
  "io_call os c describe tr =
    (case os (tr @ [c]) of Inl e \<Rightarrow> (Inl (describe e), tr @ [c]) | Inr x \<Rightarrow> (Inr x, tr @ [c]))"

section \<open>Binding\<close>

definition TCP_BACKLOG :: u32 where
  "TCP_BACKLOG = 128"

record bound =
  bd_udp :: "nat list"
  bd_tcp :: "nat list"
  bd_addrs :: "socket_addr list"

definition domain_of :: "ip_addr \<Rightarrow> domain" where
  "domain_of ip = (case ip of V4 _ \<Rightarrow> Domain_IPV4 | V6 _ \<Rightarrow> Domain_IPV6)"

definition is_ipv6 :: "socket_addr \<Rightarrow> bool" where
  "is_ipv6 addr = (case fst addr of V4 _ \<Rightarrow> False | V6 _ \<Rightarrow> True)"

definition bind_error :: "socket_addr \<Rightarrow> io_error \<Rightarrow> string" where
  "bind_error addr e =
    (let hint =
       (if ie_kind e = PermissionDenied \<and> snd addr < 1024 then
          '' (binding a port below 1024 needs CAP_NET_BIND_SERVICE, or run with '' @
          ''--sysctl net.ipv4.ip_unprivileged_port_start=0, or pick a high port '' @
          ''and publish it)''
        else if ie_kind e = AddrNotAvailable then
          '' (the address does not exist on this host '' @ [CHR 0xE2, CHR 0x80, CHR 0x94] @
          '' a config copied from elsewhere often hardcodes addresses; override with --listen)''
        else [])
     in ''cannot bind '' @ show_socket_addr addr @ '': '' @ ie_text e @ hint)"

definition configure :: "os_lib \<Rightarrow> socket_addr \<Rightarrow> sock_type \<Rightarrow> nat io" where
  "configure OS addr k =
    io_bind (io_call (os_socket OS) (Sys_Socket (domain_of (fst addr)) k)
      (\<lambda>e. ''cannot create socket for '' @ show_socket_addr addr @ '': '' @ ie_text e)) (\<lambda>socket.
    io_bind (if is_ipv6 addr
      then io_call (os_unit OS) (Sys_Only_V6 socket)
        (\<lambda>e. ''cannot set IPV6_V6ONLY on '' @ show_socket_addr addr @ '': '' @ ie_text e)
      else io_return ()) (\<lambda>_.
    io_bind (io_call (os_unit OS) (Sys_Reuse_Address socket)
      (\<lambda>e. ''cannot set SO_REUSEADDR on '' @ show_socket_addr addr @ '': '' @ ie_text e)) (\<lambda>_.
    io_bind (io_call (os_unit OS) (Sys_Nonblocking socket)
      (\<lambda>e. ''cannot set O_NONBLOCK on '' @ show_socket_addr addr @ '': '' @ ie_text e)) (\<lambda>_.
    io_bind (io_call (os_unit OS) (Sys_Bind socket addr) (bind_error addr)) (\<lambda>_.
    io_return socket)))))"

definition bind_target :: "os_lib \<Rightarrow> listen_addr \<Rightarrow> (nat \<times> nat \<times> socket_addr) io" where
  "bind_target OS target =
    (let requested = (la_addr target, la_port target) in
    io_bind (configure OS requested Sock_Dgram) (\<lambda>udp.
    io_bind (io_call (os_unit OS) (Sys_Register Sock_Dgram udp)
      (\<lambda>e. ''cannot register UDP socket for '' @ show_socket_addr requested @ '': '' @ ie_text e)) (\<lambda>_.
    io_bind (io_call (os_addr OS) (Sys_Local_Addr udp)
      (\<lambda>e. ''cannot read local address of '' @ show_socket_addr requested @ '': '' @ ie_text e)) (\<lambda>actual.
    let tcp_target = (la_addr target, snd actual) in
    io_bind (configure OS tcp_target Sock_Stream) (\<lambda>tcp.
    io_bind (io_call (os_unit OS) (Sys_Listen tcp TCP_BACKLOG)
      (\<lambda>e. ''cannot listen on '' @ show_socket_addr tcp_target @ '': '' @ ie_text e)) (\<lambda>_.
    io_bind (io_call (os_unit OS) (Sys_Register Sock_Stream tcp)
      (\<lambda>e. ''cannot register TCP listener for '' @ show_socket_addr tcp_target @ '': '' @ ie_text e)) (\<lambda>_.
    io_return (udp, tcp, actual))))))))"

fun bind_loop :: "os_lib \<Rightarrow> listen_addr list \<Rightarrow> bound \<Rightarrow> bound io" where
  "bind_loop OS [] b = io_return b"
| "bind_loop OS (target # targets) b =
    io_bind (bind_target OS target) (\<lambda>(udp, tcp, actual).
      bind_loop OS targets (b\<lparr>bd_udp := bd_udp b @ [udp], bd_tcp := bd_tcp b @ [tcp], bd_addrs := bd_addrs b @ [actual]\<rparr>))"

definition bind_all :: "os_lib \<Rightarrow> listen_addr list \<Rightarrow> bound io" where
  "bind_all OS listen = bind_loop OS listen \<lparr>bd_udp = [], bd_tcp = [], bd_addrs = []\<rparr>"

definition default_listen :: "u16 \<Rightarrow> listen_addr list" where
  "default_listen port = [\<lparr>la_addr = V4 0, la_port = port\<rparr>, \<lparr>la_addr = V6 0, la_port = port\<rparr>]"

section \<open>The calls of a successful bind\<close>

lemma io_bind_Inr [io_simps]:
  "io_bind m f tr = (Inr y, tr') \<longleftrightarrow> (\<exists>x tr1. m tr = (Inr x, tr1) \<and> f x tr1 = (Inr y, tr'))"
  by (auto simp: io_bind_def split: prod.splits sum.splits)

lemma io_call_Inr [io_simps]: "io_call os c d tr = (Inr x, tr') \<longleftrightarrow> tr' = tr @ [c] \<and> os tr' = Inr x"
  by (auto simp: io_call_def split: sum.splits)

lemma io_return_Inr [io_simps]: "io_return x tr = (Inr y, tr') \<longleftrightarrow> y = x \<and> tr' = tr"
  by (auto simp: io_return_def)

text \<open>The calls that create, prepare and bind one socket.\<close>

definition configure_calls :: "socket_addr \<Rightarrow> sock_type \<Rightarrow> nat \<Rightarrow> sys_call list" where
  "configure_calls addr k s = [Sys_Socket (domain_of (fst addr)) k] @
     (if is_ipv6 addr then [Sys_Only_V6 s] else []) @ [Sys_Reuse_Address s, Sys_Nonblocking s, Sys_Bind s addr]"

text \<open>
  The calls for one address to listen on: a UDP socket on the requested address, its actual
  address, then a TCP listener on the requested address and the actual port.
\<close>

definition target_calls :: "listen_addr \<Rightarrow> nat \<Rightarrow> nat \<Rightarrow> socket_addr \<Rightarrow> sys_call list" where
  "target_calls la udp tcp actual =
     configure_calls (la_addr la, la_port la) Sock_Dgram udp @ [Sys_Register Sock_Dgram udp, Sys_Local_Addr udp] @
     configure_calls (la_addr la, snd actual) Sock_Stream tcp @ [Sys_Listen tcp 128, Sys_Register Sock_Stream tcp]"

lemma configure_Inr: "configure OS addr k tr = (Inr s, tr') \<Longrightarrow> tr' = tr @ configure_calls addr k s"
  unfolding configure_def io_simps configure_calls_def
  by (cases "is_ipv6 addr") (auto simp: io_simps)

lemma bind_target_Inr:
  assumes "bind_target OS la tr = (Inr (udp, tcp, actual), tr')"
  shows "tr' = tr @ target_calls la udp tcp actual"
  using assms unfolding bind_target_def Let_def io_simps
  by (auto simp: target_calls_def TCP_BACKLOG_def dest!: configure_Inr)

definition bind_calls :: "listen_addr list \<Rightarrow> nat list \<Rightarrow> nat list \<Rightarrow> socket_addr list \<Rightarrow> sys_call list" where
  "bind_calls las us ts as = concat (map (\<lambda>(la, u, t, a). target_calls la u t a) (zip las (zip us (zip ts as))))"

lemma bind_loop_Inr:
  assumes "bind_loop OS las b tr = (Inr b', tr')"
  obtains us ts as where "bd_udp b' = bd_udp b @ us" "bd_tcp b' = bd_tcp b @ ts" "bd_addrs b' = bd_addrs b @ as"
    "length us = length las" "length ts = length las" "length as = length las" "tr' = tr @ bind_calls las us ts as"
  using assms
proof (induction las arbitrary: b tr thesis)
  case Nil
  then show ?case by (auto simp: io_simps bind_calls_def)
next
  case (Cons la las)
  from Cons.prems(2) obtain u t a tr1 where t: "bind_target OS la tr = (Inr (u, t, a), tr1)"
    and l: "bind_loop OS las (b\<lparr>bd_udp := bd_udp b @ [u], bd_tcp := bd_tcp b @ [t], bd_addrs := bd_addrs b @ [a]\<rparr>) tr1 =
      (Inr b', tr')"
    by (auto simp: io_simps)
  from l obtain us ts as where "bd_udp b' = bd_udp b @ u # us" "bd_tcp b' = bd_tcp b @ t # ts"
    "bd_addrs b' = bd_addrs b @ a # as" "length us = length las" "length ts = length las" "length as = length las"
    "tr' = tr1 @ bind_calls las us ts as"
    by (rule Cons.IH [rotated]) simp
  with bind_target_Inr [OF t] show ?case
    by (intro Cons.prems(1) [of "u # us" "t # ts" "a # as"]) (simp_all add: bind_calls_def)
qed

text \<open>An operating system on which every call succeeds and the free port is 5353.\<close>

definition example_os :: os_lib where
  "example_os = \<lparr>os_socket = (\<lambda>tr. Inr (length tr)), os_unit = (\<lambda>tr. Inr ()),
     os_addr = (\<lambda>tr. Inr (V6 0, 5353))\<rparr>"

lemma example_os_configure: "\<exists>s tr'. configure example_os addr k tr = (Inr s, tr')"
  unfolding configure_def by (simp add: io_bind_def io_call_def io_return_def example_os_def)

lemma example_os_target: "\<exists>u t a tr'. bind_target example_os la tr = (Inr (u, t, a), tr')"
proof -
  obtain u tr1 where "configure example_os (la_addr la, la_port la) Sock_Dgram tr = (Inr u, tr1)"
    using example_os_configure by blast
  moreover obtain t tr2 where
    "configure example_os (la_addr la, 5353) Sock_Stream (tr1 @ [Sys_Register Sock_Dgram u, Sys_Local_Addr u]) = (Inr t, tr2)"
    using example_os_configure by blast
  ultimately show ?thesis
    unfolding bind_target_def Let_def by (simp add: io_bind_def io_call_def io_return_def example_os_def)
qed

lemma example_os_binds: "\<exists>b tr'. bind_all example_os las tr = (Inr b, tr')"
proof -
  have "\<exists>b' tr'. bind_loop example_os las b tr = (Inr b', tr')" for b
  proof (induction las arbitrary: b tr)
    case (Cons la las)
    obtain u t a tr1 where "bind_target example_os la tr = (Inr (u, t, a), tr1)" using example_os_target by blast
    with Cons show ?case by (simp add: io_bind_def)
  qed (simp add: io_return_def)
  then show ?thesis by (simp add: bind_all_def)
qed

section \<open>Properties\<close>

text \<open>
  Property C36. Binding does for every address, in order, exactly what the two transports need:
  when it succeeds, there is one UDP socket, one TCP listener and one actual address per
  requested address, and the calls made are those of each address in turn, where an IPv6
  socket is restricted to IPv6 before it is bound and the TCP listener is bound to the port
  the UDP socket actually got.
\<close>

theorem bind_all_calls:
  assumes "bind_all OS listen tr = (Inr b, tr')"
  shows "length (bd_udp b) = length listen \<and> length (bd_tcp b) = length listen \<and> length (bd_addrs b) = length listen \<and>
    tr' = tr @ concat (map (\<lambda>(la, u, t, a). target_calls la u t a)
      (zip listen (zip (bd_udp b) (zip (bd_tcp b) (bd_addrs b)))))"
proof -
  obtain us ts as where "bd_udp b = us" "bd_tcp b = ts" "bd_addrs b = as"
    "length us = length listen" "length ts = length listen" "length as = length listen" "tr' = tr @ bind_calls listen us ts as"
    using assms unfolding bind_all_def by (rule bind_loop_Inr) simp
  then show ?thesis by (simp add: bind_calls_def)
qed

theorem bind_all_calls_witness:
  "\<exists>b tr. bind_all example_os [\<lparr>la_addr = V6 0, la_port = 0\<rparr>] [] = (Inr b, tr) \<and>
     tr = target_calls \<lparr>la_addr = V6 0, la_port = 0\<rparr> (hd (bd_udp b)) (hd (bd_tcp b)) (hd (bd_addrs b))"
proof -
  obtain b tr where b: "bind_all example_os [\<lparr>la_addr = V6 0, la_port = 0\<rparr>] [] = (Inr b, tr)"
    using example_os_binds by blast
  from bind_all_calls [OF b] b show ?thesis
    by (cases "bd_udp b"; cases "bd_tcp b"; cases "bd_addrs b") auto
qed

end
