(* ===== verification/Server.thy ===== *)
theory Server
  imports Compile Handler Bind
begin

text \<open>
  \<open>src/src/main.rs\<close>: from the command line to a running server. Loading the configuration,
  choosing the addresses to listen on and starting are functions; the file system, the
  operating system and the upstream resolver are parameters. The running server is a state
  machine whose steps are a handled request, a sweep of the limiter and a reload, in any
  order and number, with a reload possibly taking effect while a request waits for an
  upstream. The invariant of its reachable states is what the request path relies on.
\<close>

section \<open>Trimming\<close>

text \<open>
  \<open>str::trim\<close> removes characters with the Unicode property White_Space; these are their UTF-8
  encodings. No encoding is a proper suffix of another character's.
\<close>

definition white_space :: "bytes list" where
  "white_space =
    map (\<lambda>c. [c]) [CHR 0x09, CHR 0x0A, CHR 0x0B, CHR 0x0C, CHR 0x0D, CHR 0x20] @
    [[CHR 0xC2, CHR 0x85], [CHR 0xC2, CHR 0xA0], [CHR 0xE1, CHR 0x9A, CHR 0x80]] @
    map (\<lambda>c. [CHR 0xE2, CHR 0x80, c]) [CHR 0x80, CHR 0x81, CHR 0x82, CHR 0x83, CHR 0x84, CHR 0x85, CHR 0x86,
      CHR 0x87, CHR 0x88, CHR 0x89, CHR 0x8A, CHR 0xA8, CHR 0xA9, CHR 0xAF] @
    [[CHR 0xE2, CHR 0x81, CHR 0x9F], [CHR 0xE3, CHR 0x80, CHR 0x80]]"

function strip_any :: "bytes list \<Rightarrow> bytes \<Rightarrow> bytes" where
  "strip_any ws s =
    (case find (\<lambda>w. w \<noteq> [] \<and> take (length w) s = w) ws of
       None \<Rightarrow> s
     | Some w \<Rightarrow> strip_any ws (drop (length w) s))"
  by pat_completeness auto
termination
proof (relation "measure (\<lambda>(ws, s). length s)")
  fix ws :: "bytes list" and s w
  assume "find (\<lambda>w. w \<noteq> [] \<and> take (length w) s = w) ws = Some w"
  then have "w \<noteq> []" "take (length w) s = w" by (auto simp: find_Some_iff)
  then have "0 < length w" "length w \<le> length s" by (auto, metis length_take min.cobounded1)
  then have "length s - length w < length s" by linarith
  then show "((ws, drop (length w) s), (ws, s)) \<in> measure (\<lambda>(ws, s). length s)" by simp
qed simp

definition trim_str :: "bytes \<Rightarrow> bytes" where
  "trim_str s = rev (strip_any (map rev white_space) (rev (strip_any white_space s)))"

section \<open>Command line and configuration\<close>

definition DEFAULT_CONFIG :: string where
  "DEFAULT_CONFIG = ''/etc/panoptidns/panoptidns.conf''"

record cli =
  cl_config :: string
  cl_check_config :: bool
  cl_listen :: "bytes list"
  cl_querylog :: bool
  cl_log_json :: bool
  cl_healthcheck :: bool
  cl_healthcheck_port :: u16

text \<open>A file system: the text of a file, or why it cannot be read as UTF-8 text.\<close>

type_synonym file_system = "string \<Rightarrow> (string, bytes) result"

definition load_config :: "'n dns_lib \<Rightarrow> file_system \<Rightarrow> string \<Rightarrow> (string, 'n config) result" where
  "load_config H fs path =
    (case fs path of
       Inl e \<Rightarrow> Inl (''cannot read '' @ path @ '': '' @ e)
     | Inr body \<Rightarrow>
         (case config_parse H body of
            Inl errors \<Rightarrow> Inl (show_config_errors (with_path errors path))
          | Inr c \<Rightarrow> Inr c))"

definition parse_listen :: "bytes \<Rightarrow> (string, listen_addr) result" where
  "parse_listen s =
    (case socket_addr_from_str s of
       Some (addr, port) \<Rightarrow> Inr \<lparr>la_addr = addr, la_port = port\<rparr>
     | None \<Rightarrow>
         (case ip_from_str s of
            Some addr \<Rightarrow> Inr \<lparr>la_addr = addr, la_port = DEFAULT_PORT\<rparr>
          | None \<Rightarrow> Inl (''--listen '' @ s @ '': not an IP address or address:port'')))"

text \<open>Collecting an iterator of results stops at the first error.\<close>

fun collect_results :: "('e, 'a) result list \<Rightarrow> ('e, 'a list) result" where
  "collect_results [] = Inr []"
| "collect_results (Inl e # rs) = Inl e"
| "collect_results (Inr x # rs) = (case collect_results rs of Inl e \<Rightarrow> Inl e | Inr xs \<Rightarrow> Inr (x # xs))"

definition effective_listen :: "cli \<Rightarrow> 'n config \<Rightarrow> (string, listen_addr list) result" where
  "effective_listen cli config =
    (if cl_listen cli \<noteq> [] then collect_results (map (\<lambda>s. parse_listen (trim_str s)) (cl_listen cli))
     else if cf_listen config \<noteq> [] then Inr (cf_listen config)
     else Inr (default_listen DEFAULT_PORT))"

text \<open>What \<open>run\<close> goes on to do once the runtime is up.\<close>

datatype 'n run_action =
    Run_Healthcheck u16
  | Run_Failed string
  | Run_Checked "string list" string
  | Run_Serve "'n config"

definition run :: "'n dns_lib \<Rightarrow> file_system \<Rightarrow> cli \<Rightarrow> 'n run_action" where
  "run H fs cli =
    (if cl_healthcheck cli then Run_Healthcheck (cl_healthcheck_port cli)
     else
       (case load_config H fs (cl_config cli) of
          Inl e \<Rightarrow> Run_Failed e
        | Inr config \<Rightarrow>
            if cl_check_config cli then
              Run_Checked (map (\<lambda>w. ''warning: '' @ w) (warnings config))
                (cl_config cli @ '': OK '' @ [CHR 0xE2, CHR 0x80, CHR 0x94] @ '' '' @
                 dec_string (length (cf_zones config)) @ '' zone(s), '' @
                 dec_string (length (cf_listen config)) @ '' listen address(es)'')
            else Run_Serve config))"

section \<open>The health check\<close>

text \<open>
  What the health check meets: building the name, encoding the query, a local socket, sending
  to a port of the local host, and what arrives within two seconds.
\<close>

datatype health_recv = Recv_Bytes nat | Recv_Failed string | Recv_Timeout

record 'n health_env =
  he_from_ascii :: "bytes \<Rightarrow> (string, 'n) result"
  he_to_bytes :: "'n request_info \<Rightarrow> (string, bytes) result"
  he_bind :: "(string, unit) result"
  he_send :: "bytes \<Rightarrow> u16 \<Rightarrow> (string, unit) result"
  he_recv :: health_recv

definition health_name :: bytes where
  "health_name = ''health-check.panoptidns.invalid.''"

definition health_query :: "'n \<Rightarrow> 'n request_info" where
  "health_query name = \<lparr>ri_name = name, ri_type = RT_SOA, ri_class = CL_IN\<rparr>"

definition healthcheck :: "'n health_env \<Rightarrow> u16 \<Rightarrow> (string, unit) result" where
  "healthcheck env port =
    (case he_from_ascii env health_name of
       Inl e \<Rightarrow> Inl (''cannot build health-check name: '' @ e)
     | Inr name \<Rightarrow>
         (case he_to_bytes env (health_query name) of
            Inl e \<Rightarrow> Inl (''cannot encode health-check query: '' @ e)
          | Inr bytes \<Rightarrow>
              (case he_bind env of
                 Inl e \<Rightarrow> Inl (''health check cannot bind a socket: '' @ e)
               | Inr _ \<Rightarrow>
                   (case he_send env bytes port of
                      Inl e \<Rightarrow> Inl (''health check cannot send: '' @ e)
                    | Inr _ \<Rightarrow>
                        (case he_recv env of
                           Recv_Bytes n \<Rightarrow> if n > 0 then Inr () else Inl ''health check got an empty response''
                         | Recv_Failed e \<Rightarrow> Inl (''health check receive failed: '' @ e)
                         | Recv_Timeout \<Rightarrow> Inl ''health check timed out'')))))"

text \<open>The health check succeeds exactly when the query leaves and anything comes back in time.\<close>

lemma healthcheck_ok_iff:
  "healthcheck env port = Inr () \<longleftrightarrow>
   (\<exists>name bytes n. he_from_ascii env health_name = Inr name \<and> he_to_bytes env (health_query name) = Inr bytes \<and>
      he_bind env = Inr () \<and> he_send env bytes port = Inr () \<and> he_recv env = Recv_Bytes n \<and> 0 < n)"
  by (auto simp: healthcheck_def split: sum.splits health_recv.splits)

section \<open>Serving\<close>

definition serve_start ::
  "('q, 'l) governor \<Rightarrow> build \<Rightarrow> os_lib \<Rightarrow> cli \<Rightarrow> 'n config \<Rightarrow> (('n, 'l) handler \<times> bound) io" where
  "serve_start G build OS cli config tr =
    (case effective_listen cli config of
       Inl e \<Rightarrow> (Inl e, tr)
     | Inr listen \<Rightarrow>
         let rrl_params = sp_rrl (cf_params config) in
         (case zones_new build config of
            Inl e \<Rightarrow> (Inl e, tr)
          | Inr zones \<Rightarrow>
              let rrl = rrl_new G rrl_params in
              io_bind (bind_all OS listen) (\<lambda>bound.
              io_return (handler_new zones rrl (cl_querylog cli), bound)) tr))"

text \<open>What a reload loads: the configuration file as it is then, and new upstream clients.\<close>

definition reload_zones :: "'n dns_lib \<Rightarrow> build \<Rightarrow> file_system \<Rightarrow> string \<Rightarrow> (string, 'n zones) result" where
  "reload_zones H build fs path =
    (case load_config H fs path of Inl e \<Rightarrow> Inl e | Inr config \<Rightarrow> zones_new build config)"

definition reload ::
  "'n dns_lib \<Rightarrow> build \<Rightarrow> file_system \<Rightarrow> string \<Rightarrow> ('n, 'l) handler \<Rightarrow> ('n, 'l) handler" where
  "reload H build fs path h =
    (case reload_zones H build fs path of
       Inr next \<Rightarrow> h\<lparr>hd_zones := next\<rparr>
     | Inl _ \<Rightarrow> h)"

definition sweeper_tick :: "('q, 'l) governor \<Rightarrow> nat \<Rightarrow> ('n, 'l) handler \<Rightarrow> ('n, 'l) handler" where
  "sweeper_tick G now h = h\<lparr>hd_rrl := sweep G (hd_rrl h) now\<rparr>"

section \<open>The running server\<close>

text \<open>
  A request is handled in an environment whose reload, if there is one, comes from some
  state of the file system.
\<close>

definition served_env :: "'n dns_lib \<Rightarrow> build \<Rightarrow> string \<Rightarrow> 'n request_env \<Rightarrow> bool" where
  "served_env H build path env \<longleftrightarrow>
     (\<forall>next. en_reload env = Some next \<longrightarrow> (\<exists>fs. reload_zones H build fs path = Inr next))"

inductive server_step ::
  "'n dns_lib \<Rightarrow> 'n msg_lib \<Rightarrow> ('q, 'l) governor \<Rightarrow> build \<Rightarrow> string \<Rightarrow>
   ('n, 'l) handler \<Rightarrow> ('n, 'l) handler \<Rightarrow> bool" for H M G build path where
  request: "served_env H build path env \<Longrightarrow>
    server_step H M G build path h (snd (snd (handle_request H M G h request env)))"
| sweep: "server_step H M G build path h (sweeper_tick G now h)"
| reload: "server_step H M G build path h (reload H build fs path h)"

inductive_cases server_stepE: "server_step H M G build path h h'"

text \<open>The states \<open>serve\<close> starts in, for the limiter parameters \<open>P\<close> of the file it was started with.\<close>

definition server_init ::
  "'n dns_lib \<Rightarrow> ('q, 'l) governor \<Rightarrow> build \<Rightarrow> string \<Rightarrow> rrl_params \<Rightarrow> ('n, 'l) handler \<Rightarrow> bool" where
  "server_init H G build path P h \<longleftrightarrow>
     (\<exists>fs OS cli config tr b tr'. load_config H fs path = Inr config \<and> sp_rrl (cf_params config) = P \<and>
        serve_start G build OS cli config tr = (Inr (h, b), tr'))"

text \<open>Every upstream a zone names has its own idle client.\<close>

definition idle_client :: "ip_addr \<Rightarrow> upstream \<Rightarrow> bool" where
  "idle_client addr u \<longleftrightarrow> us_addr u = addr \<and> us_permits u = MAX_INFLIGHT \<and> breaker_inv (us_breaker u)"

definition clients_ok :: "'n zones \<Rightarrow> bool" where
  "clients_ok zs \<longleftrightarrow>
     (\<forall>addr u. zs_upstreams zs addr = Some u \<longrightarrow> idle_client addr u) \<and>
     (\<forall>z \<in> set (cf_zones (zs_config zs)). \<forall>addr. zn_upstream z = Some addr \<longrightarrow> zs_upstreams zs addr \<noteq> None)"

definition zones_ok :: "'n dns_lib \<Rightarrow> 'n zones \<Rightarrow> bool" where
  "zones_ok H zs \<longleftrightarrow> wf_config H (zs_config zs) \<and> wf_params (cf_params (zs_config zs)) \<and> clients_ok zs"

definition server_inv :: "'n dns_lib \<Rightarrow> rrl_params \<Rightarrow> ('n, 'l) handler \<Rightarrow> bool" where
  "server_inv H P h \<longleftrightarrow> zones_ok H (hd_zones h) \<and> rl_params (hd_rrl h) = P"

section \<open>Starting and reloading establish the invariant\<close>

lemma load_config_ok:
  assumes "load_config H fs path = Inr c"
  shows "wf_config H c" and "wf_params (cf_params c)"
proof -
  from assms obtain body where "config_parse H body = Inr c"
    by (auto simp: load_config_def split: sum.splits)
  from config_parse_Inr(2) [OF this] show "wf_config H c" and "wf_params (cf_params c)"
    using compile_ok(1,5) by blast+
qed

lemma upstream_new_idle: "upstream_new build addr t = Inr u \<Longrightarrow> idle_client addr u"
  by (auto simp: upstream_new_def idle_client_def breaker_default_def breaker_inv_def BREAKER_THRESHOLD_def
      split: option.splits)

lemma zones_new_loop_ok:
  assumes "zones_new_loop build t zs ups = Inr ups'" and "\<forall>addr u. ups addr = Some u \<longrightarrow> idle_client addr u"
  shows "(\<forall>addr u. ups' addr = Some u \<longrightarrow> idle_client addr u) \<and> dom ups \<subseteq> dom ups' \<and>
    (\<forall>z \<in> set zs. \<forall>addr. zn_upstream z = Some addr \<longrightarrow> ups' addr \<noteq> None)"
  using assms
proof (induction zs arbitrary: ups)
  case (Cons z zs)
  show ?case
  proof (cases "zn_upstream z")
    case None
    with Cons show ?thesis by simp
  next
    case (Some addr)
    show ?thesis
    proof (cases "ups addr")
      case None
      with Some Cons.prems(1) obtain u where u: "upstream_new build addr t = Inr u"
        and l: "zones_new_loop build t zs (ups(addr \<mapsto> u)) = Inr ups'"
        by (auto split: sum.splits)
      have "\<forall>a v. (ups(addr \<mapsto> u)) a = Some v \<longrightarrow> idle_client a v"
        using Cons.prems(2) upstream_new_idle [OF u] by auto
      from Cons.IH [OF l this] have IH: "\<forall>a v. ups' a = Some v \<longrightarrow> idle_client a v"
        "dom (ups(addr \<mapsto> u)) \<subseteq> dom ups'" "\<forall>z \<in> set zs. \<forall>a. zn_upstream z = Some a \<longrightarrow> ups' a \<noteq> None"
        by blast+
      moreover have "dom (ups(addr \<mapsto> u)) = insert addr (dom ups)" by (auto simp: dom_def)
      ultimately show ?thesis using Some by auto
    next
      case u: (Some u)
      with Some Cons.prems(1) have "zones_new_loop build t zs ups = Inr ups'" by simp
      from Cons.IH [OF this Cons.prems(2)] Some u show ?thesis by (auto simp: subset_iff domIff)
    qed
  qed
qed simp

lemma zones_new_ok:
  assumes "zones_new build c = Inr zs"
  shows "zs_config zs = c" and "clients_ok zs"
proof -
  from assms obtain ups where l: "zones_new_loop build (sp_upstream_timeout (cf_params c)) (cf_zones c) Map.empty = Inr ups"
    and zs: "zs = \<lparr>zs_config = c, zs_upstreams = ups\<rparr>"
    by (auto simp: zones_new_def split: sum.splits)
  from zs show "zs_config zs = c" by simp
  from zones_new_loop_ok [OF l] zs show "clients_ok zs" by (simp add: clients_ok_def)
qed

lemma reload_zones_ok [inv_intros]:
  assumes "reload_zones H build fs path = Inr zs"
  shows "zones_ok H zs"
proof -
  from assms obtain c where c: "load_config H fs path = Inr c" and zs: "zones_new build c = Inr zs"
    by (auto simp: reload_zones_def split: sum.splits)
  with load_config_ok [OF c] zones_new_ok [OF zs] show ?thesis by (simp add: zones_ok_def)
qed

lemma serve_start_ok:
  assumes "serve_start G build OS cli config tr = (Inr (h, b), tr')"
  shows "zones_new build config = Inr (hd_zones h)" and "hd_rrl h = rrl_new G (sp_rrl (cf_params config))"
  using assms by (auto simp: serve_start_def Let_def io_simps handler_new_def split: sum.splits)

section \<open>Handling keeps the invariant\<close>

lemma lookup_ptr_idle [inv_intros]:
  assumes "idle_client addr u"
  shows "idle_client addr (snd (lookup_ptr H u q now res later))"
proof -
  obtain r u1 where b: "lookup_begin H u q now = (r, u1)" by fastforce
  have a1: "us_addr u1 = us_addr u"
    using b by (auto simp: lookup_begin_def Let_def split: prod.splits if_splits option.splits)
  have inv: "breaker_inv (us_breaker u)" using assms by (simp add: idle_client_def)
  note b1 = lookup_begin_inv [OF b inv]
  show ?thesis
  proof (cases r)
    case (Inl rs)
    with b a1 b1 assms show ?thesis by (simp add: lookup_ptr_def idle_client_def)
  next
    case (Inr up)
    obtain rs u2 where f: "lookup_finish H u1 q up res later = (rs, u2)" by fastforce
    have "us_addr u2 = us_addr u1" using f by (cases res) (auto simp: lookup_finish_def)
    with Inr b a1 b1 f lookup_finish_inv [OF f] assms show ?thesis by (simp add: lookup_ptr_def idle_client_def)
  qed
qed

lemma decide_clients_ok [inv_intros]:
  assumes "clients_ok zs"
  shows "clients_ok (snd (handler_decide H zs q t c env))"
proof (cases rule: handler_decide_cases [where H = H and zs = zs and q = q and t = t and c = c and env = env])
  case (answer z rs rs' zs')
  from answer(3) show ?thesis
  proof (cases rule: override_cases)
    case (asked addr u)
    have "idle_client addr u" using assms asked(4) by (simp add: clients_ok_def)
    with assms answer(4) asked(5) lookup_ptr_idle [of addr u] show ?thesis
      by (auto simp: clients_ok_def Let_def)
  qed (use assms answer(4) in \<open>simp add: Let_def\<close>)
qed (use assms in simp_all)

lemma decide_zones_ok [inv_intros]: "zones_ok H zs \<Longrightarrow> zones_ok H (snd (handler_decide H zs q t c env))"
  by (auto simp: zones_ok_def handler_decide_config intro: inv_intros)

lemma handler_after_inv:
  assumes "server_inv H P h" and "served_env H build path env"
  shows "server_inv H P (handler_after H G h request info env)"
proof -
  have "zones_ok H (hd_zones (handler_after H G h request info env))"
    using assms decide_zones_ok reload_zones_ok
    by (fastforce simp: server_inv_def served_env_def handler_after_def decided_reply_def split: option.splits)
  then show ?thesis using assms(1) by (simp add: server_inv_def handler_after_def limiter_verdict_def)
qed

lemma handle_request_state: "snd (snd (handle_request H M G h request env)) = snd (snd (handle_inner H M G h request env))"
proof -
  obtain r sent h' where i: "handle_inner H M G h request env = (r, sent, h')" by (metis prod_cases3)
  show ?thesis
  proof (cases "\<exists>m. r = Returned (Inr m)")
    case True
    with i show ?thesis by (auto simp: handle_request_ok)
  qed (simp add: handle_request_failed [OF i] i)
qed

lemma handle_request_inv [inv_intros]:
  assumes "server_inv H P h" and "served_env H build path env"
  shows "server_inv H P (snd (snd (handle_request H M G h request env)))"
  unfolding handle_request_state
  using assms(1) handler_after_inv [OF assms, of G request]
  by (cases rule: handle_inner_cases [where H = H and M = M and G = G and h = h and request = request and env = env]) simp_all

interpretation server: inductive_invariant "server_init H G build path P" "server_step H M G build path" "server_inv H P"
proof unfold_locales
  fix h assume "server_init H G build path P h"
  then obtain fs OS cli config tr b tr' where c: "load_config H fs path = Inr config" and P: "sp_rrl (cf_params config) = P"
    and s: "serve_start G build OS cli config tr = (Inr (h, b), tr')"
    by (auto simp: server_init_def)
  from zones_new_ok [OF serve_start_ok(1) [OF s]] load_config_ok [OF c] serve_start_ok(2) [OF s] P
  show "server_inv H P h" by (simp add: server_inv_def zones_ok_def rrl_new_def Let_def)
next
  fix h h' assume inv: "server_inv H P h" and "server_step H M G build path h h'"
  from this(2) show "server_inv H P h'"
  proof cases
    case (reload fs)
    with inv show ?thesis
      by (auto simp: reload_def server_inv_def dest: reload_zones_ok split: sum.splits)
  next
    case (request env req)
    with inv show ?thesis by (auto intro: inv_intros)
  next
    case (sweep now)
    with inv show ?thesis by (simp add: server_inv_def sweeper_tick_def Rrl.sweep_def Let_def)
  qed
qed

lemma collect_results_map [simp]: "collect_results (map Inr xs) = Inr xs"
  by (induction xs) simp_all

lemma collect_results_Inr: "collect_results rs = Inr xs \<longleftrightarrow> rs = map Inr xs"
  by (induction rs arbitrary: xs rule: collect_results.induct) (auto split: sum.splits)

lemma collect_results_Inl: "collect_results rs = Inl e \<Longrightarrow> Inl e \<in> set rs"
  by (induction rs rule: collect_results.induct) (auto split: sum.splits)

text \<open>A server that can be started.\<close>

definition example_cli :: cli where
  "example_cli = \<lparr>cl_config = DEFAULT_CONFIG, cl_check_config = False, cl_listen = [], cl_querylog = False,
     cl_log_json = False, cl_healthcheck = False, cl_healthcheck_port = DEFAULT_PORT\<rparr>"

lemma example_start_init:
  assumes "zones_new build c = Inr zs" and "cf_listen c = []" and "config_parse H body = Inr c"
  shows "server_init H G build DEFAULT_CONFIG (sp_rrl (cf_params c))
    (handler_new zs (rrl_new G (sp_rrl (cf_params c))) False)"
proof -
  obtain b tr where "bind_all example_os (default_listen DEFAULT_PORT) [] = (Inr b, tr)" using example_os_binds by blast
  moreover have "effective_listen example_cli c = Inr (default_listen DEFAULT_PORT)"
    using assms(2) by (simp add: effective_listen_def example_cli_def)
  ultimately have "serve_start G build example_os example_cli c [] =
      (Inr (handler_new zs (rrl_new G (sp_rrl (cf_params c))) False, b), tr)"
    using assms(1) by (simp add: serve_start_def io_bind_def io_return_def example_cli_def)
  moreover have "load_config H (\<lambda>_. Inr body) DEFAULT_CONFIG = Inr c" using assms(3) by (simp add: load_config_def)
  ultimately show ?thesis unfolding server_init_def by blast
qed

lemma example_init: "server_init rfc_lib gcra_lib build DEFAULT_CONFIG rrl_params_default example_handler"
proof -
  have "zones_new build example_config = Inr example_zones"
    by (simp add: zones_new_def example_zones_def example_config_def config_default_def example_zone_def)
  moreover have "cf_listen example_config = []" "sp_rrl (cf_params example_config) = rrl_params_default"
    by (simp_all add: example_config_def config_default_def server_params_default_def)
  ultimately show ?thesis
    using example_start_init [OF _ _ example_file_config, of build example_zones gcra_lib] by (simp add: example_handler_def)
qed

section \<open>Properties\<close>

text \<open>
  Property C2. The server stays healthy for as long as it runs: whatever requests arrive, with
  whatever upstreams and transports, however often the limiter is swept and whatever the
  configuration file holds when it is reloaded, every reachable state serves a well-formed
  configuration with parameters in range, has an idle client for every upstream a zone
  names, limits by the parameters it was started with, and handles the next request without
  a panic.
\<close>

theorem server_stays_healthy:
  assumes "reachable (server_init H G build path P) (server_step H M G build path) h"
    and "served_env H build path env"
  shows "wf_config H (zs_config (hd_zones h)) \<and> wf_params (cf_params (zs_config (hd_zones h))) \<and>
    clients_ok (hd_zones h) \<and> rl_params (hd_rrl h) = P \<and>
    fst (handle_inner H M G h request env) \<noteq> Panicked"
proof -
  have inv: "server_inv H P h" by (rule server.invariant [OF assms(1)])
  have "limits_ok h env"
    using inv assms(2) reload_zones_ok
    by (fastforce simp: limits_ok_def served_env_def server_inv_def zones_ok_def wf_params_def payload_limit_def
        split: option.splits)
  with inv show ?thesis by (simp add: server_inv_def zones_ok_def handle_inner_no_panic)
qed

theorem server_stays_healthy_witness:
  "fst (handle_inner rfc_lib rfc_msg gcra_lib (sweeper_tick gcra_lib 5 example_handler) (example_request Proto_Udp Op_Query)
     example_request_env) \<noteq> Panicked"
proof -
  have "reachable (server_init rfc_lib gcra_lib (\<lambda>_ _. None) DEFAULT_CONFIG rrl_params_default)
      (server_step rfc_lib rfc_msg gcra_lib (\<lambda>_ _. None) DEFAULT_CONFIG) (sweeper_tick gcra_lib 5 example_handler)"
    by (rule reachable.move, rule reachable.start, rule example_init, rule server_step.sweep)
  moreover have "served_env rfc_lib (\<lambda>_ _. None) DEFAULT_CONFIG example_request_env"
    by (simp add: served_env_def example_request_env_def)
  ultimately show ?thesis by (rule server_stays_healthy [THEN conjunct2, THEN conjunct2, THEN conjunct2, THEN conjunct2])
qed

text \<open>
  Property C20. A reload is all or nothing: if the file cannot be read, is refused, or a client
  for one of its upstreams cannot be built, nothing changes; otherwise the zones are exactly
  those of the new, well-formed configuration, each upstream with an idle client. The
  limiter is never touched, neither its buckets nor its parameters, whatever the new file
  says about rate limiting.
\<close>

theorem reload_all_or_nothing:
  "(case fs path of
      Inl _ \<Rightarrow> reload H build fs path h = h
    | Inr body \<Rightarrow>
        (case config_parse H body of
           Inl _ \<Rightarrow> reload H build fs path h = h
         | Inr c \<Rightarrow>
             (case zones_new build c of
                Inl _ \<Rightarrow> reload H build fs path h = h
              | Inr next \<Rightarrow> reload H build fs path h = h\<lparr>hd_zones := next\<rparr> \<and> zs_config next = c \<and>
                  wf_config H c \<and> clients_ok next))) \<and>
   hd_rrl (reload H build fs path h) = hd_rrl h"
proof -
  have "hd_rrl (reload H build fs path h) = hd_rrl h" by (simp add: reload_def split: sum.splits)
  moreover have "wf_config H c" if "fs path = Inr body" "config_parse H body = Inr c" for body c
    using load_config_ok(1) [of H fs path c] that by (simp add: load_config_def)
  ultimately show ?thesis
    by (auto simp: reload_def reload_zones_def load_config_def zones_new_ok split: sum.splits)
qed

text \<open>
  Addresses given on the command line replace those of the configuration: if there
  are any, all of them are parsed, in order, and the first that is no address is reported;
  else those of the configuration are used, and if there are none, both wildcard addresses
  on port 53.
\<close>

lemma effective_listen_precedence:
  "if cl_listen cli \<noteq> [] then
     (case effective_listen cli c of
        Inl e \<Rightarrow> \<exists>s. s \<in> set (cl_listen cli) \<and> parse_listen (trim_str s) = Inl e
      | Inr las \<Rightarrow> map (\<lambda>s. parse_listen (trim_str s)) (cl_listen cli) = map Inr las)
   else effective_listen cli c = Inr (if cf_listen c \<noteq> [] then cf_listen c
     else [\<lparr>la_addr = V4 0, la_port = 53\<rparr>, \<lparr>la_addr = V6 0, la_port = 53\<rparr>])"
proof (cases "effective_listen cli c")
  case (Inl e)
  then have "cl_listen cli \<noteq> []"
    and "collect_results (map (\<lambda>s. parse_listen (trim_str s)) (cl_listen cli)) = Inl e"
    by (auto simp: effective_listen_def split: if_splits)
  with Inl collect_results_Inl [of _ e] show ?thesis by fastforce
next
  case (Inr las)
  then show ?thesis
    by (auto simp: effective_listen_def collect_results_Inr default_listen_def DEFAULT_PORT_def split: if_splits)
qed

end
