(* ===== verification/Readback.thy ===== *)
theory Readback
  imports Addr_Text Server
begin

text \<open>
  What the program prints it accepts: the networks its diagnostics suggest
  (\<open>src/src/config/compile.rs\<close>, \<open>compile_network\<close>) and the addresses it logs, wherever a
  configuration (\<open>compile_listen\<close>) or the command line (\<open>src/src/main.rs\<close>, \<open>parse_listen\<close>) names one.
\<close>

section \<open>Networks\<close>

text \<open>What the text of an address is written with.\<close>

lemma number_text_chars:
  assumes "c \<notin> set ''0123456789abcdef''"
  shows "c \<notin> set (hex_string n)" and "c \<notin> set (dec_string n)"
  using assms base_string_chars [of 16 n] base_string_chars [of 10 n]
  unfolding hex_string_base dec_string_base by (blast intro: refl)+

lemma show_ipv4_chars: "c \<notin> set ''0123456789abcdef.:'' \<Longrightarrow> c \<notin> set (show_ipv4 x)"
  by (simp add: show_ipv4_def octets_list number_text_chars)

lemma show_ipv6_chars:
  assumes "c \<notin> set ''0123456789abcdef.:''"
  shows "c \<notin> set (show_ipv6 a)"
proof -
  have "c \<notin> set (group_text i ss)" for i ss
    using assms by (induction i ss rule: group_text.induct) (auto simp: number_text_chars)
  then show ?thesis
    using assms show_ipv4_chars [OF assms, of "ucast a"]
    by (auto simp: show_ipv6_def fmt_subslice_text Let_def split: prod.splits if_splits)
qed

lemma split_once_first: "d \<notin> set a \<Longrightarrow> split_once d (a @ d # b) = Some (a, b)"
  by (induction a) auto

lemma compile_network_shown:
  assumes "m mod 4 = 0" and "0 < m" and "m < 128" and "p AND mask_bits m = p"
    and "rv_value v = show_ipv6 p @ ''/'' @ dec_string (unat m)"
  shows "compile_network v es = (Some (p, m), es)"
proof -
  have s: "split_once CHR ''/'' (rv_value v) = Some (show_ipv6 p, dec_string (unat m))"
    unfolding assms(5) using split_once_first [OF show_ipv6_chars] by simp
  have "unat m < 256" using unsigned_less [of m, where ?'a = nat] by simp
  then have "unat (ucast m :: u32) = unat m" by (simp add: unsigned_ucast_eq take_bit_nat_eq_self)
  then have "(ucast m :: u32) \<le> 128" "(ucast m :: u32) \<le> 255"
    using assms(3) by (simp_all add: word_le_nat_alt word_less_nat_alt)
  moreover have "ucast (ucast m :: u32) = m" by (rule bit_word_eqI) (auto simp: bit_simps)
  moreover have "m \<noteq> 0" "m \<noteq> 128" using assms(2,3) by auto
  ultimately show ?thesis
    using assms(1,4) by (simp add: compile_network_def s ipv6_roundtrip u32_roundtrip Let_def not_less)
qed

text \<open>The checks of a network whose text is an address and a number in range.\<close>

lemma compile_network_checks:
  assumes "split_once CHR ''/'' (rv_value v) = Some (addr_part, mask_part)" and "ipv6_from_str addr_part = Some a"
    and "u32_from_str mask_part = Some n" and "n \<le> 128" and "m = ucast n"
  shows "compile_network v es =
    (let at_mask = rv_error_at v (saturating_add (length addr_part) 1) (length mask_part) in
     if m mod 4 \<noteq> 0 then (None, es @ [at_mask (NetworkPrefixNotNibbleAligned m)])
     else if m = 0 then (None, es @ [at_mask (NetworkPrefixTooShort m)])
     else if m = 128 then (None, es @ [rv_error v NetworkIsSingleAddress])
     else if a \<noteq> a AND mask_bits m then
       (None, es @ [rv_error v (NetworkHostBitsSet (show_ipv6 (a AND mask_bits m) @ ''/'' @ dec_string (unat m)))])
     else (Some (a AND mask_bits m, m), es))"
proof -
  have in_range: "(128 < n) = False" "(n \<le> 255) = True" using assms(4) by (simp_all add: word_le_nat_alt word_less_nat_alt)
  show ?thesis
    unfolding compile_network_def assms(1-3,5) option.case prod.case Let_def in_range if_True if_False by (rule refl)
qed

lemma error_kinds:
  "ce_kind (rv_error w k) = k" "ce_kind (rv_error_at w i j k) = k"
  by (simp_all add: rv_error_def rv_error_at_def Let_def)

lemma host_bits_parts:
  assumes "compile_network v es = (None, es @ [e])" and "ce_kind e = NetworkHostBitsSet s"
  obtains addr_part mask_part a n where "split_once CHR ''/'' (rv_value v) = Some (addr_part, mask_part)"
    "ipv6_from_str addr_part = Some a" "u32_from_str mask_part = Some n" "n \<le> 128"
proof -
  obtain addr_part mask_part where p: "split_once CHR ''/'' (rv_value v) = Some (addr_part, mask_part)"
    using assms by (cases "split_once CHR ''/'' (rv_value v)") (auto simp: compile_network_def error_kinds)
  obtain a where a: "ipv6_from_str addr_part = Some a"
    using assms p by (cases "ipv6_from_str addr_part") (auto simp: compile_network_def error_kinds)
  obtain n where n: "u32_from_str mask_part = Some n"
    using assms p a by (cases "u32_from_str mask_part") (auto simp: compile_network_def error_kinds Let_def)
  have "\<not> 128 < n"
    using assms p a n by (cases "128 < n") (auto simp: compile_network_def error_kinds Let_def)
  with that [OF p a n] show thesis by simp
qed

lemma four_checks:
  assumes "(if A then (None, es @ [e1]) else if B then (None, es @ [e2]) else if C then (None, es @ [e3])
      else if D then (None, es @ [e4]) else (Some r, es)) = (None, es @ [e])"
    and "e \<noteq> e1" and "e \<noteq> e2" and "e \<noteq> e3"
  shows "\<not> A \<and> \<not> B \<and> \<not> C \<and> e = e4"
  using assms by (auto split: if_splits)

lemma compile_network_suggests:
  assumes "compile_network v es = (None, es @ [e])" and "ce_kind e = NetworkHostBitsSet s"
  obtains addr_part mask_part a m where "split_once CHR ''/'' (rv_value v) = Some (addr_part, mask_part)"
    "ipv6_from_str addr_part = Some a" "u32_from_str mask_part = Some (ucast m)"
    "m mod 4 = 0" "0 < m" "m < 128" "s = show_ipv6 (a AND mask_bits m) @ ''/'' @ dec_string (unat m)"
proof -
  from host_bits_parts [OF assms] obtain addr_part mask_part a n where
    parts: "split_once CHR ''/'' (rv_value v) = Some (addr_part, mask_part)" "ipv6_from_str addr_part = Some a"
      "u32_from_str mask_part = Some n" "n \<le> 128" .
  define m :: u8 where "m = ucast n"
  note net = compile_network_checks [OF parts m_def, of es]
  have other: "e \<noteq> x" if "ce_kind x \<noteq> NetworkHostBitsSet s" for x using assms(2) that by blast
  have m: "m mod 4 = 0 \<and> m \<noteq> 0 \<and> m \<noteq> 128 \<and> s = show_ipv6 (a AND mask_bits m) @ ''/'' @ dec_string (unat m)"
    using four_checks [OF net [unfolded Let_def, symmetric, unfolded assms(1)] other other other] assms(2)
    by (auto simp: error_kinds)
  have un: "unat n \<le> 128" using parts(4) by (simp add: word_le_nat_alt)
  then have um: "unat m = unat n" by (simp add: m_def unsigned_ucast_eq take_bit_nat_eq_self)
  have "unat m \<noteq> unat (128 :: u8)" using m by (metis unsigned_word_eqI)
  then have "m < 128" using um un by (simp add: word_less_nat_alt)
  moreover have "n = ucast m"
    using um un by (intro word_unat_eq_iff [THEN iffD2]) (simp add: unsigned_ucast_eq take_bit_nat_eq_self)
  ultimately show thesis using that [OF parts(1,2)] parts(3) m by (simp add: word_neq_0_conv)
qed

section \<open>Addresses to listen on\<close>

lemma no_bracket: "CHR ''['' \<notin> set s \<Longrightarrow> read_given_char CHR ''['' s = None"
  by (cases s) auto

text \<open>An address alone is no socket address.\<close>

lemma socket_addr_of_ip: "socket_addr_from_str (show_ip a) = None"
proof (cases a)
  case (V4 x)
  have "read_socket_addr_v4 (show_ipv4 x) = None"
    using read_show_ipv4 [of "[]" x] by (simp add: read_socket_addr_v4_def read_port_def stops_simps)
  moreover have "read_given_char CHR ''['' (show_ipv4 x) = None" by (intro no_bracket show_ipv4_chars) simp
  ultimately show ?thesis using V4
    by (simp add: socket_addr_from_str_def parse_with_def read_socket_addr_v6_def)
next
  case (V6 x)
  then show ?thesis
    using read_ipv4_of_ipv6 [of x "[]"] no_bracket [OF show_ipv6_chars, of x]
    by (simp add: socket_addr_from_str_def parse_with_def read_socket_addr_v4_def read_socket_addr_v6_def)
qed

section \<open>Properties\<close>

text \<open>
  Property C31. The network a diagnostic suggests is the right one and is accepted: if a network is
  refused because bits below its prefix length are set, the suggested text, written as the value
  of \<open>network\<close> instead, is accepted, as the network of the same prefix length that holds the
  address that was written.
\<close>

theorem network_suggestion_accepted:
  assumes "compile_network v es = (None, es @ [e])" and "ce_kind e = NetworkHostBitsSet s" and "rv_value v' = s"
  shows "\<exists>addr_part mask_part a m. split_once CHR ''/'' (rv_value v) = Some (addr_part, mask_part) \<and>
    ipv6_from_str addr_part = Some a \<and> u32_from_str mask_part = Some (ucast m) \<and>
    compile_network v' es' = (Some (a AND mask_bits m, m), es')"
proof -
  obtain addr_part mask_part a m where *: "split_once CHR ''/'' (rv_value v) = Some (addr_part, mask_part)"
    "ipv6_from_str addr_part = Some a" "u32_from_str mask_part = Some (ucast m)"
    and m: "m mod 4 = 0" "0 < m" "m < 128" and s: "s = show_ipv6 (a AND mask_bits m) @ ''/'' @ dec_string (unat m)"
    by (rule compile_network_suggests [OF assms(1,2)])
  have "(a AND mask_bits m) AND mask_bits m = a AND mask_bits m" by (simp add: and.assoc)
  from compile_network_shown [OF m this, of v' es'] assms(3) s * show ?thesis by auto
qed

theorem network_suggestion_accepted_witness:
  "\<exists>p m. compile_network \<lparr>rv_line = 1, rv_raw_line = [], rv_span = (0, 0), rv_value = ''::/64''\<rparr> [] =
     (Some (p, m), [])"
proof -
  let ?v = "\<lparr>rv_line = 1, rv_raw_line = [], rv_span = (0, 0), rv_value = ''::5/64''\<rparr>"
  let ?w = "\<lparr>rv_line = 1, rv_raw_line = [], rv_span = (0, 0), rv_value = ''::/64''\<rparr>"
  have "fst (compile_network ?v []) = None \<and> map ce_kind (snd (compile_network ?v [])) = [NetworkHostBitsSet ''::/64'']"
    by code_simp
  then obtain e where "compile_network ?v [] = (None, [] @ [e])" "ce_kind e = NetworkHostBitsSet ''::/64''"
    by (cases "compile_network ?v []") auto
  from network_suggestion_accepted [OF this, of ?w "[]"] show ?thesis by auto
qed

text \<open>
  Property C32. Addresses are accepted in the form they are logged: the text of a socket address is
  read as that address and port, and the text of an address alone as that address on the default
  port 53, both by the \<open>listen\<close> directive and by \<open>--listen\<close>; compressed and IPv4-mapped forms
  included.
\<close>

theorem listen_reads_what_is_shown:
  "parse_listen (show_socket_addr (a, p)) = Inr \<lparr>la_addr = a, la_port = p\<rparr> \<and>
   parse_listen (show_ip a) = Inr \<lparr>la_addr = a, la_port = 53\<rparr> \<and>
   compile_listen (v\<lparr>rv_value := show_socket_addr (a, p)\<rparr>) es = (Some \<lparr>la_addr = a, la_port = p\<rparr>, es) \<and>
   compile_listen (v\<lparr>rv_value := show_ip a\<rparr>) es = (Some \<lparr>la_addr = a, la_port = 53\<rparr>, es)"
  by (simp add: parse_listen_def compile_listen_def socket_addr_roundtrip socket_addr_of_ip ip_roundtrip DEFAULT_PORT_def)

end
