(* ===== verification/Process.thy ===== *)
theory Process
  imports Server
begin

text \<open>
  \<open>src/src/main.rs\<close>, the rest: logging, the whole of \<open>serve\<close> with its signals, the reloader as
  it meets one SIGHUP after the other, \<open>run\<close> and the exit code of \<open>main\<close>. What the runtime, the
  signals and the operating system answer is the record \<open>process_env\<close>; what ends the server may
  depend on the sockets registered with it.
\<close>

section \<open>Logging\<close>

datatype log_format = Log_Text | Log_Json

text \<open>The filter of \<open>PANOPTIDNS_LOG\<close> where it is set and valid, and the format.\<close>

definition init_logging :: "string option \<Rightarrow> cli \<Rightarrow> string \<times> log_format" where
  "init_logging env_filter cli =
    (case env_filter of Some f \<Rightarrow> f | None \<Rightarrow> if cl_querylog cli then ''info'' else ''warn'',
     if cl_log_json cli then Log_Json else Log_Text)"

section \<open>Serving\<close>

text \<open>In seconds, in bytes and in seconds.\<close>

definition TCP_IDLE :: nat where
  "TCP_IDLE = 5"

definition TCP_RESPONSE_BUFFER :: nat where
  "TCP_RESPONSE_BUFFER = 4096"

definition RRL_SWEEP_INTERVAL :: nat where
  "RRL_SWEEP_INTERVAL = 10"

text \<open>The sockets handed to the server, with the limits of a connection.\<close>

datatype registration = Reg_Socket nat | Reg_Listener nat nat nat

definition registrations :: "bound \<Rightarrow> registration list" where
  "registrations b = map Reg_Socket (bd_udp b) @ map (\<lambda>l. Reg_Listener l TCP_IDLE TCP_RESPONSE_BUFFER) (bd_tcp b)"

text \<open>What ends \<open>serve\<close>, and what it returns then.\<close>

datatype serve_event = Server_Done "(string, unit) result" | Got_Sigterm | Got_Sigint

definition serve_outcome :: "serve_event \<Rightarrow> (string, unit) result" where
  "serve_outcome ev =
    (case ev of
       Server_Done (Inl e) \<Rightarrow> Inl (''server stopped: '' @ e)
     | Server_Done (Inr _) \<Rightarrow> Inr ()
     | Got_Sigterm \<Rightarrow> Inr ()
     | Got_Sigint \<Rightarrow> Inr ())"

record 'n process_env =
  pe_runtime :: "(string, unit) result"
  pe_fs :: file_system
  pe_health :: "'n health_env"
  pe_os :: os_lib
  pe_term :: "(string, unit) result"
  pe_int :: "(string, unit) result"
  pe_event :: "registration list \<Rightarrow> serve_event"

definition serve ::
  "('q, 'l) governor \<Rightarrow> build \<Rightarrow> 'n process_env \<Rightarrow> cli \<Rightarrow> 'n config \<Rightarrow> unit io" where
  "serve G build env cli config =
    io_bind (serve_start G build (pe_os env) cli config) (\<lambda>(h, bound) tr.
      (case pe_term env of
         Inl e \<Rightarrow> (Inl (''cannot install SIGTERM handler: '' @ e), tr)
       | Inr _ \<Rightarrow>
           (case pe_int env of
              Inl e \<Rightarrow> (Inl (''cannot install SIGINT handler: '' @ e), tr)
            | Inr _ \<Rightarrow> (serve_outcome (pe_event env (registrations bound)), tr))))"

text \<open>
  The reloader: nothing without a handler for SIGHUP, else a reload per signal, each with the
  file system as it is then.
\<close>

definition reloader ::
  "'n dns_lib \<Rightarrow> build \<Rightarrow> string \<Rightarrow> (string, unit) result \<Rightarrow> file_system list \<Rightarrow> ('n, 'l) handler \<Rightarrow> ('n, 'l) handler" where
  "reloader H build path hup signals h =
    (case hup of
       Inl _ \<Rightarrow> h
     | Inr _ \<Rightarrow> fold (\<lambda>fs h. reload H build fs path h) signals h)"

section \<open>The process\<close>

definition run_process ::
  "'n dns_lib \<Rightarrow> ('q, 'l) governor \<Rightarrow> build \<Rightarrow> 'n process_env \<Rightarrow> cli \<Rightarrow> unit io" where
  "run_process H G build env cli tr =
    (case pe_runtime env of
       Inl e \<Rightarrow> (Inl (''cannot start the async runtime: '' @ e), tr)
     | Inr _ \<Rightarrow>
         (case run H (pe_fs env) cli of
            Run_Healthcheck port \<Rightarrow> (healthcheck (pe_health env) port, tr)
          | Run_Failed e \<Rightarrow> (Inl e, tr)
          | Run_Checked _ _ \<Rightarrow> (Inr (), tr)
          | Run_Serve config \<Rightarrow> serve G build env cli config tr))"

datatype exit_code = Exit_Success | Exit_Failure

text \<open>The exit code with what is printed on failure, and the system calls made.\<close>

definition main_process ::
  "'n dns_lib \<Rightarrow> ('q, 'l) governor \<Rightarrow> build \<Rightarrow> 'n process_env \<Rightarrow> cli \<Rightarrow> (exit_code \<times> string option) \<times> sys_call list" where
  "main_process H G build env cli =
    (case run_process H G build env cli [] of
       (Inr _, tr) \<Rightarrow> ((Exit_Success, None), tr)
     | (Inl msg, tr) \<Rightarrow> ((Exit_Failure, Some msg), tr))"

section \<open>Lemmas\<close>

text \<open>Every socket that was bound is registered once, a listener with the limits of a connection.\<close>

lemma registrations_bound:
  "length (registrations b) = length (bd_udp b) + length (bd_tcp b) \<and>
   set (registrations b) = Reg_Socket ` set (bd_udp b) \<union> (\<lambda>l. Reg_Listener l 5 4096) ` set (bd_tcp b)"
  by (auto simp: registrations_def TCP_IDLE_def TCP_RESPONSE_BUFFER_def)

lemma serve_signals:
  assumes "serve_start G build (pe_os env) cli config tr = (Inr (h, b), tr')"
    and "pe_term env = Inr ()" and "pe_int env = Inr ()" and "pe_event env (registrations b) \<in> {Got_Sigterm, Got_Sigint}"
  shows "serve G build env cli config tr = (Inr (), tr')"
  using assms by (auto simp: serve_def io_bind_def serve_outcome_def)

text \<open>The zones that can be loaded at one signal after the other.\<close>

fun good_zones :: "'n dns_lib \<Rightarrow> build \<Rightarrow> string \<Rightarrow> file_system list \<Rightarrow> 'n zones list" where
  "good_zones H build path [] = []"
| "good_zones H build path (fs # signals) =
    (case reload_zones H build fs path of
       Inl _ \<Rightarrow> good_zones H build path signals
     | Inr zs \<Rightarrow> zs # good_zones H build path signals)"

lemma reloads_last_good:
  "fold (\<lambda>fs h. reload H build fs path h) signals h =
     h\<lparr>hd_zones := last (hd_zones h # good_zones H build path signals)\<rparr>"
proof (induction signals arbitrary: h)
  case (Cons fs signals)
  show ?case
  proof (cases "reload_zones H build fs path")
    case (Inl e)
    then have "reload H build fs path h = h" by (simp add: reload_def)
    with Inl Cons [of h] show ?thesis by simp
  next
    case (Inr zs)
    then have "reload H build fs path h = h\<lparr>hd_zones := zs\<rparr>" by (simp add: reload_def)
    with Inr Cons [of "h\<lparr>hd_zones := zs\<rparr>"] show ?thesis by simp
  qed
qed simp

section \<open>Properties\<close>

text \<open>
  Property C30. Checking a configuration predicts serving it: \<open>--check-config\<close> makes no system call
  on sockets; it exits with success exactly when the file can be read and is accepted, and then
  the configuration is well formed; and if it fails, starting the server with the same arguments
  fails with the same message before any socket is touched.
\<close>

theorem check_config_predicts_serve:
  assumes "\<not> cl_healthcheck cli" and "pe_runtime env = Inr ()"
  shows "let checked = main_process H G build env (cli\<lparr>cl_check_config := True\<rparr>);
             served = main_process H G build env (cli\<lparr>cl_check_config := False\<rparr>) in
    snd checked = [] \<and>
    (fst (fst checked) = Exit_Success \<longleftrightarrow>
       (\<exists>body c. pe_fs env (cl_config cli) = Inr body \<and> config_parse H body = Inr c \<and> wf_config H c)) \<and>
    (fst (fst checked) \<noteq> Exit_Success \<longrightarrow> served = checked)"
proof (cases "load_config H (pe_fs env) (cl_config cli)")
  case (Inl e)
  then have "\<nexists>body c. pe_fs env (cl_config cli) = Inr body \<and> config_parse H body = Inr c \<and> wf_config H c"
    by (auto simp: load_config_def split: sum.splits)
  with Inl assms show ?thesis by (simp add: main_process_def run_process_def run_def)
next
  case (Inr c)
  then have "\<exists>body c. pe_fs env (cl_config cli) = Inr body \<and> config_parse H body = Inr c \<and> wf_config H c"
    using load_config_ok(1) [OF Inr] by (auto simp: load_config_def split: sum.splits)
  with Inr assms show ?thesis by (simp add: main_process_def run_process_def run_def)
qed

definition example_process_env :: "rfc_name process_env" where
  "example_process_env = \<lparr>pe_runtime = Inr (), pe_fs = (\<lambda>_. Inr example_file),
     pe_health = \<lparr>he_from_ascii = (\<lambda>_. Inl []), he_to_bytes = (\<lambda>_. Inl []), he_bind = Inr (), he_send = (\<lambda>_ _. Inr ()),
       he_recv = Recv_Timeout\<rparr>,
     pe_os = example_os, pe_term = Inr (), pe_int = Inr (), pe_event = (\<lambda>_. Got_Sigterm)\<rparr>"

theorem check_config_predicts_serve_witness:
  "fst (fst (main_process rfc_lib gcra_lib (\<lambda>_ _. None) example_process_env (example_cli\<lparr>cl_check_config := True\<rparr>))) =
   Exit_Success"
proof -
  have "\<not> cl_healthcheck example_cli" "pe_runtime example_process_env = Inr ()"
    by (simp_all add: example_cli_def example_process_env_def)
  from check_config_predicts_serve [OF this, of rfc_lib gcra_lib "\<lambda>_ _. None"] show ?thesis
    using example_file_config wf_example_config by (auto simp: Let_def example_process_env_def)
qed

text \<open>
  The last good configuration wins: after any number of SIGHUPs the server serves the
  zones of the last one at which the file could be loaded, and those it was started with if there
  was none; nothing else of the handler changes.
\<close>

lemma reloader_serves_last_good:
  "reloader H build path (Inr ()) signals h =
     h\<lparr>hd_zones := last (hd_zones h # good_zones H build path signals)\<rparr> \<and>
   reloader H build path (Inl e) signals h = h"
  by (simp add: reloader_def reloads_last_good)

end
