(* ===== verification/Rate.thy ===== *)
theory Rate
  imports Server
begin

text \<open>
  How much the rate limiter of \<open>src/src/rrl.rs\<close> lets out over time, and with it the server. What
  the crate \<open>governor\<close> documents of a quota, that a bucket holds a burst of cells and gets one cell
  back per interval, is the locale \<open>token_bucket\<close>, which extends \<open>keyed_limiter\<close>: the credit of a
  bucket is the time its cells took to collect, and plays the role of a potential. Here the
  bound of one bucket becomes one of the limiter, with its sweeps, and then one of the server,
  with its requests, sweeps and reloads.
\<close>

section \<open>Quotas\<close>

locale token_bucket = keyed_limiter G bucket admit
  for G :: "('q, 'l) governor" and bucket :: "'l \<Rightarrow> client_key \<Rightarrow> 'b" and admit :: "'b \<Rightarrow> nat \<Rightarrow> bool \<times> 'b" +
  fixes interval :: "'b \<Rightarrow> nat" and capacity :: "'b \<Rightarrow> nat" and credit :: "'b \<Rightarrow> nat \<Rightarrow> nat"
  assumes credit_le: "credit b t \<le> capacity b * interval b"
    and credit_spent: "fst (admit b t) \<Longrightarrow> credit (snd (admit b t)) t + interval b \<le> credit b t"
    and credit_kept: "\<not> fst (admit b t) \<Longrightarrow> credit (snd (admit b t)) t \<le> credit b t"
    and credit_grows: "t \<le> t' \<Longrightarrow> credit b t' \<le> credit b t + (t' - t)"
    and admit_interval: "interval (snd (admit b t)) = interval b"
    and admit_capacity: "capacity (snd (admit b t)) = capacity b"
    and retain_interval: "interval (bucket (retain_recent G l t) key) = interval (bucket l key)"
    and retain_capacity: "capacity (bucket (retain_recent G l t) key) = capacity (bucket l key)"
    and retain_credit: "t \<le> t' \<Longrightarrow> credit (bucket (retain_recent G l t) key) t' = credit (bucket l key) t'"
    and quota_interval: "rps \<noteq> 0 \<Longrightarrow> burst \<noteq> 0 \<Longrightarrow>
      10 ^ 9 div unat rps \<le> interval (bucket (keyed G (allow_burst G (per_second G rps) burst)) key)"
    and quota_capacity: "rps \<noteq> 0 \<Longrightarrow> burst \<noteq> 0 \<Longrightarrow>
      capacity (bucket (keyed G (allow_burst G (per_second G rps) burst)) key) = unat burst"

section \<open>Operations on the limiter\<close>

datatype limiter_op = Decide_Op rrl_event | Sweep_Op nat

fun op_time :: "limiter_op \<Rightarrow> nat" where
  "op_time (Decide_Op e) = event_time e"
| "op_time (Sweep_Op t) = t"

fun op_step :: "('q, 'l) governor \<Rightarrow> limiter_op \<Rightarrow> 'l rrl \<Rightarrow> 'l rrl" where
  "op_step G (Decide_Op (addr, k, tcp, t)) r = snd (rrl_decide G r addr k tcp t)"
| "op_step G (Sweep_Op t) r = sweep G r t"

text \<open>An operation that lets a response out to the clients of \<open>key\<close> from the budget \<open>k\<close>.\<close>

fun lets_out :: "('q, 'l) governor \<Rightarrow> client_key \<Rightarrow> kind \<Rightarrow> 'l rrl \<Rightarrow> limiter_op \<Rightarrow> bool" where
  "lets_out G key k r (Decide_Op (addr, k', tcp, t)) \<longleftrightarrow>
     draws (rl_params r) key k (addr, k', tcp, t) \<and> fst (rrl_decide G r addr k' tcp t) = Allow"
| "lets_out G key k r (Sweep_Op t) \<longleftrightarrow> False"

primrec allowances :: "('q, 'l) governor \<Rightarrow> client_key \<Rightarrow> kind \<Rightarrow> limiter_op list \<Rightarrow> 'l rrl \<Rightarrow> nat" where
  "allowances G key k [] r = 0"
| "allowances G key k (x # xs) r = (if lets_out G key k r x then 1 else 0) + allowances G key k xs (op_step G x r)"

lemma limiter_op_cases:
  obtains (decide) addr k tcp t where "x = Decide_Op (addr, k, tcp, t)" | (sweep) t where "x = Sweep_Op t"
  by (metis limiter_op.exhaust prod_cases4)

lemma op_step_params [simp]: "rl_params (op_step G x r) = rl_params r"
  by (cases x rule: limiter_op_cases) (simp_all add: sweep_def Let_def)

lemma allowances_append:
  "allowances G key k (xs @ ys) r = allowances G key k xs r + allowances G key k ys (fold (op_step G) xs r)"
  by (induction xs arbitrary: r) simp_all

context token_bucket
begin

text \<open>The bucket of a client in a budget, its interval and capacity, and its credit as a potential.\<close>

lemma op_quota:
  "interval (bucket (limiter_of (op_step G x r) k) key) = interval (bucket (limiter_of r k) key) \<and>
   capacity (bucket (limiter_of (op_step G x r) k) key) = capacity (bucket (limiter_of r k) key)"
proof (cases x rule: limiter_op_cases)
  case (decide addr k' tcp t)
  then show ?thesis by (simp add: decide_bucket admit_interval admit_capacity)
next
  case (sweep t)
  then show ?thesis by (cases k) (simp_all add: sweep_def limiter_of_def Let_def retain_interval retain_capacity)
qed

lemma ops_quota:
  "interval (bucket (limiter_of (fold (op_step G) xs r) k) key) = interval (bucket (limiter_of r k) key) \<and>
   capacity (bucket (limiter_of (fold (op_step G) xs r) k) key) = capacity (bucket (limiter_of r k) key)"
  by (induction xs arbitrary: r) (simp_all add: op_quota)

text \<open>One operation: what it lets out is paid for.\<close>

lemma op_credit:
  "(if lets_out G key k r x then interval (bucket (limiter_of r k) key) else 0) +
     credit (bucket (limiter_of (op_step G x r) k) key) (op_time x)
   \<le> credit (bucket (limiter_of r k) key) (op_time x)"
proof (cases x rule: limiter_op_cases)
  case (decide addr k' tcp t)
  let ?b = "bucket (limiter_of r k) key"
  have "fst (rrl_decide G r addr k' tcp t) = Allow \<longleftrightarrow> fst (admit ?b t)"
    if "draws (rl_params r) key k (addr, k', tcp, t)"
    using that by (auto simp: decide_allow draws_def event_key_def)
  with decide credit_spent [of ?b t] credit_kept [of ?b t] show ?thesis
    by (auto simp: decide_bucket event_time_def)
next
  case (sweep t)
  then show ?thesis by (cases k) (simp_all add: sweep_def limiter_of_def Let_def retain_credit)
qed

lemma ops_credit:
  assumes "sorted (t # map op_time xs @ [u])"
  shows "allowances G key k xs r * interval (bucket (limiter_of r k) key) \<le>
    credit (bucket (limiter_of r k) key) t + (u - t)"
  using assms
proof (induction xs arbitrary: r t)
  case (Cons x xs)
  let ?b = "bucket (limiter_of r k) key" and ?b' = "bucket (limiter_of (op_step G x r) k) key"
  have t: "t \<le> op_time x" "op_time x \<le> u" using Cons.prems by auto
  have "allowances G key k xs (op_step G x r) * interval ?b \<le> credit ?b' (op_time x) + (u - op_time x)"
    using Cons.IH [of "op_time x" "op_step G x r"] Cons.prems op_quota [of x r k key] by simp
  moreover have "allowances G key k (x # xs) r * interval ?b =
      (if lets_out G key k r x then interval ?b else 0) + allowances G key k xs (op_step G x r) * interval ?b"
    by (simp add: algebra_simps)
  ultimately show ?case
    using op_credit [of key k r x] credit_grows [OF t(1), of ?b] t by linarith
qed simp

text \<open>Buckets of a quota, and the bound they give on any window of time.\<close>

definition limits_by :: "rrl_params \<Rightarrow> 'l rrl \<Rightarrow> bool" where
  "limits_by P r \<longleftrightarrow> rl_params r = P \<and>
     (\<forall>k key. capacity (bucket (limiter_of r k) key) = unat (rp_burst P) \<and>
       10 ^ 9 div unat (rp_responses_per_second P) \<le> interval (bucket (limiter_of r k) key))"

lemma limits_by_new:
  "rp_responses_per_second P \<noteq> 0 \<Longrightarrow> rp_burst P \<noteq> 0 \<Longrightarrow> limits_by P (rrl_new G P)"
  by (auto simp: limits_by_def rrl_new_def quota_def limiter_of_def Let_def quota_interval [simplified] quota_capacity split: kind.splits)

lemma limits_by_ops: "limits_by P r \<Longrightarrow> limits_by P (fold (op_step G) xs r)"
proof -
  have "rl_params (fold (op_step G) xs r) = rl_params r" by (induction xs arbitrary: r) simp_all
  then show "limits_by P r \<Longrightarrow> limits_by P (fold (op_step G) xs r)" by (simp add: limits_by_def ops_quota)
qed

lemma window_bound:
  assumes "limits_by P r" and "sorted (t # map op_time xs @ [u])"
  defines "i \<equiv> 10 ^ 9 div unat (rp_responses_per_second P)"
  shows "allowances G key k xs r * i \<le> unat (rp_burst P) * i + (u - t)"
proof -
  let ?b = "bucket (limiter_of r k) key" and ?n = "allowances G key k xs r"
  have cap: "capacity ?b = unat (rp_burst P)" and i: "i \<le> interval ?b" using assms(1) by (auto simp: limits_by_def i_def)
  have "?n * interval ?b \<le> unat (rp_burst P) * interval ?b + (u - t)"
    using ops_credit [OF assms(2), of key k r] credit_le [of ?b t] by (simp add: cap)
  then have "(?n - unat (rp_burst P)) * interval ?b \<le> u - t" by (simp add: diff_mult_distrib)
  then have "(?n - unat (rp_burst P)) * i \<le> u - t" using mult_le_mono2 [OF i] by (rule order_trans [rotated])
  then show ?thesis by (simp add: diff_mult_distrib)
qed

end

section \<open>The generic cell rate algorithm\<close>

text \<open>The credit is what is left of \<open>b\<close> intervals before the time the client is quiet again.\<close>

fun gcra_interval :: "nat \<times> nat \<times> nat \<Rightarrow> nat" where
  "gcra_interval (T, b, tat) = T"

fun gcra_capacity :: "nat \<times> nat \<times> nat \<Rightarrow> nat" where
  "gcra_capacity (T, b, tat) = max 1 b"

fun gcra_credit :: "nat \<times> nat \<times> nat \<Rightarrow> nat \<Rightarrow> nat" where
  "gcra_credit (T, b, tat) t = max 1 b * T - (tat - t)"

lemma gcra_spent:
  assumes "tat \<le> t + T * (b - 1)"
  shows "gcra_credit (T, b, max tat t + T) t + T \<le> gcra_credit (T, b, tat) t"
proof (cases b)
  case (Suc n)
  then have "tat - t + T \<le> b * T" using assms by (simp add: algebra_simps)
  with Suc show ?thesis by (auto simp: max_def ac_simps)
qed (use assms in \<open>simp add: max_def\<close>)

interpretation gcra_rate: token_bucket gcra_lib gcra_bucket gcra_admit gcra_interval gcra_capacity gcra_credit
proof unfold_locales
  show "gcra_credit (snd (gcra_admit b t)) t + gcra_interval b \<le> gcra_credit b t" if "fst (gcra_admit b t)" for b t
    using that by (cases b) (auto split: if_splits intro: gcra_spent simp del: gcra_credit.simps)
  show "gcra_credit b t' \<le> gcra_credit b t + (t' - t)" if "t \<le> t'" for b t t'
    using that by (cases b) simp
qed (auto simp: gcra_lib_def gcra_bucket_def unat_gt_0 max_def Suc_le_eq split: prod.splits if_splits)

section \<open>Events of the server\<close>

datatype 'n server_event = Ev_Request "'n request" "'n request_env" | Ev_Sweep nat | Ev_Reload file_system

fun event_step ::
  "'n dns_lib \<Rightarrow> 'n msg_lib \<Rightarrow> ('q, 'l) governor \<Rightarrow> build \<Rightarrow> string \<Rightarrow> 'n server_event \<Rightarrow> ('n, 'l) handler \<Rightarrow>
   'n response list \<times> ('n, 'l) handler" where
  "event_step H M G build path (Ev_Request request env) h = snd (handle_request H M G h request env)"
| "event_step H M G build path (Ev_Sweep now) h = ([], sweeper_tick G now h)"
| "event_step H M G build path (Ev_Reload fs) h = ([], reload H build fs path h)"

fun event_times :: "'n server_event \<Rightarrow> nat list" where
  "event_times (Ev_Request request env) = [en_clock env]"
| "event_times (Ev_Sweep now) = [now]"
| "event_times (Ev_Reload fs) = []"

definition is_standard :: "'n request \<Rightarrow> bool" where
  "is_standard request \<longleftrightarrow>
     \<not> isl (rq_info request) \<and> md_op_code (rq_metadata request) = Op_Query \<and> rq_version request = 0"

text \<open>
  The event is a standard query (operation QUERY, no EDNS or EDNS version 0) over UDP from the
  clients of \<open>key\<close>, and a full response is handed to the transport for it: not the empty truncated
  one of a slip, and not the SERVFAIL that follows a response that could not be sent.
\<close>

fun full_response :: "client_key \<Rightarrow> 'n server_event \<Rightarrow> ('n, 'l) handler \<Rightarrow> 'n response list \<Rightarrow> bool" where
  "full_response key (Ev_Request request env) h sent \<longleftrightarrow>
     is_standard request \<and> rq_protocol request \<noteq> Proto_Tcp \<and>
     client_key_new (fst (rq_src request)) (rp_ipv4_prefix (rl_params (hd_rrl h))) (rp_ipv6_prefix (rl_params (hd_rrl h))) = key \<and>
     list_ex (\<lambda>r. \<not> md_truncation (rs_metadata r) \<and> md_response_code (rs_metadata r) \<noteq> ServFail) sent"
| "full_response key _ h sent \<longleftrightarrow> False"

primrec full_responses ::
  "'n dns_lib \<Rightarrow> 'n msg_lib \<Rightarrow> ('q, 'l) governor \<Rightarrow> build \<Rightarrow> string \<Rightarrow> client_key \<Rightarrow> 'n server_event list \<Rightarrow>
   ('n, 'l) handler \<Rightarrow> nat" where
  "full_responses H M G build path key [] h = 0"
| "full_responses H M G build path key (e # es) h =
    (let (sent, h') = event_step H M G build path e h
     in (if full_response key e h sent then 1 else 0) + full_responses H M G build path key es h')"

text \<open>What an event does to the limiter.\<close>

fun event_ops :: "'n dns_lib \<Rightarrow> ('n, 'l) handler \<Rightarrow> 'n server_event \<Rightarrow> limiter_op list" where
  "event_ops H h (Ev_Request request env) =
    (case rq_info request of
       Inl _ \<Rightarrow> []
     | Inr info \<Rightarrow>
         if is_standard request
         then [Decide_Op (fst (rq_src request), re_kind (fst (decided_reply H h info env)),
                rq_protocol request = Proto_Tcp, en_clock env)]
         else [])"
| "event_ops H h (Ev_Sweep now) = [Sweep_Op now]"
| "event_ops H h (Ev_Reload fs) = []"

primrec server_ops ::
  "'n dns_lib \<Rightarrow> 'n msg_lib \<Rightarrow> ('q, 'l) governor \<Rightarrow> build \<Rightarrow> string \<Rightarrow> 'n server_event list \<Rightarrow> ('n, 'l) handler \<Rightarrow>
   limiter_op list" where
  "server_ops H M G build path [] h = []"
| "server_ops H M G build path (e # es) h =
    event_ops H h e @ server_ops H M G build path es (snd (event_step H M G build path e h))"

lemma is_standardE:
  assumes "is_standard request"
  obtains info where "rq_info request = Inr info" "standard_query request info"
  using assms by (cases "rq_info request") (auto simp: is_standard_def standard_query_def)

lemma not_standard_state: "\<not> is_standard request \<Longrightarrow> snd (snd (handle_request H M G h request env)) = h"
  unfolding handle_request_state
  by (cases rule: handle_inner_cases [where H = H and M = M and G = G and h = h and request = request and env = env])
    (auto simp: is_standard_def standard_query_def)

lemma standard_query_after:
  "standard_query request info \<Longrightarrow>
   snd (snd (handle_request H M G h request env)) = handler_after H G h request info env"
  unfolding handle_request_state
  by (cases rule: handle_inner_cases [where H = H and M = M and G = G and h = h and request = request and env = env])
    (auto simp: standard_query_def)

lemma event_rrl: "hd_rrl (snd (event_step H M G build path e h)) = fold (op_step G) (event_ops H h e) (hd_rrl h)"
proof (cases e)
  case (Ev_Request request env)
  show ?thesis
  proof (cases "is_standard request")
    case True
    then obtain info where "rq_info request = Inr info" "standard_query request info" by (rule is_standardE)
    with True Ev_Request show ?thesis
      by (simp add: standard_query_after handler_after_def limiter_verdict_def)
  next
    case False
    with Ev_Request show ?thesis by (simp add: not_standard_state split: sum.split)
  qed
next
  case (Ev_Reload fs)
  then show ?thesis by (simp add: reload_def split: sum.splits)
qed (simp add: sweeper_tick_def)

lemma event_ops_one: "event_ops H h e = [] \<or> (\<exists>x. event_ops H h e = [x] \<and> event_times e = [op_time x])"
  by (cases e) (auto simp: event_time_def split: sum.splits)

lemma server_ops_sorted:
  "sorted (t # concat (map event_times es) @ [u]) \<Longrightarrow> sorted (t # map op_time (server_ops H M G build path es h) @ [u])"
proof (induction es arbitrary: t h)
  case (Cons e es)
  let ?h = "snd (event_step H M G build path e h)"
  consider "event_ops H h e = []" | x where "event_ops H h e = [x]" "event_times e = [op_time x]"
    using event_ops_one [of H h e] by blast
  then show ?case
  proof cases
    case 1
    from Cons.prems have "sorted (t # concat (map event_times es) @ [u])" by (auto simp: sorted_append)
    from Cons.IH [OF this, of ?h] 1 show ?thesis by simp
  next
    case 2
    from Cons.prems 2 have "sorted (op_time x # concat (map event_times es) @ [u])" "t \<le> op_time x" by auto
    with Cons.IH [OF this(1), of ?h] 2 show ?thesis by auto
  qed
qed simp

lemma full_response_allowed:
  assumes "full_response key (Ev_Request request env) h (fst (snd (handle_request H M G h request env)))"
    and "rp_enabled (rl_params (hd_rrl h))"
  shows "\<exists>k x. event_ops H h (Ev_Request request env) = [x] \<and> lets_out G key k (hd_rrl h) x"
proof -
  from assms(1) have "is_standard request" by simp
  then obtain info where info: "rq_info request = Inr info" and q: "standard_query request info" by (rule is_standardE)
  let ?sent = "fst (snd (handle_request H M G h request env))"
  have no: "\<not> list_ex (\<lambda>r. \<not> md_truncation (rs_metadata r) \<and> md_response_code (rs_metadata r) \<noteq> ServFail) ?sent"
    if "\<forall>r \<in> set (fst (snd (handle_inner H M G h request env))). md_truncation (rs_metadata r)"
    using that handle_request_responses [of H M G h request env]
    by (auto simp: list_ex_iff servfail_response build_no_records_def)
  have "fst (limiter_verdict H G h request info env) = Allow"
  proof (cases rule: handle_inner_cases [where H = H and M = M and G = G and h = h and request = request and env = env])
    case (truncate i x)
    with assms(1) no show ?thesis by (simp add: build_no_records_def)
  next
    case (drop i)
    with assms(1) no show ?thesis by simp
  qed (use q info in \<open>auto simp: standard_query_def\<close>)
  with assms(1,2) info show ?thesis
    by (simp add: limiter_verdict_def draws_def event_key_def)
qed

lemma full_responses_allowances:
  assumes "rp_enabled (rl_params (hd_rrl h))"
  shows "full_responses H M G build path key es h \<le>
    allowances G key Kind_Answer (server_ops H M G build path es h) (hd_rrl h) +
    allowances G key Kind_Negative (server_ops H M G build path es h) (hd_rrl h)"
  using assms
proof (induction es arbitrary: h)
  case (Cons e es)
  let ?e = "event_step H M G build path e h" and ?a = "\<lambda>k. allowances G key k (event_ops H h e) (hd_rrl h)"
  have "rl_params (fold (op_step G) xs r) = rl_params r" for xs r by (induction xs arbitrary: r) simp_all
  then have "rp_enabled (rl_params (hd_rrl (snd ?e)))" using Cons.prems by (simp add: event_rrl)
  then have
    IH: "full_responses H M G build path key es (snd ?e) \<le>
      allowances G key Kind_Answer (server_ops H M G build path es (snd ?e)) (hd_rrl (snd ?e)) +
      allowances G key Kind_Negative (server_ops H M G build path es (snd ?e)) (hd_rrl (snd ?e))"
    by (rule Cons.IH)
  have "(if full_response key e h (fst ?e) then 1 else 0) \<le> ?a Kind_Answer + ?a Kind_Negative"
  proof (cases "full_response key e h (fst ?e)")
    case True
    then obtain request env where e: "e = Ev_Request request env" by (cases e) auto
    with True Cons.prems full_response_allowed [of key request env h H M G]
    obtain k x where "event_ops H h e = [x]" "lets_out G key k (hd_rrl h) x" by auto
    then have "?a k = 1" by simp
    then show ?thesis by (cases k) simp_all
  qed simp
  with IH show ?case by (simp add: allowances_append event_rrl case_prod_beta)
qed simp

context token_bucket
begin

lemma limits_by_reachable:
  assumes "reachable (server_init H G build path P) (server_step H M G build path) h"
  shows "limits_by P (hd_rrl h)"
  using assms
proof (induction rule: reachable.induct)
  case (start h)
  then obtain fs OS cli config tr b tr' where c: "load_config H fs path = Inr config" and P: "sp_rrl (cf_params config) = P"
    and s: "serve_start G build OS cli config tr = (Inr (h, b), tr')"
    by (auto simp: server_init_def)
  have "rp_responses_per_second P \<noteq> 0" "rp_burst P \<noteq> 0"
    using load_config_ok(2) [OF c] P by (auto simp: wf_params_def)
  then show ?case using serve_start_ok(2) [OF s] P limits_by_new by simp
next
  case (move h h')
  from move(2) obtain e where "h' = snd (event_step H M G build path e h)"
    by cases (metis event_step.simps snd_conv)+
  with move(3) show ?case by (simp add: event_rrl limits_by_ops)
qed

lemma served_window:
  assumes "reachable (server_init H G build path P) (server_step H M G build path) h" and "rp_enabled P"
    and "sorted (t # concat (map event_times es) @ [u])"
  defines "i \<equiv> 10 ^ 9 div unat (rp_responses_per_second P)"
  shows "full_responses H M G build path key es h * i \<le> 2 * (unat (rp_burst P) * i + (u - t))"
proof -
  let ?ops = "server_ops H M G build path es h" and ?n = "\<lambda>k. allowances G key k (server_ops H M G build path es h) (hd_rrl h)"
  note lim = limits_by_reachable [OF assms(1)]
  have w: "?n k * i \<le> unat (rp_burst P) * i + (u - t)" for k
    unfolding i_def by (rule window_bound [OF lim server_ops_sorted [OF assms(3)]])
  have "full_responses H M G build path key es h \<le> ?n Kind_Answer + ?n Kind_Negative"
    using full_responses_allowances [of h H M G build path key es] assms(2) lim by (simp add: limits_by_def)
  then have "full_responses H M G build path key es h * i \<le> ?n Kind_Answer * i + ?n Kind_Negative * i"
    by (metis add_mult_distrib mult_le_mono1)
  also have "\<dots> \<le> 2 * (unat (rp_burst P) * i + (u - t))"
    using add_mono [OF w [of Kind_Answer] w [of Kind_Negative]] by simp
  finally show ?thesis .
qed

end

section \<open>Properties\<close>

text \<open>
  Property C18. The limiter keeps its rate over every window of time: whatever was decided and
  swept before, between the clock readings \<open>t\<close> and \<open>u\<close> the clients of one prefix are let, from
  each of the two budgets, at most the configured burst of responses and one more for every
  interval of a second divided by the configured rate, sweeps in between or not. At one instant
  this is the burst alone.
\<close>

theorem rrl_rate_bounded:
  assumes "token_bucket G bucket admit interval capacity credit"
    and "rp_responses_per_second P \<noteq> 0" and "rp_burst P \<noteq> 0"
    and "sorted (t # map op_time ops @ [u])"
  shows "allowances G key k ops (fold (op_step G) earlier (rrl_new G P)) * (10 ^ 9 div unat (rp_responses_per_second P)) \<le>
    unat (rp_burst P) * (10 ^ 9 div unat (rp_responses_per_second P)) + (u - t)"
  using token_bucket.window_bound [OF assms(1) token_bucket.limits_by_ops [OF assms(1) token_bucket.limits_by_new
      [OF assms(1-3)]] assms(4)] .

theorem rrl_rate_bounded_witness:
  "allowances gcra_lib (Key_V4 0xC0000200) Kind_Answer
     [Decide_Op (V4 0xC0000201, Kind_Answer, False, 7), Sweep_Op 8, Decide_Op (V4 0xC0000202, Kind_Answer, False, 9)]
     (fold (op_step gcra_lib) [Decide_Op (V4 0xC0000203, Kind_Answer, False, 5)] (rrl_new gcra_lib rrl_params_default)) *
     (10 ^ 9 div unat (rp_responses_per_second rrl_params_default)) \<le>
   unat (rp_burst rrl_params_default) * (10 ^ 9 div unat (rp_responses_per_second rrl_params_default)) + (10 - 6)"
  by (rule rrl_rate_bounded [OF gcra_rate.token_bucket_axioms])
    (simp_all add: rrl_params_default_def event_time_def)

text \<open>
  Property C8. The rate holds for the answers to queries. With the limiter enabled, in any state
  the sequential server can reach and whatever requests, sweeps and reloads follow, the standard
  queries over UDP from the addresses of one client prefix draw, between the clock readings \<open>t\<close>
  and \<open>u\<close>, at most twice, once per budget, the burst and the rate of the configuration the server
  was started with in full responses, delivered or not. A standard query is one whose operation is
  QUERY and that has no EDNS or EDNS version 0. Not counted, and not limited by the code, are
  the NOTIMP and BADVERS replies to other requests, which bypass the limiter, and the SERVFAIL
  after a response that could not be sent; nor are the empty truncated responses counted.
\<close>

theorem served_rate_bounded:
  assumes "token_bucket G bucket admit interval capacity credit"
    and "reachable (server_init H G build path P) (server_step H M G build path) h" and "rp_enabled P"
    and "sorted (t # concat (map event_times es) @ [u])"
  shows "full_responses H M G build path key es h * (10 ^ 9 div unat (rp_responses_per_second P)) \<le>
    2 * (unat (rp_burst P) * (10 ^ 9 div unat (rp_responses_per_second P)) + (u - t))"
  by (rule token_bucket.served_window [OF assms])

theorem served_rate_bounded_witness:
  "full_responses rfc_lib rfc_msg gcra_lib (\<lambda>_ _. None) DEFAULT_CONFIG (Key_V4 0xC0000200)
     [Ev_Request (example_request Proto_Udp Op_Query) example_request_env, Ev_Sweep 3, Ev_Reload (\<lambda>_. Inr example_file)]
     example_handler * (10 ^ 9 div unat (rp_responses_per_second rrl_params_default)) \<le>
   2 * (unat (rp_burst rrl_params_default) * (10 ^ 9 div unat (rp_responses_per_second rrl_params_default)) + (5 - 0))"
proof (rule served_rate_bounded [OF gcra_rate.token_bucket_axioms])
  have [simp]: "en_clock example_request_env = 0" by (simp add: example_request_env_def)
  show "sorted (0 # concat (map event_times
      [Ev_Request (example_request Proto_Udp Op_Query) example_request_env, Ev_Sweep 3, Ev_Reload (\<lambda>_. Inr example_file)]) @ [5])"
    by simp
  show "reachable (server_init rfc_lib gcra_lib (\<lambda>_ _. None) DEFAULT_CONFIG rrl_params_default)
      (server_step rfc_lib rfc_msg gcra_lib (\<lambda>_ _. None) DEFAULT_CONFIG) example_handler"
    by (rule reachable.start, rule example_init)
qed (simp add: rrl_params_default_def)

end
