(* ===== verification/Concurrent.thy ===== *)
theory Concurrent
  imports Rate
begin

text \<open>
  Requests in parallel. \<open>src/src/server/handler.rs\<close> and \<open>src/src/upstream.rs\<close> run as tasks of a
  multi-threaded runtime; here a request is a task that moves from one access to shared state to
  the next: loading the zones, the breaker's mutex, the semaphore, the limiter, loading the zones
  again to send. Between two accesses of one task any other task, a sweep or a reload may run. A
  reload stores new zones, and a task keeps the ones it has loaded, so the state holds every
  generation of zones. An access is atomic, as it is in the code: behind a mutex, an atomic
  operation, or one bucket of the limiter.

  The log is a history variable, written by the steps and read by none: the requests that arrive
  and what is sent for them, the operations on the limiter and the reloads, in order. The lemmas
  show that every step keeps permits, breakers and configurations consistent in every generation;
  the order the log gives the answers is in \<open>Linear\<close>.
\<close>

section \<open>Tasks\<close>

text \<open>
  Where a request is: about to ask whether the breaker of a client is open, about to take a
  permit, waiting for the upstream, about to return the permit, about to ask the limiter, about to
  send. The records are the synthesized ones until the upstream has answered.
\<close>

datatype 'n phase =
    Asking ip_addr "'n rr list"
  | Unblocked ip_addr "'n rr list"
  | Waiting ip_addr "'n rr list" 'n
  | Releasing ip_addr "'n rr list"
  | Replied "'n reply"
  | Limited decision "'n reply"

record 'n task =
  tk_request :: "'n request"
  tk_info :: "'n request_info"
  tk_gen :: nat
  tk_phase :: "'n phase"

text \<open>
  The generations of zones, the current one last, what was handed to the transport, and the log.
\<close>

datatype 'n log_entry =
    Arrives "'n request"
  | Limits limiter_op
  | Reloads file_system
  | Sends "'n request" "'n response list"

record ('n, 'l) running =
  rn_gens :: "'n zones list"
  rn_rrl :: "'l rrl"
  rn_querylog :: bool
  rn_tasks :: "'n task list"
  rn_out :: "('n request \<times> 'n response list) list"
  rn_log :: "'n log_entry list"

definition current :: "('n, 'l) running \<Rightarrow> ('n, 'l) handler" where
  "current s = handler_new (last (rn_gens s)) (rn_rrl s) (rn_querylog s)"

section \<open>Steps of a task\<close>

definition answer_reply :: "'n dns_lib \<Rightarrow> 'n config \<Rightarrow> 'n \<Rightarrow> 'n rr list \<Rightarrow> 'n reply" where
  "answer_reply H config qname records =
    (let k = (if records = [] then Kind_Negative else Kind_Answer)
     in \<lparr>re_code = NoError, re_authoritative = True, re_answers = records,
         re_authority = negative_authority H config qname k, re_kind = k\<rparr>)"

text \<open>Whether \<open>decide\<close> comes to ask an upstream, which one, and with which records to fall back on.\<close>

definition consulted ::
  "'n dns_lib \<Rightarrow> 'n zones \<Rightarrow> 'n request_info \<Rightarrow> (ip_addr \<times> 'n rr list) option" where
  "consulted H zones info =
    (if (ri_class info = CL_IN \<or> ri_class info = CL_ANY) \<and> ri_type info = RT_PTR then
       (case resolve H (zs_config zones) (ri_name info) RT_PTR of
          Answer z records \<Rightarrow>
            if records = [] then None
            else (case zn_upstream z of
                    None \<Rightarrow> None
                  | Some addr \<Rightarrow> if zs_upstreams zones addr = None then None else Some (addr, records))
        | _ \<Rightarrow> None)
     else None)"

text \<open>\<open>decide\<close> up to the call of \<open>lookup_ptr\<close>, or to its end where it asks no upstream.\<close>

definition decide_start :: "'n dns_lib \<Rightarrow> 'n zones \<Rightarrow> 'n request_info \<Rightarrow> 'n phase" where
  "decide_start H zones info =
    (case consulted H zones info of
       Some (addr, records) \<Rightarrow> Asking addr records
     | None \<Rightarrow> Replied (fst (handler_decide H zones (ri_name info) (ri_type info) (ri_class info)
         \<lparr>le_now = 0, le_result = Elapsed, le_later = 0\<rparr>)))"

definition task_new :: "'n dns_lib \<Rightarrow> ('n, 'l) running \<Rightarrow> 'n request \<Rightarrow> 'n request_info \<Rightarrow> 'n task" where
  "task_new H s request info = \<lparr>tk_request = request, tk_info = info, tk_gen = length (rn_gens s) - 1,
     tk_phase = decide_start H (last (rn_gens s)) info\<rparr>"

fun asks :: "'n phase \<Rightarrow> ip_addr option" where
  "asks (Asking addr _) = Some addr"
| "asks (Unblocked addr _) = Some addr"
| "asks (Waiting addr _ _) = Some addr"
| "asks (Releasing addr _) = Some addr"
| "asks _ = None"

text \<open>\<open>lookup_ptr\<close>, one access to the client at a time, and the rest of \<open>decide\<close>.\<close>

fun advance ::
  "'n dns_lib \<Rightarrow> 'n config \<Rightarrow> 'n \<Rightarrow> nat \<Rightarrow> 'n lookup_result \<Rightarrow> upstream \<Rightarrow> 'n phase \<Rightarrow> 'n phase \<times> upstream" where
  "advance H c q now res u (Asking addr rs) =
    (let (open_now, b) = is_open (us_breaker u) now
     in (if open_now then Replied (answer_reply H c q rs) else Unblocked addr rs, u\<lparr>us_breaker := b\<rparr>))"
| "advance H c q now res u (Unblocked addr rs) =
    (if us_permits u = 0 then (Replied (answer_reply H c q rs), u)
     else (case upstream_qname H q of None \<Rightarrow> Releasing addr rs | Some up \<Rightarrow> Waiting addr rs up,
           u\<lparr>us_permits := us_permits u - 1\<rparr>))"
| "advance H c q now res u (Waiting addr rs up) =
    (let (relayed, b) =
       (case res of
          Found answers \<Rightarrow> (filter_upstream H q up answers, record_success (us_breaker u))
        | Lookup_Error \<Rightarrow> ([], record_success (us_breaker u))
        | Elapsed \<Rightarrow> ([], snd (record_failure (us_breaker u) now)))
     in (Releasing addr (if relayed \<noteq> [] then relayed else rs), u\<lparr>us_breaker := b\<rparr>))"
| "advance H c q now res u (Releasing addr rs) =
    (Replied (answer_reply H c q rs), u\<lparr>us_permits := us_permits u + 1\<rparr>)"
| "advance H c q now res u p = (p, u)"

text \<open>The end of \<open>handle_inner\<close>, once the limiter has decided, and the guard around it.\<close>

definition respond ::
  "'n msg_lib \<Rightarrow> ('n, 'l) handler \<Rightarrow> 'n deliver \<Rightarrow> 'n request \<Rightarrow> decision \<Rightarrow> 'n reply \<Rightarrow>
   outcome_flow \<times> 'n response list" where
  "respond M h deliver request decision reply =
    (case decision of
       Allow \<Rightarrow> handler_send M h deliver (rq_metadata request) reply request (rq_protocol request = Proto_Tcp)
     | Drop \<Rightarrow> (Returned (Inr (response_from_request M (rq_metadata request))), [])
     | Truncate \<Rightarrow>
         let response = build_no_records ((response_from_request M (rq_metadata request))\<lparr>md_truncation := True\<rparr>)
         in (Returned (deliver_result deliver response), [response]))"

definition guarded ::
  "'n msg_lib \<Rightarrow> 'n deliver \<Rightarrow> 'n request \<Rightarrow> outcome_flow \<times> 'n response list \<Rightarrow> 'n response list" where
  "guarded M deliver request = (\<lambda>(flow, sent).
    (case flow of Returned (Inr _) \<Rightarrow> sent | _ \<Rightarrow> sent @ [snd (servfail M request deliver)]))"

section \<open>Steps of the server\<close>

definition put_client :: "nat \<Rightarrow> ip_addr \<Rightarrow> upstream \<Rightarrow> 'n zones list \<Rightarrow> 'n zones list" where
  "put_client g addr u gens = gens[g := (gens ! g)\<lparr>zs_upstreams := (zs_upstreams (gens ! g))(addr \<mapsto> u)\<rparr>]"

definition put_phase :: "nat \<Rightarrow> 'n phase \<Rightarrow> 'n task list \<Rightarrow> 'n task list" where
  "put_phase i p tasks = tasks[i := (tasks ! i)\<lparr>tk_phase := p\<rparr>]"

definition remove_nth :: "nat \<Rightarrow> 'a list \<Rightarrow> 'a list" where
  "remove_nth i xs = take i xs @ drop (Suc i) xs"

definition running_reload ::
  "'n dns_lib \<Rightarrow> build \<Rightarrow> file_system \<Rightarrow> string \<Rightarrow> ('n, 'l) running \<Rightarrow> ('n, 'l) running" where
  "running_reload H build fs path s =
    (case reload_zones H build fs path of
       Inr next \<Rightarrow> s\<lparr>rn_gens := rn_gens s @ [next]\<rparr>
     | Inl _ \<Rightarrow> s)"

text \<open>The limiter is asked for the source address of a request and the kind of its reply.\<close>

definition limiter_event :: "'n request \<Rightarrow> 'n reply \<Rightarrow> nat \<Rightarrow> rrl_event" where
  "limiter_event request r now = (fst (rq_src request), re_kind r, rq_protocol request = Proto_Tcp, now)"

text \<open>The steps that carry a task on.\<close>

inductive task_step ::
  "'n dns_lib \<Rightarrow> 'n msg_lib \<Rightarrow> ('q, 'l) governor \<Rightarrow> ('n, 'l) running \<Rightarrow> ('n, 'l) running \<Rightarrow> bool"
  for H M G where
  consult: "i < length (rn_tasks s) \<Longrightarrow> t = rn_tasks s ! i \<Longrightarrow> asks (tk_phase t) = Some addr \<Longrightarrow>
    zs_upstreams (rn_gens s ! tk_gen t) addr = Some u \<Longrightarrow>
    advance H (zs_config (rn_gens s ! tk_gen t)) (ri_name (tk_info t)) now res u (tk_phase t) = (p, u') \<Longrightarrow>
    task_step H M G s (s\<lparr>rn_gens := put_client (tk_gen t) addr u' (rn_gens s), rn_tasks := put_phase i p (rn_tasks s)\<rparr>)"
| limit: "i < length (rn_tasks s) \<Longrightarrow> t = rn_tasks s ! i \<Longrightarrow> tk_phase t = Replied r \<Longrightarrow>
    rrl_decide G (rn_rrl s) (fst (rq_src (tk_request t))) (re_kind r) (rq_protocol (tk_request t) = Proto_Tcp) now = (d, rrl) \<Longrightarrow>
    task_step H M G s (s\<lparr>rn_rrl := rrl, rn_tasks := put_phase i (Limited d r) (rn_tasks s),
      rn_log := rn_log s @ [Limits (Decide_Op (limiter_event (tk_request t) r now))]\<rparr>)"
| send: "i < length (rn_tasks s) \<Longrightarrow> t = rn_tasks s ! i \<Longrightarrow> tk_phase t = Limited d r \<Longrightarrow>
    sent = guarded M deliver (tk_request t) (respond M (current s) deliver (tk_request t) d r) \<Longrightarrow>
    task_step H M G s (s\<lparr>rn_tasks := remove_nth i (rn_tasks s), rn_out := rn_out s @ [(tk_request t, sent)],
      rn_log := rn_log s @ [Sends (tk_request t) sent]\<rparr>)"

inductive_cases task_stepE: "task_step H M G s s'"

text \<open>All steps: new requests, the sweeper and the reloader too.\<close>

inductive running_step ::
  "'n dns_lib \<Rightarrow> 'n msg_lib \<Rightarrow> ('q, 'l) governor \<Rightarrow> build \<Rightarrow> string \<Rightarrow>
   ('n, 'l) running \<Rightarrow> ('n, 'l) running \<Rightarrow> bool" for H M G build path where
  task: "task_step H M G s s' \<Longrightarrow> running_step H M G build path s s'"
| accept: "standard_query request info \<Longrightarrow>
    running_step H M G build path s
      (s\<lparr>rn_tasks := rn_tasks s @ [task_new H s request info], rn_log := rn_log s @ [Arrives request]\<rparr>)"
| reject: "(\<And>info. \<not> standard_query request info) \<Longrightarrow> en_reload env = None \<Longrightarrow>
    sent = fst (snd (handle_request H M G (current s) request env)) \<Longrightarrow>
    running_step H M G build path s
      (s\<lparr>rn_out := rn_out s @ [(request, sent)], rn_log := rn_log s @ [Arrives request, Sends request sent]\<rparr>)"
| sweep: "running_step H M G build path s
    (s\<lparr>rn_rrl := Rrl.sweep G (rn_rrl s) now, rn_log := rn_log s @ [Limits (Sweep_Op now)]\<rparr>)"
| reload: "running_step H M G build path s ((running_reload H build fs path s)\<lparr>rn_log := rn_log s @ [Reloads fs]\<rparr>)"

inductive_cases running_stepE: "running_step H M G build path s s'"

definition running_start :: "('n, 'l) handler \<Rightarrow> ('n, 'l) running" where
  "running_start h = \<lparr>rn_gens = [hd_zones h], rn_rrl = hd_rrl h, rn_querylog = hd_querylog h, rn_tasks = [],
    rn_out = [], rn_log = []\<rparr>"

definition running_init ::
  "'n dns_lib \<Rightarrow> ('q, 'l) governor \<Rightarrow> build \<Rightarrow> string \<Rightarrow> rrl_params \<Rightarrow> ('n, 'l) running \<Rightarrow> bool" where
  "running_init H G build path P s \<longleftrightarrow> (\<exists>h. server_init H G build path P h \<and> s = running_start h)"

section \<open>Decisions without concurrency\<close>

text \<open>
  The replies the sequential handler gives to a question over a configuration, with every client
  idle, for some behaviour of the upstream.
\<close>

definition fresh_zones :: "'n config \<Rightarrow> 'n zones" where
  "fresh_zones c = \<lparr>zs_config = c, zs_upstreams = (\<lambda>addr. Some
     \<lparr>us_addr = addr, us_permits = MAX_INFLIGHT, us_breaker = breaker_default, us_timeout = 0\<rparr>)\<rparr>"

definition sequential_reply :: "'n dns_lib \<Rightarrow> 'n config \<Rightarrow> 'n request_info \<Rightarrow> 'n reply \<Rightarrow> bool" where
  "sequential_reply H c info r \<longleftrightarrow>
     (\<exists>env. r = fst (handler_decide H (fresh_zones c) (ri_name info) (ri_type info) (ri_class info) env))"

definition consults :: "'n dns_lib \<Rightarrow> 'n config \<Rightarrow> 'n request_info \<Rightarrow> ip_addr \<Rightarrow> 'n rr list \<Rightarrow> bool" where
  "consults H c info addr rs \<longleftrightarrow> (ri_class info = CL_IN \<or> ri_class info = CL_ANY) \<and> ri_type info = RT_PTR \<and>
     (\<exists>z. resolve H c (ri_name info) RT_PTR = Answer z rs \<and> rs \<noteq> [] \<and> zn_upstream z = Some addr)"

lemma fresh_config [simp]: "zs_config (fresh_zones c) = c"
  by (simp add: fresh_zones_def)

lemma fresh_zones_ok: "wf_config H c \<Longrightarrow> wf_params (cf_params c) \<Longrightarrow> zones_ok H (fresh_zones c)"
  by (simp add: zones_ok_def fresh_zones_def clients_ok_def idle_client_def breaker_default_def breaker_inv_def
      BREAKER_THRESHOLD_def)

lemma consulted_consults:
  "consulted H zs info = Some (addr, rs) \<Longrightarrow> consults H (zs_config zs) info addr rs"
  by (auto simp: consulted_def consults_def split: if_splits outcome.splits option.splits)

lemma lookup_ptr_elapsed: "fst (lookup_ptr H u q now Elapsed later) = []"
  using lookup_ptr_records [of H u q now Elapsed later] by simp

lemma override_elapsed: "le_result env = Elapsed \<Longrightarrow> fst (upstream_override H zs z q t env rs) = rs"
  by (auto simp: upstream_override_def lookup_ptr_elapsed Let_def case_prod_beta split: option.splits)

lemma decide_elapsed:
  assumes "le_result env = Elapsed" and "zs_config zs = zs_config zs'"
  shows "fst (handler_decide H zs q t c env) = fst (handler_decide H zs' q t c env)"
  unfolding handler_decide_def Let_def case_prod_beta
  using assms by (simp add: override_elapsed split: option.splits outcome.splits out_of_zone_policy.splits)

lemma handler_decide_PTR:
  assumes "resolve H (zs_config zs) q RT_PTR = Answer z rs" and "c = CL_IN \<or> c = CL_ANY"
  shows "fst (handler_decide H zs q RT_PTR c env) =
    answer_reply H (zs_config zs) q (fst (upstream_override H zs z q RT_PTR env rs))"
  using assms by (auto simp: handler_decide_def answer_reply_def Let_def case_prod_beta)

lemma sequential_fallback:
  assumes "consults H c info addr rs"
  shows "sequential_reply H c info (answer_reply H c (ri_name info) rs)"
proof -
  let ?env = "\<lparr>le_now = 0, le_result = Elapsed, le_later = 0\<rparr>"
  from assms obtain z where r: "resolve H (zs_config (fresh_zones c)) (ri_name info) RT_PTR = Answer z rs"
    and cls: "ri_class info = CL_IN \<or> ri_class info = CL_ANY" and ty: "ri_type info = RT_PTR"
    by (auto simp: consults_def)
  from handler_decide_PTR [OF r cls, of ?env] ty show ?thesis
    by (auto simp: sequential_reply_def override_elapsed intro!: exI [of _ ?env])
qed

lemma sequential_relayed:
  assumes "consults H c info addr rs" and "upstream_qname H (ri_name info) = Some up"
    and "filter_upstream H (ri_name info) up answers \<noteq> []"
  shows "sequential_reply H c info (answer_reply H c (ri_name info) (filter_upstream H (ri_name info) up answers))"
proof -
  let ?env = "\<lparr>le_now = 0, le_result = Found answers, le_later = 0\<rparr>"
  from assms(1) obtain z where r: "resolve H (zs_config (fresh_zones c)) (ri_name info) RT_PTR = Answer z rs"
    and cls: "ri_class info = CL_IN \<or> ri_class info = CL_ANY" and ty: "ri_type info = RT_PTR"
    and z: "rs \<noteq> []" "zn_upstream z = Some addr"
    by (auto simp: consults_def)
  have "fst (upstream_override H (fresh_zones c) z (ri_name info) RT_PTR ?env rs) = filter_upstream H (ri_name info) up answers"
    using assms(2,3) z
    by (simp add: upstream_override_def fresh_zones_def lookup_ptr_def lookup_begin_def lookup_finish_def is_open_def
        breaker_default_def MAX_INFLIGHT_def Let_def)
  with handler_decide_PTR [OF r cls, of ?env] ty show ?thesis
    by (auto simp: sequential_reply_def intro!: exI [of _ ?env])
qed

lemma sequential_decided:
  "sequential_reply H (zs_config zs) info (fst (handler_decide H zs (ri_name info) (ri_type info) (ri_class info)
     \<lparr>le_now = 0, le_result = Elapsed, le_later = 0\<rparr>))"
  unfolding sequential_reply_def by (intro exI, rule decide_elapsed) simp_all

section \<open>The invariant\<close>

fun phase_ok ::
  "'n dns_lib \<Rightarrow> 'n config \<Rightarrow> 'n request_info \<Rightarrow> 'n phase \<Rightarrow> bool" where
  "phase_ok H c info (Asking addr rs) \<longleftrightarrow> consults H c info addr rs"
| "phase_ok H c info (Unblocked addr rs) \<longleftrightarrow> consults H c info addr rs"
| "phase_ok H c info (Waiting addr rs up) \<longleftrightarrow>
    consults H c info addr rs \<and> upstream_qname H (ri_name info) = Some up"
| "phase_ok H c info (Releasing addr rs) \<longleftrightarrow>
    (\<exists>rs0. consults H c info addr rs0) \<and> sequential_reply H c info (answer_reply H c (ri_name info) rs)"
| "phase_ok H c info (Replied r) \<longleftrightarrow> sequential_reply H c info r"
| "phase_ok H c info (Limited d r) \<longleftrightarrow> sequential_reply H c info r"

definition task_ok :: "'n dns_lib \<Rightarrow> 'n zones list \<Rightarrow> 'n task \<Rightarrow> bool" where
  "task_ok H gens t \<longleftrightarrow> tk_gen t < length gens \<and> standard_query (tk_request t) (tk_info t) \<and>
     phase_ok H (zs_config (gens ! tk_gen t)) (tk_info t) (tk_phase t)"

text \<open>The tasks that hold a permit of a client.\<close>

fun holds :: "ip_addr \<Rightarrow> 'n phase \<Rightarrow> bool" where
  "holds addr (Waiting a _ _) \<longleftrightarrow> a = addr"
| "holds addr (Releasing a _) \<longleftrightarrow> a = addr"
| "holds addr _ \<longleftrightarrow> False"

definition holders :: "'n task list \<Rightarrow> nat \<Rightarrow> ip_addr \<Rightarrow> nat" where
  "holders tasks g addr = length (filter (\<lambda>t. tk_gen t = g \<and> holds addr (tk_phase t)) tasks)"

definition client_ok :: "'n task list \<Rightarrow> nat \<Rightarrow> ip_addr \<Rightarrow> upstream \<Rightarrow> bool" where
  "client_ok tasks g addr u \<longleftrightarrow> us_addr u = addr \<and> breaker_inv (us_breaker u) \<and>
     us_permits u + holders tasks g addr = MAX_INFLIGHT"

definition gen_ok :: "'n dns_lib \<Rightarrow> 'n task list \<Rightarrow> nat \<Rightarrow> 'n zones \<Rightarrow> bool" where
  "gen_ok H tasks g zs \<longleftrightarrow> wf_config H (zs_config zs) \<and> wf_params (cf_params (zs_config zs)) \<and>
     (\<forall>addr u. zs_upstreams zs addr = Some u \<longrightarrow> client_ok tasks g addr u) \<and>
     (\<forall>z \<in> set (cf_zones (zs_config zs)). \<forall>addr. zn_upstream z = Some addr \<longrightarrow> zs_upstreams zs addr \<noteq> None)"

definition running_inv :: "'n dns_lib \<Rightarrow> rrl_params \<Rightarrow> ('n, 'l) running \<Rightarrow> bool" where
  "running_inv H P s \<longleftrightarrow> rn_gens s \<noteq> [] \<and> rl_params (rn_rrl s) = P \<and>
     (\<forall>g < length (rn_gens s). gen_ok H (rn_tasks s) g (rn_gens s ! g)) \<and>
     (\<forall>t \<in> set (rn_tasks s). task_ok H (rn_gens s) t)"

text \<open>What was sent and the log play no part in it.\<close>

lemma running_inv_history [simp]:
  "running_inv H P (s\<lparr>rn_log := log\<rparr>) = running_inv H P s"
  "running_inv H P (s\<lparr>rn_out := out\<rparr>) = running_inv H P s"
  by (simp_all add: running_inv_def)

section \<open>Steps keep the invariant\<close>

lemma length_filter_update:
  "i < length xs \<Longrightarrow> length (filter Q (xs[i := y])) + of_bool (Q (xs ! i)) = length (filter Q xs) + of_bool (Q y)"
proof (induction xs arbitrary: i)
  case (Cons x xs)
  then show ?case using Cons.IH [of "i - 1"] by (cases i) auto
qed simp

lemma set_remove_nth: "set (remove_nth i xs) \<subseteq> set xs"
  unfolding remove_nth_def by (auto dest: in_set_takeD in_set_dropD)

lemma length_remove_nth: "i < length xs \<Longrightarrow> Suc (length (remove_nth i xs)) = length xs"
  by (simp add: remove_nth_def)

lemma length_filter_remove_nth:
  assumes "i < length xs" and "\<not> Q (xs ! i)"
  shows "length (filter Q (remove_nth i xs)) = length (filter Q xs)"
proof -
  have "xs = take i xs @ xs ! i # drop (Suc i) xs" by (rule id_take_nth_drop [OF assms(1)])
  then have "filter Q xs = filter Q (take i xs @ xs ! i # drop (Suc i) xs)" by simp
  with assms(2) show ?thesis by (simp add: remove_nth_def)
qed

lemma put_client_length [simp]: "length (put_client g addr u gens) = length gens"
  by (simp add: put_client_def)

lemma put_client_config [simp]: "g' < length gens \<Longrightarrow> zs_config (put_client g addr u gens ! g') = zs_config (gens ! g')"
  by (cases "g = g'") (simp_all add: put_client_def)

lemma put_client_upstreams:
  "g < length gens \<Longrightarrow> g' < length gens \<Longrightarrow> zs_upstreams (put_client g addr u gens ! g') =
     (if g' = g then (zs_upstreams (gens ! g))(addr \<mapsto> u) else zs_upstreams (gens ! g'))"
  by (simp add: put_client_def nth_list_update)

lemma put_phase_length [simp]: "length (put_phase i p ts) = length ts"
  by (simp add: put_phase_def)

lemma set_put_phase: "i < length ts \<Longrightarrow> t \<in> set (put_phase i p ts) \<Longrightarrow> t \<in> set ts \<or> t = (ts ! i)\<lparr>tk_phase := p\<rparr>"
  unfolding put_phase_def using set_update_subset_insert [of ts i "(ts ! i)\<lparr>tk_phase := p\<rparr>"] by auto

lemma holders_put_phase:
  "i < length ts \<Longrightarrow> holders (put_phase i p ts) g addr + of_bool (tk_gen (ts ! i) = g \<and> holds addr (tk_phase (ts ! i))) =
     holders ts g addr + of_bool (tk_gen (ts ! i) = g \<and> holds addr p)"
  unfolding holders_def put_phase_def
  by (subst length_filter_update [where Q = "\<lambda>t. tk_gen t = g \<and> holds addr (tk_phase t)"]) simp_all

lemma holders_append [simp]: "holders (ts @ us) g addr = holders ts g addr + holders us g addr"
  by (simp add: holders_def)

lemma holds_asks: "holds addr p \<Longrightarrow> asks p = Some addr"
  by (cases p) simp_all

lemma task_gens:
  assumes "task_ok H gens t" and "length gens \<le> length gens'"
    and "\<And>g. g < length gens \<Longrightarrow> zs_config (gens' ! g) = zs_config (gens ! g)"
  shows "task_ok H gens' t"
  using assms by (auto simp: task_ok_def)

text \<open>An access to a client conserves its permits and keeps its breaker consistent.\<close>

lemma advance_client:
  assumes "advance H c q now res u p = (p', u')" and "asks p = Some addr" and "breaker_inv (us_breaker u)"
  shows "us_addr u' = us_addr u \<and> breaker_inv (us_breaker u') \<and> (asks p' = None \<or> asks p' = Some addr) \<and>
    us_permits u' + of_bool (holds addr p') = us_permits u + of_bool (holds addr p)"
proof (cases p)
  case (Asking a rs)
  with assms is_open_inv [OF assms(3), of now] show ?thesis
    by (cases "fst (is_open (us_breaker u) now)") (auto simp: case_prod_beta)
next
  case (Waiting a rs up)
  with assms record_failure_inv [OF assms(3), of now] record_success_inv [OF assms(3)] show ?thesis
    by (auto simp: case_prod_beta split: lookup_result.splits)
qed (use assms in \<open>auto split: if_splits option.splits\<close>)

lemma advance_phase:
  assumes "advance H c (ri_name info) now res u p = (p', u')" and "phase_ok H c info p"
  shows "phase_ok H c info p'"
proof (cases p)
  case (Waiting a rs up)
  define relayed where "relayed = (case res of Found answers \<Rightarrow> filter_upstream H (ri_name info) up answers | _ \<Rightarrow> [])"
  have "p' = Releasing a (if relayed \<noteq> [] then relayed else rs)"
    using assms(1) Waiting by (auto simp: relayed_def case_prod_beta split: lookup_result.splits)
  moreover have "sequential_reply H c info (answer_reply H c (ri_name info) (if relayed \<noteq> [] then relayed else rs))"
    using assms(2) Waiting sequential_fallback sequential_relayed
    by (auto simp: relayed_def split: lookup_result.splits)
  ultimately show ?thesis using assms(2) Waiting by auto
next
  case (Unblocked a rs)
  then have "consults H c info a rs" using assms(2) by simp
  with Unblocked assms(1) sequential_fallback [OF this] show ?thesis by (fastforce split: if_splits option.splits)
qed (use assms sequential_fallback in \<open>auto simp: case_prod_beta split: if_splits option.splits\<close>)

lemma decide_start_ok:
  "phase_ok H (zs_config zs) info (decide_start H zs info)"
  using sequential_decided [of H zs info] by (auto simp: decide_start_def consulted_consults split: option.splits)

lemma decide_start_holds: "\<not> holds addr (decide_start H zs info)"
  by (simp add: decide_start_def split: option.splits)

lemma running_invD:
  assumes "running_inv H P s"
  shows "rn_gens s \<noteq> []" and "rl_params (rn_rrl s) = P"
    and "\<And>g. g < length (rn_gens s) \<Longrightarrow> gen_ok H (rn_tasks s) g (rn_gens s ! g)"
    and "\<And>t. t \<in> set (rn_tasks s) \<Longrightarrow> task_ok H (rn_gens s) t"
  using assms by (auto simp: running_inv_def)

lemma gen_ok_same_holders:
  "gen_ok H ts g zs \<Longrightarrow> (\<And>addr. holders us g addr = holders ts g addr) \<Longrightarrow> gen_ok H us g zs"
  by (simp add: gen_ok_def client_ok_def)

lemma consult_inv:
  assumes inv: "running_inv H P s" and i: "i < length (rn_tasks s)" and t: "t = rn_tasks s ! i"
    and a: "asks (tk_phase t) = Some addr" and u: "zs_upstreams (rn_gens s ! tk_gen t) addr = Some u"
    and adv: "advance H (zs_config (rn_gens s ! tk_gen t)) (ri_name (tk_info t)) now res u (tk_phase t) = (p, u')"
  shows "running_inv H P
    (s\<lparr>rn_gens := put_client (tk_gen t) addr u' (rn_gens s), rn_tasks := put_phase i p (rn_tasks s)\<rparr>)"
proof -
  let ?gens = "put_client (tk_gen t) addr u' (rn_gens s)" and ?ts = "put_phase i p (rn_tasks s)"
  have tin: "t \<in> set (rn_tasks s)" using i t by simp
  note ok = running_invD(4) [OF inv tin]
  then have g: "tk_gen t < length (rn_gens s)" by (simp add: task_ok_def)
  note gok = running_invD(3) [OF inv]
  from gok [OF g] u have cok: "client_ok (rn_tasks s) (tk_gen t) addr u" by (simp add: gen_ok_def)
  then have "breaker_inv (us_breaker u)" by (simp add: client_ok_def)
  note adv' = advance_client [OF adv a this]
  have holders: "holders ?ts g' a' = holders (rn_tasks s) g' a'" if "\<not> (g' = tk_gen t \<and> a' = addr)" for g' a'
  proof (cases "g' = tk_gen t")
    case True
    with that have "\<not> holds a' p" "\<not> holds a' (tk_phase t)"
      using a adv' holds_asks [of a' p] holds_asks [of a' "tk_phase t"] by auto
    with holders_put_phase [OF i, of p g' a'] show ?thesis unfolding t by simp
  qed (use holders_put_phase [OF i, of p g' a'] t in auto)
  have "client_ok ?ts (tk_gen t) addr u'"
    using cok adv' holders_put_phase [OF i, of p "tk_gen t" addr] unfolding client_ok_def t by auto
  then have "gen_ok H ?ts g' (?gens ! g')" if "g' < length (rn_gens s)" for g'
    using gok [OF that] that g holders by (auto simp: gen_ok_def put_client_upstreams client_ok_def)
  moreover have "task_ok H ?gens t'" if "t' \<in> set ?ts" for t'
  proof -
    have "task_ok H (rn_gens s) (t\<lparr>tk_phase := p\<rparr>)"
      using ok advance_phase [OF adv] by (simp add: task_ok_def)
    with set_put_phase [OF i that] running_invD(4) [OF inv] have "task_ok H (rn_gens s) t'" unfolding t by auto
    then show ?thesis by (rule task_gens) simp_all
  qed
  ultimately show ?thesis using inv by (auto simp: running_inv_def put_client_def)
qed

lemma limit_inv:
  assumes inv: "running_inv H P s" and i: "i < length (rn_tasks s)" and t: "t = rn_tasks s ! i"
    and p: "tk_phase t = Replied r"
    and d: "rrl_decide G (rn_rrl s) (fst (rq_src (tk_request t))) (re_kind r) (rq_protocol (tk_request t) = Proto_Tcp) now = (d, rrl)"
  shows "running_inv H P (s\<lparr>rn_rrl := rrl, rn_tasks := put_phase i (Limited d r) (rn_tasks s)\<rparr>)"
proof -
  let ?ts = "put_phase i (Limited d r) (rn_tasks s)"
  have tin: "t \<in> set (rn_tasks s)" using i t by simp
  note ok = running_invD(4) [OF inv tin]
  have params: "rl_params rrl = P" using d running_invD(2) [OF inv] by (metis rrl_decide_params snd_conv)
  from ok p have "task_ok H (rn_gens s) (t\<lparr>tk_phase := Limited d r\<rparr>)" by (simp add: task_ok_def)
  with set_put_phase [OF i] running_invD(4) [OF inv] have "\<forall>t' \<in> set ?ts. task_ok H (rn_gens s) t'"
    unfolding t by blast
  moreover have "holders ?ts g addr = holders (rn_tasks s) g addr" for g addr
    using holders_put_phase [OF i, of "Limited d r" g addr] p unfolding t by simp
  ultimately show ?thesis using inv params by (auto simp: running_inv_def intro: gen_ok_same_holders)
qed

lemma send_inv:
  assumes inv: "running_inv H P s" and i: "i < length (rn_tasks s)" and t: "t = rn_tasks s ! i"
    and p: "tk_phase t = Limited d r"
  shows "running_inv H P (s\<lparr>rn_tasks := remove_nth i (rn_tasks s)\<rparr>)"
proof -
  have "holders (remove_nth i (rn_tasks s)) g addr = holders (rn_tasks s) g addr" for g addr
    unfolding holders_def by (rule length_filter_remove_nth [OF i]) (use p t in auto)
  then show ?thesis
    using inv set_remove_nth [of i "rn_tasks s"] unfolding running_inv_def by (auto intro: gen_ok_same_holders)
qed

lemma accept_inv:
  assumes inv: "running_inv H P s" and q: "standard_query request info"
  shows "running_inv H P (s\<lparr>rn_tasks := rn_tasks s @ [task_new H s request info]\<rparr>)"
proof -
  let ?t = "task_new H s request info"
  have ne: "rn_gens s \<noteq> []" by (rule running_invD(1) [OF inv])
  then have l: "last (rn_gens s) = rn_gens s ! (length (rn_gens s) - 1)" by (simp add: last_conv_nth)
  have "task_ok H (rn_gens s) ?t"
    using ne q decide_start_ok [of H "last (rn_gens s)" info] by (simp add: task_ok_def task_new_def l)
  moreover have "holders [?t] g addr = 0" for g addr
    by (simp add: holders_def task_new_def decide_start_holds)
  then have "holders (rn_tasks s @ [?t]) g addr = holders (rn_tasks s) g addr" for g addr by simp
  ultimately show ?thesis using inv by (auto simp: running_inv_def simp del: holders_append intro: gen_ok_same_holders)
qed

lemma task_holders_below: "\<forall>t \<in> set ts. tk_gen t < n \<Longrightarrow> holders ts n addr = 0"
  by (auto simp: holders_def filter_empty_conv)

lemma clients_ok_gen_ok: "zones_ok H zs \<Longrightarrow> (\<And>addr. holders ts g addr = 0) \<Longrightarrow> gen_ok H ts g zs"
  by (simp add: zones_ok_def gen_ok_def clients_ok_def idle_client_def client_ok_def)

lemma reload_inv:
  assumes inv: "running_inv H P s"
  shows "running_inv H P (running_reload H build fs path s)"
proof (cases "reload_zones H build fs path")
  case (Inr zs)
  let ?n = "length (rn_gens s)" and ?gens = "rn_gens s @ [zs]"
  have "holders (rn_tasks s) ?n addr = 0" for addr
    using running_invD(4) [OF inv] by (intro task_holders_below) (simp add: task_ok_def)
  with reload_zones_ok [OF Inr] have "gen_ok H (rn_tasks s) ?n zs" by (rule clients_ok_gen_ok)
  moreover have "task_ok H ?gens t" if "t \<in> set (rn_tasks s)" for t
    by (rule task_gens [OF running_invD(4) [OF inv that]]) (simp_all add: nth_append)
  ultimately show ?thesis
    using inv Inr by (auto simp: running_inv_def running_reload_def nth_append less_Suc_eq)
qed (use inv in \<open>simp add: running_reload_def\<close>)

lemma task_step_inv: "running_inv H P s \<Longrightarrow> task_step H M G s s' \<Longrightarrow> running_inv H P s'"
  by (erule task_stepE) (simp_all add: consult_inv limit_inv [where s = s] send_inv)

interpretation running: inductive_invariant "running_init H G build path P" "running_step H M G build path"
  "running_inv H P"
proof unfold_locales
  fix s assume "running_init H G build path P s"
  then obtain h where h: "server_init H G build path P h" and s: "s = running_start h" by (auto simp: running_init_def)
  from server.init_inv [OF h] have inv: "server_inv H P h" .
  have "gen_ok H [] 0 (hd_zones h)"
    using inv by (intro clients_ok_gen_ok) (simp_all add: server_inv_def holders_def)
  with inv s show "running_inv H P s" by (simp add: running_inv_def running_start_def server_inv_def)
next
  fix s s' assume inv: "running_inv H P s" and "running_step H M G build path s s'"
  from this(2) show "running_inv H P s'"
  proof cases
    case (sweep now)
    with inv show ?thesis by (simp add: running_inv_def Rrl.sweep_def Let_def)
  qed (use inv in \<open>auto intro: task_step_inv accept_inv reload_inv\<close>)
qed

end
