(* ===== verification/Linear.thy ===== *)
theory Linear
  imports Concurrent
begin

text \<open>
  The order of the answers of concurrent requests. The log of a run of \<open>Concurrent\<close> fixes what the
  configuration and the limiter are at any point of it, by replaying the reloads and the
  operations on the limiter; the lemmas show that whatever is sent for a request is what the
  handler of \<open>Handler\<close>, called once, sends, with the configuration at the arrival of the request
  and the limiter at the place of its one decision in the log, and that it leaves the limiter and the
  configuration the log has next.
\<close>

section \<open>Replaying the log\<close>

fun config_step :: "'n dns_lib \<Rightarrow> build \<Rightarrow> string \<Rightarrow> 'n log_entry \<Rightarrow> 'n config \<Rightarrow> 'n config" where
  "config_step H build path (Reloads fs) c =
    (case reload_zones H build fs path of Inr zs \<Rightarrow> zs_config zs | Inl _ \<Rightarrow> c)"
| "config_step H build path _ c = c"

definition config_at ::
  "'n dns_lib \<Rightarrow> build \<Rightarrow> string \<Rightarrow> ('n, 'l) handler \<Rightarrow> 'n log_entry list \<Rightarrow> 'n config" where
  "config_at H build path h log = fold (config_step H build path) log (zs_config (hd_zones h))"

fun limiter_step :: "('q, 'l) governor \<Rightarrow> 'n log_entry \<Rightarrow> 'l rrl \<Rightarrow> 'l rrl" where
  "limiter_step G (Limits x) r = op_step G x r"
| "limiter_step G _ r = r"

definition limiter_at :: "('q, 'l) governor \<Rightarrow> ('n, 'l) handler \<Rightarrow> 'n log_entry list \<Rightarrow> 'l rrl" where
  "limiter_at G h log = fold (limiter_step G) log (hd_rrl h)"

lemma config_at_append [simp]:
  "config_at H build path h (log @ [e]) = config_step H build path e (config_at H build path h log)"
  by (simp add: config_at_def)

lemma limiter_at_append [simp]: "limiter_at G h (log @ [e]) = limiter_step G e (limiter_at G h log)"
  by (simp add: limiter_at_def)

lemma limiter_at_params: "rl_params (limiter_at G h log) = rl_params (hd_rrl h)"
proof (induction log rule: rev_induct)
  case (snoc e log)
  then show ?case by (cases e) simp_all
qed (simp add: limiter_at_def)

text \<open>From one point of the log to a later one the configuration stays, or is one of a reload.\<close>

lemma config_at_later:
  obtains (same) "config_at H build path h (log @ later) = config_at H build path h log"
  | (reload) fs zs where "reload_zones H build fs path = Inr zs" "zs_config zs = config_at H build path h (log @ later)"
proof (induction later arbitrary: thesis rule: rev_induct)
  case (snoc e later)
  show thesis
  proof (cases "\<exists>fs zs. e = Reloads fs \<and> reload_zones H build fs path = Inr zs")
    case True
    then obtain fs zs where "e = Reloads fs" "reload_zones H build fs path = Inr zs" by blast
    then show thesis by (intro snoc.prems(2) [of fs zs]) (simp_all flip: append_assoc)
  next
    case False
    then have "config_at H build path h (log @ later @ [e]) = config_at H build path h (log @ later)"
      by (cases e) (simp_all flip: append_assoc split: sum.split)
    with snoc show thesis by metis
  qed
qed simp

section \<open>One call of the handler\<close>

text \<open>The responses of the sequential handler to a standard query, in the terms of a task.\<close>

lemma handle_request_respond:
  assumes "standard_query request info"
  shows "fst (snd (handle_request H M G h request env)) =
    guarded M (en_deliver env) request (respond M (handler_after H G h request info env) (en_deliver env) request
      (fst (limiter_verdict H G h request info env)) (fst (decided_reply H h info env)))"
proof -
  obtain flow sent h' where i: "handle_inner H M G h request env = (flow, sent, h')" by (metis prod_cases3)
  have "fst (snd (handle_request H M G h request env)) = guarded M (en_deliver env) request (flow, sent)"
  proof (cases "\<exists>m. flow = Returned (Inr m)")
    case True
    with i show ?thesis by (auto simp: handle_request_ok guarded_def)
  next
    case False
    then show ?thesis
      by (auto simp: handle_request_failed [OF i] guarded_def split: outcome_flow.splits sum.splits)
  qed
  moreover have "(flow, sent) = respond M (handler_after H G h request info env) (en_deliver env) request
      (fst (limiter_verdict H G h request info env)) (fst (decided_reply H h info env))"
    using assms i
    by (cases rule: handle_inner_cases [where H = H and M = M and G = G and h = h and request = request and env = env])
      (auto simp: respond_def standard_query_def)
  ultimately show ?thesis by simp
qed

lemma handler_send_cong:
  "zs_config (hd_zones h) = zs_config (hd_zones h') \<Longrightarrow>
   handler_send M h deliver m r request tcp = handler_send M h' deliver m r request tcp"
  by (simp only: handler_send_def)

lemma respond_cong:
  "zs_config (hd_zones h) = zs_config (hd_zones h') \<Longrightarrow>
   respond M h deliver request d r = respond M h' deliver request d r"
  by (simp only: respond_def handler_send_cong [of h h'])

text \<open>
  What was sent for a request after the entries \<open>l\<close> of the log is what one call of the handler
  sends: at its arrival \<open>j\<close> for the configuration, at \<open>m\<close> for the limiter.
\<close>

definition linearized ::
  "'n dns_lib \<Rightarrow> 'n msg_lib \<Rightarrow> ('q, 'l) governor \<Rightarrow> build \<Rightarrow> string \<Rightarrow> rrl_params \<Rightarrow> ('n, 'l) handler \<Rightarrow>
   'n log_entry list \<Rightarrow> 'n request \<Rightarrow> 'n response list \<Rightarrow> bool" where
  "linearized H M G build path P h0 l request sent \<longleftrightarrow>
     (\<exists>j m h h' env. j \<le> m \<and> m < length l \<and> l ! j = Arrives request \<and>
        server_inv H P h \<and> served_env H build path env \<and>
        snd (handle_request H M G h request env) = (sent, h') \<and>
        zs_config (hd_zones h) = config_at H build path h0 (take j l) \<and>
        zs_config (hd_zones h') = config_at H build path h0 l \<and>
        hd_rrl h = limiter_at G h0 (take m l) \<and> hd_rrl h' = limiter_at G h0 (take (Suc m) l))"

definition log_ok ::
  "'n dns_lib \<Rightarrow> 'n msg_lib \<Rightarrow> ('q, 'l) governor \<Rightarrow> build \<Rightarrow> string \<Rightarrow> rrl_params \<Rightarrow> ('n, 'l) handler \<Rightarrow>
   'n log_entry list \<Rightarrow> bool" where
  "log_ok H M G build path P h0 log \<longleftrightarrow>
     (\<forall>l request sent later. log = l @ Sends request sent # later \<longrightarrow> linearized H M G build path P h0 l request sent)"

lemma log_ok_append:
  assumes "log_ok H M G build path P h0 log"
    and "\<And>request sent. e = Sends request sent \<Longrightarrow> linearized H M G build path P h0 log request sent"
  shows "log_ok H M G build path P h0 (log @ [e])"
  unfolding log_ok_def
proof (intro allI impI)
  fix l request sent later
  assume eq: "log @ [e] = l @ Sends request sent # later"
  show "linearized H M G build path P h0 l request sent"
  proof (cases later rule: rev_cases)
    case Nil
    with eq assms(2) show ?thesis by simp
  next
    case (snoc later' e')
    with eq have "log = l @ Sends request sent # later'" by simp
    with assms(1) show ?thesis by (auto simp: log_ok_def)
  qed
qed

section \<open>The invariant\<close>

text \<open>A task uses the configuration at its arrival, and has its decision from its place in the log.\<close>

definition task_logged ::
  "'n dns_lib \<Rightarrow> ('q, 'l) governor \<Rightarrow> build \<Rightarrow> string \<Rightarrow> ('n, 'l) handler \<Rightarrow> 'n log_entry list \<Rightarrow> 'n zones list \<Rightarrow>
   'n task \<Rightarrow> bool" where
  "task_logged H G build path h0 log gens t \<longleftrightarrow>
     (\<exists>j < length log. log ! j = Arrives (tk_request t) \<and>
        zs_config (gens ! tk_gen t) = config_at H build path h0 (take j log) \<and>
        (\<forall>d r. tk_phase t = Limited d r \<longrightarrow>
          (\<exists>m now. j \<le> m \<and> m < length log \<and> log ! m = Limits (Decide_Op (limiter_event (tk_request t) r now)) \<and>
             d = fst (rrl_decide G (limiter_at G h0 (take m log)) (fst (rq_src (tk_request t))) (re_kind r)
               (rq_protocol (tk_request t) = Proto_Tcp) now))))"

definition logged_inv ::
  "'n dns_lib \<Rightarrow> 'n msg_lib \<Rightarrow> ('q, 'l) governor \<Rightarrow> build \<Rightarrow> string \<Rightarrow> rrl_params \<Rightarrow> ('n, 'l) handler \<Rightarrow>
   ('n, 'l) running \<Rightarrow> bool" where
  "logged_inv H M G build path P h0 s \<longleftrightarrow> running_inv H P s \<and> server_inv H P h0 \<and>
     zs_config (last (rn_gens s)) = config_at H build path h0 (rn_log s) \<and>
     rn_rrl s = limiter_at G h0 (rn_log s) \<and>
     (\<forall>t \<in> set (rn_tasks s). task_logged H G build path h0 (rn_log s) (rn_gens s) t) \<and>
     log_ok H M G build path P h0 (rn_log s)"

lemma task_logged_later:
  assumes "task_logged H G build path h0 log gens t"
    and "zs_config (gens' ! tk_gen t') = zs_config (gens ! tk_gen t)" and "tk_request t' = tk_request t"
    and "\<And>d r. tk_phase t' = Limited d r \<Longrightarrow> tk_phase t = Limited d r"
  shows "task_logged H G build path h0 (log @ later) gens' t'"
proof -
  from assms(1) obtain j where j: "j < length log" "log ! j = Arrives (tk_request t)"
    "zs_config (gens ! tk_gen t) = config_at H build path h0 (take j log)"
    and lim: "\<And>d r. tk_phase t = Limited d r \<Longrightarrow> \<exists>m now. j \<le> m \<and> m < length log \<and>
      log ! m = Limits (Decide_Op (limiter_event (tk_request t) r now)) \<and>
      d = fst (rrl_decide G (limiter_at G h0 (take m log)) (fst (rq_src (tk_request t))) (re_kind r)
        (rq_protocol (tk_request t) = Proto_Tcp) now)"
    unfolding task_logged_def by blast
  have "\<exists>m now. j \<le> m \<and> m < length (log @ later) \<and>
      (log @ later) ! m = Limits (Decide_Op (limiter_event (tk_request t') r now)) \<and>
      d = fst (rrl_decide G (limiter_at G h0 (take m (log @ later))) (fst (rq_src (tk_request t'))) (re_kind r)
        (rq_protocol (tk_request t') = Proto_Tcp) now)" if "tk_phase t' = Limited d r" for d r
  proof -
    from lim [OF assms(4) [OF that]] obtain m now where "j \<le> m" "m < length log"
      "log ! m = Limits (Decide_Op (limiter_event (tk_request t) r now))"
      "d = fst (rrl_decide G (limiter_at G h0 (take m log)) (fst (rq_src (tk_request t))) (re_kind r)
        (rq_protocol (tk_request t) = Proto_Tcp) now)" by blast
    then show ?thesis by (intro exI [of _ m] exI [of _ now]) (simp add: nth_append assms(3))
  qed
  with j assms(2,3) show ?thesis
    unfolding task_logged_def by (intro exI [of _ j]) (simp add: nth_append)
qed

lemma advance_unlimited: "advance H c q now res u p = (p', u') \<Longrightarrow> asks p = Some addr \<Longrightarrow> p' \<noteq> Limited d r"
  by (cases p) (auto simp: case_prod_beta split: if_splits option.splits)

lemma decide_start_unlimited: "decide_start H zs info \<noteq> Limited d r"
  by (simp add: decide_start_def split: option.splits)

lemma last_put_client_config [simp]:
  "gens \<noteq> [] \<Longrightarrow> zs_config (last (put_client g addr u gens)) = zs_config (last gens)"
proof -
  assume "gens \<noteq> []"
  moreover from this have "put_client g addr u gens \<noteq> []" by (simp add: put_client_def)
  ultimately show ?thesis by (simp add: last_conv_nth)
qed

section \<open>Steps keep the invariant\<close>

lemma logged_invD:
  assumes "logged_inv H M G build path P h0 s"
  shows "running_inv H P s" and "rl_params (hd_rrl h0) = P"
    and "zs_config (last (rn_gens s)) = config_at H build path h0 (rn_log s)"
    and "rn_rrl s = limiter_at G h0 (rn_log s)"
    and "\<And>t. t \<in> set (rn_tasks s) \<Longrightarrow> task_logged H G build path h0 (rn_log s) (rn_gens s) t"
    and "log_ok H M G build path P h0 (rn_log s)"
  using assms by (auto simp: logged_inv_def server_inv_def)

lemma fresh_server_inv:
  assumes "running_inv H P s" and "g < length (rn_gens s)" and "rl_params rrl = P"
  shows "server_inv H P (handler_new (fresh_zones (zs_config (rn_gens s ! g))) rrl False)"
proof -
  have "zones_ok H (fresh_zones (zs_config (rn_gens s ! g)))"
    using running_invD(3) [OF assms(1,2)] by (intro fresh_zones_ok) (simp_all add: gen_ok_def)
  with assms(3) show ?thesis by (simp add: server_inv_def handler_new_def)
qed

lemma send_linearized:
  assumes inv: "logged_inv H M G build path P h0 s" and t: "t \<in> set (rn_tasks s)" and p: "tk_phase t = Limited d r"
  shows "linearized H M G build path P h0 (rn_log s) (tk_request t)
    (guarded M deliver (tk_request t) (respond M (current s) deliver (tk_request t) d r))"
proof -
  let ?c = "zs_config (rn_gens s ! tk_gen t)" and ?l = "rn_log s"
  note ok = running_invD(4) [OF logged_invD(1) [OF inv] t]
  then have g: "tk_gen t < length (rn_gens s)" and q: "standard_query (tk_request t) (tk_info t)"
    and sr: "sequential_reply H ?c (tk_info t) r" using p by (auto simp: task_ok_def)
  from sr obtain le where r: "r = fst (handler_decide H (fresh_zones ?c) (ri_name (tk_info t)) (ri_type (tk_info t)) (ri_class (tk_info t)) le)"
    by (auto simp: sequential_reply_def)
  from logged_invD(5) [OF inv t] p obtain j m now where j: "j \<le> m" "m < length ?l" "?l ! j = Arrives (tk_request t)"
    "?c = config_at H build path h0 (take j ?l)"
    and m: "?l ! m = Limits (Decide_Op (limiter_event (tk_request t) r now))"
    and d: "d = fst (rrl_decide G (limiter_at G h0 (take m ?l)) (fst (rq_src (tk_request t))) (re_kind r)
      (rq_protocol (tk_request t) = Proto_Tcp) now)"
    unfolding task_logged_def by blast
  obtain rl where rl: "case rl of None \<Rightarrow> ?c = config_at H build path h0 ?l
    | Some next \<Rightarrow> zs_config next = config_at H build path h0 ?l \<and> (\<exists>fs. reload_zones H build fs path = Inr next)"
  proof (cases rule: config_at_later [where later = "drop j ?l" and log = "take j ?l" and H = H and build = build and path = path and h = h0])
    case same
    with j(4) show thesis by (intro that [of None]) simp
  next
    case (reload fs zs)
    then show thesis by (intro that [of "Some zs"]) auto
  qed
  define h where "h = handler_new (fresh_zones ?c) (limiter_at G h0 (take m ?l)) False"
  define env where "env = \<lparr>en_deliver = deliver, en_lookup = le, en_reload = rl, en_clock = now\<rparr>"
  define h' where "h' = handler_after H G h (tk_request t) (tk_info t) env"
  have "server_inv H P h"
    unfolding h_def by (rule fresh_server_inv [OF logged_invD(1) [OF inv] g]) (simp add: limiter_at_params logged_invD(2) [OF inv])
  have "served_env H build path env" using rl by (auto simp: served_env_def env_def)
  have reply: "fst (decided_reply H h (tk_info t) env) = r"
    by (simp add: decided_reply_def h_def env_def handler_new_def r)
  then have verdict: "fst (limiter_verdict H G h (tk_request t) (tk_info t) env) = d"
    using d by (simp add: limiter_verdict_def h_def env_def handler_new_def)
  have after: "zs_config (hd_zones h') = config_at H build path h0 ?l"
    using rl by (simp add: h'_def handler_after_def decided_reply_def handler_decide_config env_def h_def handler_new_def
        split: option.splits)
  have "hd_rrl h' = limiter_at G h0 (take (Suc m) ?l)"
    using j(2) m reply by (simp add: h'_def handler_after_def limiter_verdict_def h_def env_def handler_new_def
        take_Suc_conv_app_nth limiter_event_def)
  have cfg: "zs_config (hd_zones h') = zs_config (hd_zones (current s))"
    using after logged_invD(3) [OF inv] by (simp add: current_def handler_new_def)
  have "fst (snd (handle_request H M G h (tk_request t) env)) =
      guarded M deliver (tk_request t) (respond M (current s) deliver (tk_request t) d r)"
    unfolding handle_request_respond [OF q] h'_def [symmetric] reply verdict respond_cong [OF cfg]
    by (simp add: env_def)
  then have "snd (handle_request H M G h (tk_request t) env) =
      (guarded M deliver (tk_request t) (respond M (current s) deliver (tk_request t) d r), h')"
    by (simp only: prod_eq_iff h'_def standard_query_after [OF q] fst_conv snd_conv simp_thms)
  have "zs_config (hd_zones h) = config_at H build path h0 (take j ?l)" "hd_rrl h = limiter_at G h0 (take m ?l)"
    using j(4) by (simp_all add: h_def handler_new_def)
  show ?thesis
    unfolding linearized_def by (intro exI [of _ j] exI [of _ m] exI [of _ h] exI [of _ h'] exI [of _ env] conjI) fact+
qed

text \<open>A request that is not a standard query is answered at once.\<close>

lemma reject_linearized:
  assumes inv: "logged_inv H M G build path P h0 s" and nq: "\<And>info. \<not> standard_query request info"
  shows "linearized H M G build path P h0 (rn_log s @ [Arrives request]) request
    (fst (snd (handle_request H M G (current s) request env)))"
proof -
  let ?c = "zs_config (last (rn_gens s))" and ?env = "env\<lparr>en_reload := None\<rparr>" and ?l = "rn_log s @ [Arrives request]"
  define h where "h = handler_new (fresh_zones ?c) (rn_rrl s) False"
  have l: "last (rn_gens s) = rn_gens s ! (length (rn_gens s) - 1)" "length (rn_gens s) - 1 < length (rn_gens s)"
    using running_invD(1) [OF logged_invD(1) [OF inv]] by (simp_all add: last_conv_nth)
  have h: "server_inv H P h"
    unfolding h_def l(1) by (rule fresh_server_inv [OF logged_invD(1) [OF inv] l(2) running_invD(2) [OF logged_invD(1) [OF inv]]])
  have cfg: "zs_config (hd_zones h) = zs_config (hd_zones (current s))" by (simp add: h_def current_def handler_new_def)
  have "fst (handle_inner H M G h request ?env) = fst (handle_inner H M G (current s) request env) \<and>
      fst (snd (handle_inner H M G h request ?env)) = fst (snd (handle_inner H M G (current s) request env))"
    using nq by (auto simp: handle_inner_def standard_query_def handler_send_cong [OF cfg] Let_def case_prod_beta
        word_neq_0_conv split: sum.splits)
  then have "fst (snd (handle_request H M G (current s) request env)) = fst (snd (handle_request H M G h request ?env))"
    by (simp add: handle_request_def case_prod_beta Let_def split: outcome_flow.splits sum.splits prod.splits)
  moreover have "snd (snd (handle_request H M G h request ?env)) = h"
    unfolding handle_request_state
    by (cases rule: handle_inner_cases [where H = H and M = M and G = G and h = h and request = request and env = ?env])
      (use nq in auto)
  moreover have "served_env H build path ?env" by (simp add: served_env_def)
  ultimately show ?thesis
    using h logged_invD(3,4) [OF inv] unfolding linearized_def
    by (intro exI [of _ "length (rn_log s)"] exI [of _ h] exI [of _ ?env]) (simp add: prod_eq_iff h_def handler_new_def)
qed

lemma consult_logged:
  assumes inv: "logged_inv H M G build path P h0 s" and i: "i < length (rn_tasks s)" and t: "t = rn_tasks s ! i"
    and a: "asks (tk_phase t) = Some addr" and u: "zs_upstreams (rn_gens s ! tk_gen t) addr = Some u"
    and adv: "advance H (zs_config (rn_gens s ! tk_gen t)) (ri_name (tk_info t)) now res u (tk_phase t) = (p, u')"
  shows "logged_inv H M G build path P h0
    (s\<lparr>rn_gens := put_client (tk_gen t) addr u' (rn_gens s), rn_tasks := put_phase i p (rn_tasks s)\<rparr>)"
proof -
  let ?gens = "put_client (tk_gen t) addr u' (rn_gens s)" and ?ts = "put_phase i p (rn_tasks s)"
  note run = logged_invD(1) [OF inv]
  have gen: "tk_gen t < length (rn_gens s)" if "t \<in> set (rn_tasks s)" for t
    using running_invD(4) [OF run that] by (simp add: task_ok_def)
  have "task_logged H G build path h0 (rn_log s) ?gens t'" if "t' \<in> set ?ts" for t'
  proof -
    from set_put_phase [OF i that] obtain t0 where t0: "t0 \<in> set (rn_tasks s)" "tk_request t' = tk_request t0"
      "tk_gen t' = tk_gen t0" "\<And>d r. tk_phase t' = Limited d r \<Longrightarrow> tk_phase t0 = Limited d r"
    proof
      assume "t' = (rn_tasks s ! i)\<lparr>tk_phase := p\<rparr>"
      then show thesis using i t advance_unlimited [OF adv a] by (intro that [of t]) simp_all
    qed (use that in blast)
    with task_logged_later [OF logged_invD(5) [OF inv t0(1)], of ?gens t' "[]"] gen [OF t0(1)] show ?thesis by simp
  qed
  with inv consult_inv [OF run i t a u adv] running_invD(1) [OF run] show ?thesis by (simp add: logged_inv_def)
qed

lemma limit_logged:
  assumes inv: "logged_inv H M G build path P h0 s" and i: "i < length (rn_tasks s)" and t: "t = rn_tasks s ! i"
    and p: "tk_phase t = Replied r"
    and d: "rrl_decide G (rn_rrl s) (fst (rq_src (tk_request t))) (re_kind r) (rq_protocol (tk_request t) = Proto_Tcp) now = (d, rrl)"
  shows "logged_inv H M G build path P h0 (s\<lparr>rn_rrl := rrl, rn_tasks := put_phase i (Limited d r) (rn_tasks s),
    rn_log := rn_log s @ [Limits (Decide_Op (limiter_event (tk_request t) r now))]\<rparr>)"
proof -
  let ?e = "Limits (Decide_Op (limiter_event (tk_request t) r now))" and ?t = "t\<lparr>tk_phase := Limited d r\<rparr>"
  have tin: "t \<in> set (rn_tasks s)" using i t by simp
  from logged_invD(5) [OF inv tin] obtain j where j: "j < length (rn_log s)" "rn_log s ! j = Arrives (tk_request t)"
    "zs_config (rn_gens s ! tk_gen t) = config_at H build path h0 (take j (rn_log s))"
    unfolding task_logged_def by blast
  have "\<exists>m now. j \<le> m \<and> m < length (rn_log s @ [?e]) \<and>
      (rn_log s @ [?e]) ! m = Limits (Decide_Op (limiter_event (tk_request t) r now)) \<and>
      d = fst (rrl_decide G (limiter_at G h0 (take m (rn_log s @ [?e]))) (fst (rq_src (tk_request t))) (re_kind r)
        (rq_protocol (tk_request t) = Proto_Tcp) now)"
    using j(1) d logged_invD(4) [OF inv] by (intro exI [of _ "length (rn_log s)"] exI [of _ now]) simp
  then have "task_logged H G build path h0 (rn_log s @ [?e]) (rn_gens s) ?t"
    unfolding task_logged_def using j by (intro exI [of _ j]) (simp add: nth_append)
  moreover have "task_logged H G build path h0 (rn_log s @ [?e]) (rn_gens s) t'" if "t' \<in> set (rn_tasks s)" for t'
    by (rule task_logged_later [OF logged_invD(5) [OF inv that]]) simp_all
  ultimately have "\<forall>t' \<in> set (put_phase i (Limited d r) (rn_tasks s)). task_logged H G build path h0 (rn_log s @ [?e]) (rn_gens s) t'"
    using set_put_phase [OF i] unfolding t by blast
  moreover have "log_ok H M G build path P h0 (rn_log s @ [?e])" by (rule log_ok_append [OF logged_invD(6) [OF inv]]) simp
  ultimately show ?thesis
    using inv limit_inv [OF logged_invD(1) [OF inv] i t p d] d by (simp add: logged_inv_def limiter_event_def)
qed

lemma send_logged:
  assumes inv: "logged_inv H M G build path P h0 s" and i: "i < length (rn_tasks s)" and t: "t = rn_tasks s ! i"
    and p: "tk_phase t = Limited d r"
    and sent: "sent = guarded M deliver (tk_request t) (respond M (current s) deliver (tk_request t) d r)"
  shows "logged_inv H M G build path P h0 (s\<lparr>rn_tasks := remove_nth i (rn_tasks s),
    rn_out := rn_out s @ [(tk_request t, sent)], rn_log := rn_log s @ [Sends (tk_request t) sent]\<rparr>)"
proof -
  have tin: "t \<in> set (rn_tasks s)" using i t by simp
  have "log_ok H M G build path P h0 (rn_log s @ [Sends (tk_request t) sent])"
    using send_linearized [OF inv tin p] sent by (intro log_ok_append [OF logged_invD(6) [OF inv]]) auto
  moreover have "task_logged H G build path h0 (rn_log s @ [Sends (tk_request t) sent]) (rn_gens s) t'"
    if "t' \<in> set (remove_nth i (rn_tasks s))" for t'
    using that set_remove_nth [of i "rn_tasks s"] by (intro task_logged_later [OF logged_invD(5) [OF inv]]) auto
  ultimately show ?thesis using inv send_inv [OF logged_invD(1) [OF inv] i t p] by (simp add: logged_inv_def)
qed

text \<open>Entries that neither reload nor answer leave the tasks as they are.\<close>

lemma tasks_logged_later:
  assumes "logged_inv H M G build path P h0 s"
    and "\<And>t. t \<in> set (rn_tasks s) \<Longrightarrow> zs_config (gens' ! tk_gen t) = zs_config (rn_gens s ! tk_gen t)"
  shows "\<forall>t \<in> set (rn_tasks s). task_logged H G build path h0 (rn_log s @ later) gens' t"
  using task_logged_later [OF logged_invD(5) [OF assms(1)], of _ gens'] assms(2) by blast

lemma accept_logged:
  assumes inv: "logged_inv H M G build path P h0 s" and q: "standard_query request info"
  shows "logged_inv H M G build path P h0
    (s\<lparr>rn_tasks := rn_tasks s @ [task_new H s request info], rn_log := rn_log s @ [Arrives request]\<rparr>)"
proof -
  have ne: "rn_gens s \<noteq> []" by (rule running_invD(1) [OF logged_invD(1) [OF inv]])
  have "task_logged H G build path h0 (rn_log s @ [Arrives request]) (rn_gens s) (task_new H s request info)"
    using logged_invD(3) [OF inv] ne unfolding task_logged_def
    by (intro exI [of _ "length (rn_log s)"]) (simp add: task_new_def decide_start_unlimited last_conv_nth)
  moreover have "log_ok H M G build path P h0 (rn_log s @ [Arrives request])"
    by (rule log_ok_append [OF logged_invD(6) [OF inv]]) simp
  ultimately show ?thesis
    using inv accept_inv [OF logged_invD(1) [OF inv] q] tasks_logged_later [OF inv, of "rn_gens s"]
    by (simp add: logged_inv_def)
qed

lemma task_step_logged:
  "logged_inv H M G build path P h0 s \<Longrightarrow> task_step H M G s s' \<Longrightarrow> logged_inv H M G build path P h0 s'"
  by (erule task_stepE) (simp_all only:, (rule consult_logged limit_logged send_logged; (assumption | rule refl))+)

lemma reject_logged:
  assumes inv: "logged_inv H M G build path P h0 s" and nq: "\<And>info. \<not> standard_query request info"
    and sent: "sent = fst (snd (handle_request H M G (current s) request env))"
  shows "logged_inv H M G build path P h0
    (s\<lparr>rn_out := rn_out s @ [(request, sent)], rn_log := rn_log s @ [Arrives request, Sends request sent]\<rparr>)"
proof -
  have "log_ok H M G build path P h0 (rn_log s @ [Arrives request])"
    by (rule log_ok_append [OF logged_invD(6) [OF inv]]) simp
  then have "log_ok H M G build path P h0 ((rn_log s @ [Arrives request]) @ [Sends request sent])"
    by (rule log_ok_append) (use reject_linearized [OF inv nq] sent in simp)
  moreover have "config_at H build path h0 (rn_log s @ [Arrives request, Sends request sent]) = config_at H build path h0 (rn_log s)"
    "limiter_at G h0 (rn_log s @ [Arrives request, Sends request sent]) = limiter_at G h0 (rn_log s)"
    by (simp_all add: config_at_def limiter_at_def)
  ultimately show ?thesis
    using inv tasks_logged_later [OF inv, of "rn_gens s" "[Arrives request, Sends request sent]"] by (simp add: logged_inv_def)
qed

lemma sweep_logged:
  assumes inv: "logged_inv H M G build path P h0 s"
  shows "logged_inv H M G build path P h0 (s\<lparr>rn_rrl := Rrl.sweep G (rn_rrl s) now, rn_log := rn_log s @ [Limits (Sweep_Op now)]\<rparr>)"
proof -
  have "log_ok H M G build path P h0 (rn_log s @ [Limits (Sweep_Op now)])"
    by (rule log_ok_append [OF logged_invD(6) [OF inv]]) simp
  moreover have "running_inv H P (s\<lparr>rn_rrl := Rrl.sweep G (rn_rrl s) now\<rparr>)"
    using logged_invD(1) [OF inv] by (simp add: running_inv_def Rrl.sweep_def Let_def)
  ultimately show ?thesis
    using inv tasks_logged_later [OF inv, of "rn_gens s" "[Limits (Sweep_Op now)]"] by (simp add: logged_inv_def)
qed

lemma reload_logged:
  assumes inv: "logged_inv H M G build path P h0 s"
  shows "logged_inv H M G build path P h0 ((running_reload H build fs path s)\<lparr>rn_log := rn_log s @ [Reloads fs]\<rparr>)"
proof -
  let ?s = "running_reload H build fs path s"
  have "log_ok H M G build path P h0 (rn_log s @ [Reloads fs])"
    by (rule log_ok_append [OF logged_invD(6) [OF inv]]) simp
  moreover have "zs_config (rn_gens ?s ! tk_gen t) = zs_config (rn_gens s ! tk_gen t)" if "t \<in> set (rn_tasks s)" for t
    using running_invD(4) [OF logged_invD(1) [OF inv] that]
    by (simp add: running_reload_def task_ok_def nth_append split: sum.split)
  then have "\<forall>t \<in> set (rn_tasks s). task_logged H G build path h0 (rn_log s @ [Reloads fs]) (rn_gens ?s) t"
    by (rule tasks_logged_later [OF inv])
  moreover have "rn_tasks ?s = rn_tasks s" "rn_rrl ?s = rn_rrl s"
    "zs_config (last (rn_gens ?s)) = config_at H build path h0 (rn_log s @ [Reloads fs])"
    using logged_invD(3) [OF inv] by (simp_all add: running_reload_def split: sum.split)
  ultimately show ?thesis using inv reload_inv [OF logged_invD(1) [OF inv]] by (simp add: logged_inv_def)
qed

interpretation logged: inductive_invariant "\<lambda>s. server_init H G build path P h0 \<and> s = running_start h0"
  "running_step H M G build path" "logged_inv H M G build path P h0"
proof unfold_locales
  fix s assume init: "server_init H G build path P h0 \<and> s = running_start h0"
  then have "running_inv H P s" by (intro running.init_inv) (auto simp: running_init_def)
  with init server.init_inv [of H G build path P h0] show "logged_inv H M G build path P h0 s"
    by (simp add: logged_inv_def running_start_def log_ok_def config_at_def limiter_at_def)
next
  fix s s' assume inv: "logged_inv H M G build path P h0 s" and "running_step H M G build path s s'"
  from this(2) show "logged_inv H M G build path P h0 s'"
    by cases (use inv in \<open>simp_all add: task_step_logged accept_logged reject_logged sweep_logged reload_logged\<close>)
qed

end
