(* ===== verification/Interleave.thy ===== *)
theory Interleave
  imports Linear "HOL-Library.Multiset"
begin

text \<open>
  What the tasks of \<open>Concurrent\<close> do together and alone: they always finish, none is lost, a request
  that runs alone does what the sequential handler does, and, in any interleaving, permits,
  breakers and answers are right.
\<close>

section \<open>Tasks finish\<close>

text \<open>How many accesses a task has left, and all tasks together.\<close>

fun accesses :: "'n phase \<Rightarrow> nat" where
  "accesses (Asking _ _) = 6"
| "accesses (Unblocked _ _) = 5"
| "accesses (Waiting _ _ _) = 4"
| "accesses (Releasing _ _) = 3"
| "accesses (Replied _) = 2"
| "accesses (Limited _ _) = 1"

definition work :: "'n task list \<Rightarrow> nat" where
  "work ts = sum_list (map (\<lambda>t. accesses (tk_phase t)) ts)"

lemma accesses_pos: "0 < accesses p" and accesses_le: "accesses p \<le> 6"
  by (cases p; simp)+

lemma work_le: "work ts \<le> 6 * length ts"
proof (induction ts)
  case (Cons t ts)
  with accesses_le [of "tk_phase t"] show ?case by (simp add: work_def)
qed (simp add: work_def)

lemma work_put_phase:
  assumes "i < length ts"
  shows "work (put_phase i p ts) + accesses (tk_phase (ts ! i)) = work ts + accesses p"
proof -
  have "accesses (tk_phase (ts ! i)) \<le> work ts"
    unfolding work_def using assms elem_le_sum_list [of i "map (\<lambda>t. accesses (tk_phase t)) ts"] by simp
  then show ?thesis using assms by (simp add: work_def put_phase_def map_update sum_list_update)
qed

lemma work_remove_nth: "i < length ts \<Longrightarrow> work (remove_nth i ts) + accesses (tk_phase (ts ! i)) = work ts"
  using arg_cong [OF id_take_nth_drop [of i ts], of work] by (simp add: work_def remove_nth_def)

lemma advance_accesses: "advance H c q now res u p = (p', u') \<Longrightarrow> asks p = Some addr \<Longrightarrow> accesses p' < accesses p"
  by (cases p) (auto simp: case_prod_beta split: if_splits option.splits)

text \<open>Every step carries one task on by an access, or answers it.\<close>

definition moves_only ::
  "'n dns_lib \<Rightarrow> 'n msg_lib \<Rightarrow> ('q, 'l) governor \<Rightarrow> nat \<Rightarrow> ('n, 'l) running \<Rightarrow> ('n, 'l) running \<Rightarrow> bool" where
  "moves_only H M G i s s' \<longleftrightarrow> task_step H M G s s' \<and> i < length (rn_tasks s) \<and>
     ((\<exists>p. rn_tasks s' = put_phase i p (rn_tasks s) \<and> rn_out s' = rn_out s) \<or>
      (\<exists>sent. rn_tasks s' = remove_nth i (rn_tasks s) \<and> rn_out s' = rn_out s @ [(tk_request (rn_tasks s ! i), sent)]))"

lemma task_step_cases:
  assumes "task_step H M G s s'"
  obtains (carry) i p where "i < length (rn_tasks s)" "rn_tasks s' = put_phase i p (rn_tasks s)" "rn_out s' = rn_out s"
      "accesses p < accesses (tk_phase (rn_tasks s ! i))"
  | (answer) i sent where "i < length (rn_tasks s)" "rn_tasks s' = remove_nth i (rn_tasks s)"
      "rn_out s' = rn_out s @ [(tk_request (rn_tasks s ! i), sent)]"
  using assms
proof cases
  case (consult i t addr u now res p u')
  then show thesis using advance_accesses [OF consult(6,4)] by (intro carry [of i p]) simp_all
next
  case (limit i t r now d rrl)
  then show thesis by (intro carry [of i "Limited d r"]) simp_all
next
  case (send i t d r sent deliver)
  then show thesis by (intro answer [of i sent]) simp_all
qed

lemma task_step_work: "task_step H M G s s' \<Longrightarrow> work (rn_tasks s') < work (rn_tasks s)"
proof (erule task_step_cases)
  fix i p
  assume "i < length (rn_tasks s)" "rn_tasks s' = put_phase i p (rn_tasks s)" "accesses p < accesses (tk_phase (rn_tasks s ! i))"
  with work_put_phase [of i "rn_tasks s" p] show ?thesis by simp
next
  fix i
  assume "i < length (rn_tasks s)" "rn_tasks s' = remove_nth i (rn_tasks s)"
  with work_remove_nth [of i "rn_tasks s"] accesses_pos [of "tk_phase (rn_tasks s ! i)"] show ?thesis by simp
qed

lemma task_steps_bound: "(task_step H M G ^^ n) s s' \<Longrightarrow> n + work (rn_tasks s') \<le> work (rn_tasks s)"
proof (induction n arbitrary: s')
  case (Suc n)
  then obtain s1 where "(task_step H M G ^^ n) s s1" "task_step H M G s1 s'" by auto
  with Suc.IH [of s1] task_step_work [of H M G s1 s'] show ?case by simp
qed simp

text \<open>The requests answered and those under way are conserved.\<close>

definition requests :: "('n, 'l) running \<Rightarrow> 'n request multiset" where
  "requests s = mset (map fst (rn_out s)) + mset (map tk_request (rn_tasks s))"

lemma put_phase_requests: "i < length ts \<Longrightarrow> map tk_request (put_phase i p ts) = map tk_request ts"
  by (simp add: put_phase_def map_update list_update_same_conv)

lemma remove_nth_requests:
  assumes "i < length ts"
  shows "mset (map tk_request ts) = add_mset (tk_request (ts ! i)) (mset (map tk_request (remove_nth i ts)))"
  using arg_cong [OF id_take_nth_drop [OF assms], of "\<lambda>ts. mset (map tk_request ts)"] by (simp add: remove_nth_def)

lemma task_step_requests: "task_step H M G s s' \<Longrightarrow> requests s' = requests s"
  by (erule task_step_cases)
    (simp_all add: requests_def put_phase_requests remove_nth_requests del: mset_map)

lemma task_steps_requests: "(task_step H M G)\<^sup>*\<^sup>* s s' \<Longrightarrow> requests s' = requests s"
  by (induction rule: rtranclp_induct) (simp_all add: task_step_requests)

lemma task_steps_inv:
  "(task_step H M G)\<^sup>*\<^sup>* s s' \<Longrightarrow> running_inv H P s \<Longrightarrow> running_inv H P s'"
  by (induction rule: rtranclp_induct) (auto intro: task_step_inv)

text \<open>No task ever waits for another: each has a step of its own.\<close>

lemma consults_client:
  assumes "gen_ok H ts g zs" and "consults H (zs_config zs) info addr rs"
  obtains u where "zs_upstreams zs addr = Some u"
proof -
  from assms(2) obtain z where r: "resolve H (zs_config zs) (ri_name info) RT_PTR = Answer z rs" "rs \<noteq> []"
    and z: "zn_upstream z = Some addr" by (auto simp: consults_def)
  from r obtain a where "match_ptr H (zs_config zs) (ri_name info) = Some (z, a)" by (rule resolve_PTR_nonempty)
  then have "z \<in> set (cf_zones (zs_config zs))"
    by (auto simp: match_ptr_def split: option.splits dest: zone_for_addr_SomeD)
  with z assms(1) that show thesis unfolding gen_ok_def by blast
qed

lemma task_progress:
  assumes inv: "running_inv H P s" and i: "i < length (rn_tasks s)"
  shows "\<exists>s'. task_step H M G s s' \<and>
    ((\<exists>p. rn_tasks s' = put_phase i p (rn_tasks s) \<and> rn_out s' = rn_out s \<and> accesses p < accesses (tk_phase (rn_tasks s ! i))) \<or>
     (\<exists>sent. rn_tasks s' = remove_nth i (rn_tasks s) \<and> rn_out s' = rn_out s @ [(tk_request (rn_tasks s ! i), sent)]))"
proof -
  let ?t = "rn_tasks s ! i"
  have "task_ok H (rn_gens s) ?t" using running_invD(4) [OF inv] i by simp
  then have g: "tk_gen ?t < length (rn_gens s)"
    and p: "phase_ok H (zs_config (rn_gens s ! tk_gen ?t)) (tk_info ?t) (tk_phase ?t)"
    by (simp_all add: task_ok_def)
  show ?thesis
  proof (cases "asks (tk_phase ?t)")
    case (Some addr)
    then obtain rs where "consults H (zs_config (rn_gens s ! tk_gen ?t)) (tk_info ?t) addr rs"
      using p by (cases "tk_phase ?t") auto
    then obtain u where u: "zs_upstreams (rn_gens s ! tk_gen ?t) addr = Some u"
      by (rule consults_client [OF running_invD(3) [OF inv g]])
    obtain p' u' where adv: "advance H (zs_config (rn_gens s ! tk_gen ?t)) (ri_name (tk_info ?t)) 0 Elapsed u (tk_phase ?t) = (p', u')"
      by fastforce
    show ?thesis
      by (rule exI, rule conjI, rule task_step.consult [OF i refl Some u adv])
        (use advance_accesses [OF adv Some] in \<open>auto intro!: exI [of _ p']\<close>)
  next
    case None
    then consider r where "tk_phase ?t = Replied r" | d r where "tk_phase ?t = Limited d r" by (cases "tk_phase ?t") auto
    then show ?thesis
    proof cases
      case (1 r)
      obtain d rrl where d: "rrl_decide G (rn_rrl s) (fst (rq_src (tk_request ?t))) (re_kind r)
          (rq_protocol (tk_request ?t) = Proto_Tcp) 0 = (d, rrl)" by fastforce
      show ?thesis
        by (rule exI, rule conjI, rule task_step.limit [OF i refl 1 d]) (use 1 in \<open>auto intro!: exI [of _ "Limited d r"]\<close>)
    next
      case (2 d r)
      show ?thesis by (rule exI, rule conjI, rule task_step.send [OF i refl 2 refl]) auto
    qed
  qed
qed

text \<open>So each is answered by steps of its own, while nobody else moves.\<close>

lemma remove_put_phase: "i < length ts \<Longrightarrow> remove_nth i (put_phase i p ts) = remove_nth i ts"
  by (simp add: remove_nth_def put_phase_def)

lemma task_answers:
  assumes "running_inv H P s" and "i < length (rn_tasks s)"
  shows "\<exists>n \<le> accesses (tk_phase (rn_tasks s ! i)). \<exists>s' sent. (moves_only H M G i ^^ n) s s' \<and>
    rn_tasks s' = remove_nth i (rn_tasks s) \<and> rn_out s' = rn_out s @ [(tk_request (rn_tasks s ! i), sent)]"
  using assms
proof (induction "accesses (tk_phase (rn_tasks s ! i))" arbitrary: s rule: less_induct)
  case less
  from task_progress [OF less.prems, of M G] obtain s1 where step: "task_step H M G s s1"
    and how: "(\<exists>p. rn_tasks s1 = put_phase i p (rn_tasks s) \<and> rn_out s1 = rn_out s \<and>
        accesses p < accesses (tk_phase (rn_tasks s ! i))) \<or>
      (\<exists>sent. rn_tasks s1 = remove_nth i (rn_tasks s) \<and> rn_out s1 = rn_out s @ [(tk_request (rn_tasks s ! i), sent)])"
    by blast
  then have own: "moves_only H M G i s s1" using less.prems(2) by (auto simp: moves_only_def)
  from how show ?case
  proof (elim disjE exE conjE)
    fix p assume ts: "rn_tasks s1 = put_phase i p (rn_tasks s)" "rn_out s1 = rn_out s"
      and p: "accesses p < accesses (tk_phase (rn_tasks s ! i))"
    have t: "rn_tasks s1 ! i = (rn_tasks s ! i)\<lparr>tk_phase := p\<rparr>" "i < length (rn_tasks s1)"
      using less.prems(2) by (simp_all add: ts put_phase_def)
    have "\<exists>n \<le> accesses (tk_phase (rn_tasks s1 ! i)). \<exists>s' sent. (moves_only H M G i ^^ n) s1 s' \<and>
        rn_tasks s' = remove_nth i (rn_tasks s1) \<and> rn_out s' = rn_out s1 @ [(tk_request (rn_tasks s1 ! i), sent)]"
      using less.hyps [of s1] p t task_step_inv [OF less.prems(1) step] by simp
    then obtain n s' sent where n: "n \<le> accesses p" "(moves_only H M G i ^^ n) s1 s'"
      "rn_tasks s' = remove_nth i (rn_tasks s)" "rn_out s' = rn_out s @ [(tk_request (rn_tasks s ! i), sent)]"
      using ts t remove_put_phase [OF less.prems(2), of p] by auto
    from relpowp_Suc_I2 [OF own n(2)] n(1,3,4) p show ?thesis
      by (intro exI [of _ "Suc n"] conjI exI [of _ s'] exI [of _ sent]) simp_all
  next
    fix sent assume "rn_tasks s1 = remove_nth i (rn_tasks s)" "rn_out s1 = rn_out s @ [(tk_request (rn_tasks s ! i), sent)]"
    moreover have "(moves_only H M G i ^^ 1) s s1" unfolding relpowp_1 by (rule own)
    moreover have "1 \<le> accesses (tk_phase (rn_tasks s ! i))" using accesses_pos [of "tk_phase (rn_tasks s ! i)"] by linarith
    ultimately show ?thesis by blast
  qed
qed

section \<open>Without interference\<close>

text \<open>
  A request that runs alone does what the sequential handler does: its accesses to the client,
  one after the other, are \<open>lookup_ptr\<close>, and its steps together \<open>handle_request\<close>.
\<close>

definition advance_all ::
  "'n dns_lib \<Rightarrow> 'n config \<Rightarrow> 'n \<Rightarrow> 'n lookup_env \<Rightarrow> upstream \<Rightarrow> 'n phase \<Rightarrow> 'n phase \<times> upstream" where
  "advance_all H c q env u p =
    (let (p1, u1) = advance H c q (le_now env) (le_result env) u p;
         (p2, u2) = advance H c q (le_now env) (le_result env) u1 p1;
         (p3, u3) = advance H c q (le_later env) (le_result env) u2 p2
     in advance H c q (le_later env) (le_result env) u3 p3)"

lemma advance_all_lookup_ptr:
  "advance_all H c q env u (Asking addr rs) =
    (let (relayed, u') = lookup_ptr H u q (le_now env) (le_result env) (le_later env)
     in (Replied (answer_reply H c q (if relayed \<noteq> [] then relayed else rs)), u'))"
proof (cases "fst (is_open (us_breaker u) (le_now env)) \<or> us_permits u = 0")
  case True
  then show ?thesis
    by (auto simp: advance_all_def lookup_ptr_def lookup_begin_def Let_def case_prod_beta)
next
  case False
  then show ?thesis
    by (cases "upstream_qname H q"; cases "le_result env")
      (simp_all add: advance_all_def lookup_ptr_def lookup_begin_def lookup_finish_def Let_def case_prod_beta)
qed

lemma put_client_again [simp]: "g < length gens \<Longrightarrow> put_client g addr u' (put_client g addr u gens) = put_client g addr u' gens"
  by (simp add: put_client_def)

lemma put_client_same: "g < length gens \<Longrightarrow> zs_upstreams (gens ! g) addr = Some u \<Longrightarrow> put_client g addr u gens = gens"
  by (simp add: put_client_def fun_upd_idem)

text \<open>The state in which a single request is at a phase and its client in a state.\<close>

definition alone :: "('n, 'l) running \<Rightarrow> 'n task \<Rightarrow> ip_addr \<Rightarrow> upstream \<Rightarrow> 'n phase \<Rightarrow> ('n, 'l) running" where
  "alone s t addr u p = s\<lparr>rn_gens := put_client (tk_gen t) addr u (rn_gens s), rn_tasks := [t\<lparr>tk_phase := p\<rparr>]\<rparr>"

lemma alone_advance:
  assumes "tk_gen t < length (rn_gens s)" and "asks p = None \<or> asks p = Some addr"
    and "advance H (zs_config (rn_gens s ! tk_gen t)) (ri_name (tk_info t)) now res u p = (p', u')"
  shows "(task_step H M G)\<^sup>*\<^sup>* (alone s t addr u p) (alone s t addr u' p')"
proof (cases "asks p")
  case None
  with assms(3) show ?thesis by (cases p) auto
next
  case (Some a)
  with assms(2) have a: "asks p = Some addr" by simp
  define A where "A = alone s t addr u p"
  have A: "rn_tasks A = [t\<lparr>tk_phase := p\<rparr>]" "rn_gens A = put_client (tk_gen t) addr u (rn_gens s)"
    by (simp_all add: A_def alone_def)
  have "A\<lparr>rn_gens := put_client (tk_gen t) addr u' (rn_gens A), rn_tasks := put_phase 0 p' (rn_tasks A)\<rparr> = alone s t addr u' p'"
    unfolding A using assms(1) by (simp add: A_def alone_def put_phase_def)
  moreover have "task_step H M G A (A\<lparr>rn_gens := put_client (tk_gen (t\<lparr>tk_phase := p\<rparr>)) addr u' (rn_gens A),
      rn_tasks := put_phase 0 p' (rn_tasks A)\<rparr>)"
    using a assms(1,3) by (intro task_step.consult [where u = u and now = now and res = res])
      (simp_all add: A put_client_upstreams)
  ultimately show ?thesis by (simp add: A_def [symmetric] r_into_rtranclp)
qed

lemma advance_asks:
  "advance H c q now res u p = (p', u') \<Longrightarrow> asks p = None \<or> asks p = Some addr \<Longrightarrow> asks p' = None \<or> asks p' = Some addr"
  by (cases p) (auto simp: case_prod_beta split: if_splits option.splits)

lemma alone_advance_all:
  assumes "tk_gen t < length (rn_gens s)" and "asks p = None \<or> asks p = Some addr"
    and "advance_all H (zs_config (rn_gens s ! tk_gen t)) (ri_name (tk_info t)) env u p = (p', u')"
  shows "(task_step H M G)\<^sup>*\<^sup>* (alone s t addr u p) (alone s t addr u' p')"
proof -
  let ?adv = "advance H (zs_config (rn_gens s ! tk_gen t)) (ri_name (tk_info t))"
  obtain p1 u1 where 1: "?adv (le_now env) (le_result env) u p = (p1, u1)" by fastforce
  obtain p2 u2 where 2: "?adv (le_now env) (le_result env) u1 p1 = (p2, u2)" by fastforce
  obtain p3 u3 where 3: "?adv (le_later env) (le_result env) u2 p2 = (p3, u3)" by fastforce
  have 4: "?adv (le_later env) (le_result env) u3 p3 = (p', u')" using assms(3) 1 2 3 by (simp add: advance_all_def)
  note a1 = advance_asks [OF 1 assms(2)]
  note a2 = advance_asks [OF 2 a1]
  note a3 = advance_asks [OF 3 a2]
  show ?thesis
    by (rule rtranclp_trans [OF alone_advance [OF assms(1,2) 1] rtranclp_trans [OF alone_advance [OF assms(1) a1 2]
      rtranclp_trans [OF alone_advance [OF assms(1) a2 3] alone_advance [OF assms(1) a3 4]]]])
qed

text \<open>What \<open>decide\<close> is, for a request that asks an upstream and for one that does not.\<close>

lemma decide_consulted:
  assumes "consulted H zs info = Some (addr, rs)"
  obtains u where "zs_upstreams zs addr = Some u"
    "handler_decide H zs (ri_name info) (ri_type info) (ri_class info) env =
      (case advance_all H (zs_config zs) (ri_name info) env u (Asking addr rs) of
         (Replied r, u') \<Rightarrow> (r, zs\<lparr>zs_upstreams := (zs_upstreams zs)(addr \<mapsto> u')\<rparr>) | _ \<Rightarrow> (reply_refused, zs))"
proof -
  from assms obtain z u where z: "ri_class info = CL_IN \<or> ri_class info = CL_ANY" "ri_type info = RT_PTR"
    "resolve H (zs_config zs) (ri_name info) RT_PTR = Answer z rs" "rs \<noteq> []" "zn_upstream z = Some addr"
    and u: "zs_upstreams zs addr = Some u"
    by (auto simp: consulted_def split: if_splits outcome.splits option.splits)
  then show thesis
    by (intro that [OF u])
      (auto simp: handler_decide_def upstream_override_def advance_all_lookup_ptr answer_reply_def Let_def case_prod_beta)
qed

lemma decide_unconsulted:
  assumes "consulted H zs info = None"
  shows "handler_decide H zs (ri_name info) (ri_type info) (ri_class info) env =
    (fst (handler_decide H zs (ri_name info) (ri_type info) (ri_class info) \<lparr>le_now = 0, le_result = Elapsed, le_later = 0\<rparr>), zs)"
proof -
  have "upstream_override H zs z (ri_name info) (ri_type info) e rs = (rs, zs)"
    if "resolve H (zs_config zs) (ri_name info) (ri_type info) = Answer z rs" "ri_class info = CL_IN \<or> ri_class info = CL_ANY" for z rs e
    using assms that by (auto simp: consulted_def upstream_override_def split: option.splits if_splits)
  then show ?thesis
    by (auto simp: handler_decide_def Let_def split: option.splits outcome.splits out_of_zone_policy.splits)
qed

lemma alone_finish:
  assumes "rn_tasks s = [t]" and "tk_phase t = Replied r"
    and "rrl_decide G (rn_rrl s) (fst (rq_src (tk_request t))) (re_kind r) (rq_protocol (tk_request t) = Proto_Tcp) now = (d, rrl)"
    and sent: "sent = guarded M deliver (tk_request t) (respond M (current (s\<lparr>rn_rrl := rrl\<rparr>)) deliver (tk_request t) d r)"
  shows "(task_step H M G)\<^sup>*\<^sup>* s (s\<lparr>rn_rrl := rrl, rn_tasks := [], rn_out := rn_out s @ [(tk_request t, sent)],
    rn_log := rn_log s @ [Limits (Decide_Op (limiter_event (tk_request t) r now)), Sends (tk_request t) sent]\<rparr>)"
proof -
  let ?t = "t\<lparr>tk_phase := Limited d r\<rparr>" and ?e = "Limits (Decide_Op (limiter_event (tk_request t) r now))"
  define s1 where "s1 = s\<lparr>rn_rrl := rrl, rn_tasks := [?t], rn_log := rn_log s @ [?e]\<rparr>"
  have "task_step H M G s (s\<lparr>rn_rrl := rrl, rn_tasks := put_phase 0 (Limited d r) (rn_tasks s), rn_log := rn_log s @ [?e]\<rparr>)"
    using assms by (intro task_step.limit [where t = t]) simp_all
  then have 1: "task_step H M G s s1" using assms(1) by (simp add: put_phase_def s1_def)
  have s1: "rn_tasks s1 = [?t]" "rn_out s1 = rn_out s" "rn_log s1 = rn_log s @ [?e]" "current s1 = current (s\<lparr>rn_rrl := rrl\<rparr>)"
    by (simp_all add: s1_def current_def)
  have "task_step H M G s1 (s1\<lparr>rn_tasks := remove_nth 0 (rn_tasks s1), rn_out := rn_out s1 @ [(tk_request ?t, sent)],
      rn_log := rn_log s1 @ [Sends (tk_request ?t) sent]\<rparr>)"
    by (rule task_step.send [where t = ?t and d = d and r = r and deliver = deliver]) (simp_all add: s1 sent)
  then have 2: "task_step H M G s1 (s1\<lparr>rn_tasks := [], rn_out := rn_out s @ [(tk_request t, sent)],
      rn_log := rn_log s @ [?e, Sends (tk_request t) sent]\<rparr>)"
    by (simp add: s1 remove_nth_def)
  have "(task_step H M G)\<^sup>*\<^sup>* s (s1\<lparr>rn_tasks := [], rn_out := rn_out s @ [(tk_request t, sent)],
      rn_log := rn_log s @ [?e, Sends (tk_request t) sent]\<rparr>)"
    using 1 2 by (rule converse_rtranclp_into_rtranclp [OF _ r_into_rtranclp])
  then show ?thesis by (simp add: s1_def)
qed

lemma last_put_client:
  "gens \<noteq> [] \<Longrightarrow> last (put_client (length gens - 1) addr u gens) =
     (last gens)\<lparr>zs_upstreams := (zs_upstreams (last gens))(addr \<mapsto> u)\<rparr>"
  by (simp add: put_client_def last_list_update last_conv_nth)

text \<open>Up to the limiter: the reply is the one decided, and the current zones are those the decision leaves.\<close>

lemma alone_decides:
  assumes gens: "rn_gens s \<noteq> []" and ts: "rn_tasks s = []" and q: "standard_query request info"
    and d: "decided_reply H (current s) info env = (r, zs')"
  shows "\<exists>s1 t. (running_step H M G build path)\<^sup>*\<^sup>* s s1 \<and> rn_tasks s1 = [t] \<and> tk_request t = request \<and>
    tk_phase t = Replied r \<and> last (rn_gens s1) = zs' \<and> rn_rrl s1 = rn_rrl s \<and>
    rn_querylog s1 = rn_querylog s \<and> rn_out s1 = rn_out s"
proof -
  let ?zs = "last (rn_gens s)" and ?t = "task_new H s request info"
  define sl where "sl = s\<lparr>rn_log := rn_log s @ [Arrives request]\<rparr>"
  define s0 where "s0 = sl\<lparr>rn_tasks := [?t]\<rparr>"
  have "running_step H M G build path s (s\<lparr>rn_tasks := rn_tasks s @ [?t], rn_log := rn_log s @ [Arrives request]\<rparr>)"
    by (rule running_step.accept [OF q])
  also have "s\<lparr>rn_tasks := rn_tasks s @ [?t], rn_log := rn_log s @ [Arrives request]\<rparr> = s0"
    by (rule running.equality) (simp_all add: s0_def sl_def ts)
  finally have step: "running_step H M G build path s s0" .
  have sl: "rn_gens sl = rn_gens s" "rn_rrl sl = rn_rrl s" "rn_querylog sl = rn_querylog s" "rn_out sl = rn_out s"
    by (simp_all add: sl_def)
  have l: "?zs = rn_gens s ! tk_gen ?t" "tk_gen ?t < length (rn_gens s)"
    using gens by (simp_all add: task_new_def last_conv_nth)
  have dec: "handler_decide H ?zs (ri_name info) (ri_type info) (ri_class info) (en_lookup env) = (r, zs')"
    using d by (simp add: decided_reply_def current_def handler_new_def)
  show ?thesis
  proof (cases "consulted H ?zs info")
    case None
    from decide_unconsulted [OF this, of "en_lookup env"] dec None
    have "tk_phase ?t = Replied r" "zs' = ?zs" by (simp_all add: task_new_def decide_start_def)
    then show ?thesis using step by (intro exI [of _ s0] exI [of _ ?t]) (auto simp: s0_def sl task_new_def)
  next
    case (Some p)
    obtain addr rs where p: "p = (addr, rs)" by (cases p)
    obtain u where u: "zs_upstreams ?zs addr = Some u"
      and hd: "handler_decide H ?zs (ri_name info) (ri_type info) (ri_class info) (en_lookup env) =
        (case advance_all H (zs_config ?zs) (ri_name info) (en_lookup env) u (Asking addr rs) of
           (Replied r, u') \<Rightarrow> (r, ?zs\<lparr>zs_upstreams := (zs_upstreams ?zs)(addr \<mapsto> u')\<rparr>) | _ \<Rightarrow> (reply_refused, ?zs))"
      using decide_consulted [OF Some [unfolded p]] by blast
    obtain u' where adv: "advance_all H (zs_config ?zs) (ri_name info) (en_lookup env) u (Asking addr rs) = (Replied r, u')"
      and zs': "zs' = ?zs\<lparr>zs_upstreams := (zs_upstreams ?zs)(addr \<mapsto> u')\<rparr>"
      using hd dec by (auto simp: advance_all_lookup_ptr Let_def case_prod_beta)
    have ph: "tk_phase ?t = Asking addr rs" "tk_info ?t = info" "tk_request ?t = request"
      using Some p by (simp_all add: task_new_def decide_start_def)
    have "alone sl ?t addr u (Asking addr rs) = sl\<lparr>rn_tasks := [?t\<lparr>tk_phase := tk_phase ?t\<rparr>]\<rparr>"
      using put_client_same [OF l(2), of addr u] u l(1) ph(1) by (simp add: alone_def sl sl_def)
    then have s0: "alone sl ?t addr u (Asking addr rs) = s0" by (simp add: s0_def)
    have "(task_step H M G)\<^sup>*\<^sup>* (alone sl ?t addr u (Asking addr rs)) (alone sl ?t addr u' (Replied r))"
      by (rule alone_advance_all [where env = "en_lookup env"]) (use l adv ph in \<open>simp_all add: sl\<close>)
    then have "(running_step H M G build path)\<^sup>*\<^sup>* s0 (alone sl ?t addr u' (Replied r))"
      unfolding s0 by (rule mono_rtranclp [rule_format, rotated]) (rule running_step.task)
    with step have "(running_step H M G build path)\<^sup>*\<^sup>* s (alone sl ?t addr u' (Replied r))"
      by (rule converse_rtranclp_into_rtranclp)
    moreover have "last (rn_gens (alone sl ?t addr u' (Replied r))) = zs'"
      using last_put_client [OF gens, of addr u'] by (simp add: alone_def task_new_def zs' sl)
    ultimately show ?thesis using ph(3)
      by (intro exI [of _ "alone sl ?t addr u' (Replied r)"] exI [of _ "?t\<lparr>tk_phase := Replied r\<rparr>"]) (simp add: alone_def sl)
  qed
qed

lemma alone_handles:
  assumes "rn_gens s \<noteq> []" and "rn_tasks s = []" and q: "standard_query request info" and rl: "en_reload env = None"
  shows "\<exists>s'. (running_step H M G build path)\<^sup>*\<^sup>* s s' \<and> rn_tasks s' = [] \<and>
    current s' = snd (snd (handle_request H M G (current s) request env)) \<and>
    rn_out s' = rn_out s @ [(request, fst (snd (handle_request H M G (current s) request env)))]"
proof -
  let ?h = "current s"
  obtain r zs' where d: "decided_reply H ?h info env = (r, zs')" by fastforce
  obtain dn rrl where v: "limiter_verdict H G ?h request info env = (dn, rrl)" by fastforce
  obtain s1 t where run: "(running_step H M G build path)\<^sup>*\<^sup>* s s1" and t: "rn_tasks s1 = [t]" "tk_request t = request"
    "tk_phase t = Replied r" and s1: "last (rn_gens s1) = zs'" "rn_rrl s1 = rn_rrl s" "rn_querylog s1 = rn_querylog s"
    "rn_out s1 = rn_out s"
    using alone_decides [OF assms(1-3) d] by blast
  have "rrl_decide G (rn_rrl s1) (fst (rq_src (tk_request t))) (re_kind r) (rq_protocol (tk_request t) = Proto_Tcp)
      (en_clock env) = (dn, rrl)"
    using v d t(2) s1(2) by (simp add: limiter_verdict_def current_def handler_new_def)
  note fin = alone_finish [where M = M and deliver = "en_deliver env" and H = H, OF t(1,3) this refl]
  have after: "current (s1\<lparr>rn_rrl := rrl\<rparr>) = handler_after H G ?h request info env"
    using s1 d v rl by (simp add: current_def handler_after_def handler_new_def)
  let ?sent = "guarded M (en_deliver env) (tk_request t) (respond M (current (s1\<lparr>rn_rrl := rrl\<rparr>)) (en_deliver env) (tk_request t) dn r)"
  let ?s' = "s1\<lparr>rn_rrl := rrl, rn_tasks := [], rn_out := rn_out s1 @ [(tk_request t, ?sent)],
    rn_log := rn_log s1 @ [Limits (Decide_Op (limiter_event (tk_request t) r (en_clock env))), Sends (tk_request t) ?sent]\<rparr>"
  have "(running_step H M G build path)\<^sup>*\<^sup>* s1 ?s'"
    using fin by (rule mono_rtranclp [rule_format, rotated]) (rule running_step.task)
  with run have "(running_step H M G build path)\<^sup>*\<^sup>* s ?s'" by (rule rtranclp_trans)
  moreover have "current ?s' = handler_after H G ?h request info env" using after by (simp add: current_def)
  moreover have "rn_out ?s' = rn_out s @ [(request, fst (snd (handle_request H M G ?h request env)))]"
    using t(2) s1(4) d v after by (simp add: handle_request_respond [OF q])
  moreover have "rn_tasks ?s' = []" by simp
  ultimately show ?thesis unfolding standard_query_after [OF q] by blast
qed

section \<open>An example\<close>

text \<open>A configuration with an upstream, and a request that comes to wait for it.\<close>

definition relay_file :: bytes where
  "relay_file = example_file @ ''  with upstream 127.0.0.1'' @ [CHR 0x0A]"

definition relay_handler :: "(rfc_name, gcra_state) handler" where
  "relay_handler = handler_new relay_zones (rrl_new gcra_lib rrl_params_default) False"

definition relay_name :: rfc_name where
  "relay_name = (map (\<lambda>c. [c]) ''a20000000000000000000000'' @ map (\<lambda>c. [c]) ''8bd01002'' @ [''ip6'', ''arpa''], True)"

definition relay_info :: "rfc_name request_info" where
  "relay_info = \<lparr>ri_name = relay_name, ri_type = RT_PTR, ri_class = CL_IN\<rparr>"

definition relay_request :: "rfc_name request" where
  "relay_request = (example_request Proto_Udp Op_Query)\<lparr>rq_info := Inr relay_info\<rparr>"

lemma relay_file_config: "config_parse rfc_lib relay_file = Inr (zs_config relay_zones)"
  by code_simp

lemma relay_init: "server_init rfc_lib gcra_lib (\<lambda>_ _. None) DEFAULT_CONFIG rrl_params_default relay_handler"
proof -
  have "zones_new (\<lambda>_ _. None) (zs_config relay_zones) = Inr relay_zones"
    by (simp add: zones_new_def relay_zones_def example_config_def config_default_def upstream_new_def MAX_INFLIGHT_def
        server_params_default_def)
  moreover have "cf_listen (zs_config relay_zones) = []" "sp_rrl (cf_params (zs_config relay_zones)) = rrl_params_default"
    by (simp_all add: relay_zones_def example_config_def config_default_def server_params_default_def)
  ultimately show ?thesis
    using example_start_init [OF _ _ relay_file_config, of "\<lambda>_ _. None" relay_zones gcra_lib] by (simp add: relay_handler_def)
qed

lemma relay_standard: "standard_query relay_request relay_info"
  by (simp add: standard_query_def relay_request_def example_request_def rq_version_def)

lemma relay_starts: "\<exists>rs. decide_start rfc_lib relay_zones relay_info = Asking (V4 0x7F000001) rs"
proof -
  obtain rs where "resolve rfc_lib (zs_config relay_zones) relay_name RT_PTR =
      Answer (example_zone\<lparr>zn_upstream := Some (V4 0x7F000001)\<rparr>) rs" "rs \<noteq> []"
    using rfc.resolve_reverse [OF wf_relay_config _ relay_match_ptr, of RT_PTR]
    by (auto simp: reverse_has_type_def relay_name_def)
  then show ?thesis
    by (simp add: decide_start_def consulted_def relay_info_def, simp add: relay_zones_def)
qed

definition relay_asking :: "(rfc_name, gcra_state) running" where
  "relay_asking = (running_start relay_handler)\<lparr>
     rn_tasks := [task_new rfc_lib (running_start relay_handler) relay_request relay_info], rn_log := [Arrives relay_request]\<rparr>"

lemma relay_asking_reachable:
  "reachable (running_init rfc_lib gcra_lib (\<lambda>_ _. None) DEFAULT_CONFIG rrl_params_default)
     (running_step rfc_lib M gcra_lib (\<lambda>_ _. None) DEFAULT_CONFIG) relay_asking"
proof (rule reachable.move, rule reachable.start)
  show "running_init rfc_lib gcra_lib (\<lambda>_ _. None) DEFAULT_CONFIG rrl_params_default (running_start relay_handler)"
    using relay_init by (auto simp: running_init_def)
  show "running_step rfc_lib M gcra_lib (\<lambda>_ _. None) DEFAULT_CONFIG (running_start relay_handler) relay_asking"
    using running_step.accept [OF relay_standard, of rfc_lib M gcra_lib "\<lambda>_ _. None" DEFAULT_CONFIG "running_start relay_handler"]
    by (simp add: relay_asking_def running_start_def)
qed

lemma reachable_task_step:
  assumes "reachable init (running_step H M G build path) s" and "task_step H M G s s'"
  shows "reachable init (running_step H M G build path) s'"
  by (rule reachable.move [OF assms(1) running_step.task [OF assms(2)]])

lemma relay_waiting_reachable:
  obtains s u where "reachable (running_init rfc_lib gcra_lib (\<lambda>_ _. None) DEFAULT_CONFIG rrl_params_default)
     (running_step rfc_lib M gcra_lib (\<lambda>_ _. None) DEFAULT_CONFIG) s"
    "length (rn_gens s) = 1" "zs_upstreams (rn_gens s ! 0) (V4 0x7F000001) = Some u" "holders (rn_tasks s) 0 (V4 0x7F000001) = 1"
proof -
  let ?a = "V4 0x7F000001" and ?step = "running_step rfc_lib M gcra_lib (\<lambda>_ _. None) DEFAULT_CONFIG"
  let ?u = "\<lparr>us_addr = ?a, us_permits = 64, us_breaker = breaker_default, us_timeout = 300\<rparr>"
  obtain rs where rs: "decide_start rfc_lib relay_zones relay_info = Asking ?a rs" using relay_starts by blast
  define t where "t = \<lparr>tk_request = relay_request, tk_info = relay_info, tk_gen = 0, tk_phase = Asking ?a rs\<rparr>"
  have ts: "rn_tasks relay_asking = [t]" and gens: "rn_gens relay_asking = [relay_zones]"
    by (simp_all add: relay_asking_def running_start_def task_new_def relay_handler_def handler_new_def rs t_def)
  have u: "zs_upstreams relay_zones ?a = Some ?u" by (simp add: relay_zones_def)
  have "upstream_qname rfc_lib relay_name \<noteq> None" by code_simp
  then obtain up where up: "upstream_qname rfc_lib relay_name = Some up" by blast
  let ?s1 = "relay_asking\<lparr>rn_gens := put_client 0 ?a ?u [relay_zones], rn_tasks := put_phase 0 (Unblocked ?a rs) [t]\<rparr>"
  let ?u2 = "?u\<lparr>us_permits := 63\<rparr>"
  let ?s2 = "?s1\<lparr>rn_gens := put_client 0 ?a ?u2 (rn_gens ?s1), rn_tasks := put_phase 0 (Waiting ?a rs up) (rn_tasks ?s1)\<rparr>"
  have step1: "task_step rfc_lib M gcra_lib relay_asking ?s1"
    using task_step.consult [of 0 relay_asking t ?a ?u rfc_lib 0 Elapsed "Unblocked ?a rs" ?u M gcra_lib] u
    by (simp add: ts gens t_def is_open_def breaker_default_def)
  have step2: "task_step rfc_lib M gcra_lib ?s1 ?s2"
    using task_step.consult [of 0 ?s1 "t\<lparr>tk_phase := Unblocked ?a rs\<rparr>" ?a ?u rfc_lib 0 Elapsed "Waiting ?a rs up" ?u2 M gcra_lib] u up
    by (simp add: t_def put_phase_def put_client_def relay_info_def)
  have "reachable (running_init rfc_lib gcra_lib (\<lambda>_ _. None) DEFAULT_CONFIG rrl_params_default) ?step ?s2"
    by (rule reachable_task_step [OF reachable_task_step [OF relay_asking_reachable step1] step2])
  then show thesis
    by (rule that) (simp_all add: put_phase_def put_client_def holders_def t_def)
qed

text \<open>The same request, with a reload before it asks.\<close>

lemma example_reload: "reload_zones rfc_lib (\<lambda>_ _. None) (\<lambda>_. Inr example_file) path = Inr example_zones"
  by (simp add: reload_zones_def load_config_def example_file_config zones_new_def example_zones_def example_config_def
      config_default_def example_zone_def)

lemma alone_finish_log:
  assumes "rn_tasks s = [t]" and "tk_phase t = Replied r"
  obtains s' x sent where "(task_step H M G)\<^sup>*\<^sup>* s s'" "rn_log s' = rn_log s @ [Limits x, Sends (tk_request t) sent]"
proof -
  obtain d rrl where "rrl_decide G (rn_rrl s) (fst (rq_src (tk_request t))) (re_kind r) (rq_protocol (tk_request t) = Proto_Tcp) 0 = (d, rrl)"
    by fastforce
  from that [OF alone_finish [OF assms this refl]] show thesis by simp
qed

lemma relay_reload_run:
  "\<exists>s x sent. (running_step rfc_lib M gcra_lib (\<lambda>_ _. None) DEFAULT_CONFIG)\<^sup>*\<^sup>* (running_start relay_handler) s \<and>
     rn_log s = [Arrives relay_request, Reloads (\<lambda>_. Inr example_file), Limits x, Sends relay_request sent]"
proof -
  let ?step = "running_step rfc_lib M gcra_lib (\<lambda>_ _. None) DEFAULT_CONFIG" and ?fs = "\<lambda>_. Inr example_file" and ?a = "V4 0x7F000001"
  let ?u = "\<lparr>us_addr = ?a, us_permits = 64, us_breaker = breaker_default, us_timeout = 300\<rparr>"
  let ?env = "\<lparr>le_now = 0, le_result = Elapsed, le_later = 1\<rparr>"
  obtain rs where rs: "decide_start rfc_lib relay_zones relay_info = Asking ?a rs" using relay_starts by blast
  define t where "t = \<lparr>tk_request = relay_request, tk_info = relay_info, tk_gen = 0, tk_phase = Asking ?a rs\<rparr>"
  define s1 where "s1 = (running_reload rfc_lib (\<lambda>_ _. None) ?fs DEFAULT_CONFIG relay_asking)\<lparr>
    rn_log := rn_log relay_asking @ [Reloads ?fs]\<rparr>"
  have 1: "?step (running_start relay_handler) relay_asking"
    using running_step.accept [OF relay_standard, of rfc_lib M gcra_lib "\<lambda>_ _. None" DEFAULT_CONFIG "running_start relay_handler"]
    by (simp add: relay_asking_def running_start_def)
  have 2: "?step relay_asking s1" unfolding s1_def by (rule running_step.reload)
  have s1: "rn_gens s1 = [relay_zones, example_zones]" "rn_tasks s1 = [t]" "rn_log s1 = [Arrives relay_request, Reloads ?fs]"
    by (simp_all add: s1_def running_reload_def example_reload relay_asking_def running_start_def task_new_def
        relay_handler_def handler_new_def rs t_def)
  obtain r u' where adv: "advance_all rfc_lib (zs_config relay_zones) relay_name ?env ?u (Asking ?a rs) = (Replied r, u')"
    by (simp add: advance_all_lookup_ptr Let_def case_prod_beta)
  have "zs_upstreams relay_zones ?a = Some ?u" by (simp add: relay_zones_def)
  then have "put_client 0 ?a ?u [relay_zones, example_zones] = [relay_zones, example_zones]"
    by (simp add: put_client_def fun_upd_idem)
  then have start: "alone s1 t ?a ?u (Asking ?a rs) = s1"
    by (intro running.equality) (simp_all add: alone_def s1 t_def)
  have "(task_step rfc_lib M gcra_lib)\<^sup>*\<^sup>* (alone s1 t ?a ?u (Asking ?a rs)) (alone s1 t ?a u' (Replied r))"
    by (rule alone_advance_all [where env = ?env]) (use adv in \<open>simp_all add: s1 t_def relay_info_def\<close>)
  note 3 = this [unfolded start]
  obtain s3 x sent where 4: "(task_step rfc_lib M gcra_lib)\<^sup>*\<^sup>* (alone s1 t ?a u' (Replied r)) s3"
    and log: "rn_log s3 = rn_log (alone s1 t ?a u' (Replied r)) @ [Limits x, Sends (tk_request (t\<lparr>tk_phase := Replied r\<rparr>)) sent]"
    by (rule alone_finish_log [of "alone s1 t ?a u' (Replied r)" "t\<lparr>tk_phase := Replied r\<rparr>" r rfc_lib M gcra_lib]) (simp_all add: alone_def)
  have "?step\<^sup>*\<^sup>* s1 s3"
    using rtranclp_trans [OF 3 4] by (rule mono_rtranclp [rule_format, rotated]) (rule running_step.task)
  with 1 2 have "?step\<^sup>*\<^sup>* (running_start relay_handler) s3" by (meson converse_rtranclp_into_rtranclp)
  moreover have "rn_log s3 = [Arrives relay_request, Reloads ?fs, Limits x, Sends relay_request sent]"
    using log by (simp add: s1 alone_def t_def)
  ultimately show ?thesis by blast
qed

section \<open>Properties\<close>

text \<open>
  Property C7. Concurrency leaks nothing and breaks nothing: whatever the interleaving of
  requests, sweeps and reloads, every generation of zones, also one a reload has replaced while
  requests still use it, is a well-formed configuration with parameters in range; for each of its
  clients the free permits and the requests holding one add up to 64, and the breaker is closed
  exactly while fewer than eight consecutive timeouts have been counted; and a request whose turn
  it is to be answered is answered without a panic.
\<close>

theorem concurrent_server_healthy:
  assumes "reachable (running_init H G build path P) (running_step H M G build path) s"
    and "g < length (rn_gens s)"
  shows "wf_config H (zs_config (rn_gens s ! g)) \<and> wf_params (cf_params (zs_config (rn_gens s ! g))) \<and>
    (\<forall>addr u. zs_upstreams (rn_gens s ! g) addr = Some u \<longrightarrow>
       us_permits u + holders (rn_tasks s) g addr = 64 \<and>
       (br_open_until (us_breaker u) = None \<longleftrightarrow> br_consecutive_failures (us_breaker u) < 8)) \<and>
    fst (respond M (current s) deliver request d r) \<noteq> Panicked"
proof -
  note inv = running.invariant [OF assms(1)]
  note gen = running_invD(3) [OF inv]
  have l: "last (rn_gens s) = rn_gens s ! (length (rn_gens s) - 1)" "length (rn_gens s) - 1 < length (rn_gens s)"
    using running_invD(1) [OF inv] by (simp_all add: last_conv_nth)
  have "512 \<le> payload_limit (hd_zones (current s))"
    using gen [OF l(2)] by (simp add: gen_ok_def wf_params_def payload_limit_def current_def handler_new_def l(1))
  then have "fst (respond M (current s) deliver request d r) \<noteq> Panicked"
    by (cases d) (simp_all add: respond_def handler_send_Returned Let_def)
  then show ?thesis
    using gen [OF assms(2)] by (simp add: gen_ok_def client_ok_def breaker_inv_def MAX_INFLIGHT_def BREAKER_THRESHOLD_def)
qed

theorem concurrent_server_healthy_witness:
  "\<exists>s u. reachable (running_init rfc_lib gcra_lib (\<lambda>_ _. None) DEFAULT_CONFIG rrl_params_default)
     (running_step rfc_lib rfc_msg gcra_lib (\<lambda>_ _. None) DEFAULT_CONFIG) s \<and>
     zs_upstreams (rn_gens s ! 0) (V4 0x7F000001) = Some u \<and> us_permits u = 63"
proof -
  obtain s u where r: "reachable (running_init rfc_lib gcra_lib (\<lambda>_ _. None) DEFAULT_CONFIG rrl_params_default)
     (running_step rfc_lib rfc_msg gcra_lib (\<lambda>_ _. None) DEFAULT_CONFIG) s"
    and s: "length (rn_gens s) = 1" "zs_upstreams (rn_gens s ! 0) (V4 0x7F000001) = Some u" "holders (rn_tasks s) 0 (V4 0x7F000001) = 1"
    by (rule relay_waiting_reachable)
  have "0 < length (rn_gens s)" using s(1) by simp
  from concurrent_server_healthy [OF r this] s(2) have "us_permits u + holders (rn_tasks s) 0 (V4 0x7F000001) = 64" by blast
  with s(3) have "us_permits u = 63" by simp
  with r s(2) show ?thesis by blast
qed

text \<open>
  Property C6. Concurrency is invisible in the answers. Whatever is sent for a request, in any interleaving with
  other requests, sweeps and reloads, is what one call of the sequential handler sends, in a
  healthy state of the server: with the configuration in force when the request arrived, and
  with the limiter as it stood at one point between its arrival and its answer. That call leaves
  the limiter as the log of the run has it after this point, and the configuration in force
  when the answer is sent. The upstream may have answered anything.
\<close>

theorem concurrent_responses_sequential:
  assumes "server_init H G build path P h0"
    and "(running_step H M G build path)\<^sup>*\<^sup>* (running_start h0) s"
    and "rn_log s = l @ Sends request sent # later"
  shows "\<exists>j m h h' env. j \<le> m \<and> m < length l \<and> l ! j = Arrives request \<and>
    server_inv H P h \<and> served_env H build path env \<and>
    snd (handle_request H M G h request env) = (sent, h') \<and>
    zs_config (hd_zones h) = config_at H build path h0 (take j l) \<and>
    zs_config (hd_zones h') = config_at H build path h0 l \<and>
    hd_rrl h = limiter_at G h0 (take m l) \<and> hd_rrl h' = limiter_at G h0 (take (Suc m) l)"
proof -
  have "reachable (\<lambda>s. server_init H G build path P h0 \<and> s = running_start h0) (running_step H M G build path) s"
    using assms(2) by (induction rule: rtranclp_induct) (auto intro: reachable.intros assms(1))
  from logged_invD(6) [OF logged.invariant [OF this]] assms(3) show ?thesis by (simp add: log_ok_def linearized_def)
qed

text \<open>A request that asks an upstream while a reload replaces the configuration.\<close>

theorem concurrent_responses_sequential_witness:
  "\<exists>s l sent h h' env. (running_step rfc_lib rfc_msg gcra_lib (\<lambda>_ _. None) DEFAULT_CONFIG)\<^sup>*\<^sup>* (running_start relay_handler) s \<and>
     rn_log s = l @ [Sends relay_request sent] \<and>
     snd (handle_request rfc_lib rfc_msg gcra_lib h relay_request env) = (sent, h') \<and>
     zs_config (hd_zones h) = zs_config relay_zones \<and> zs_config (hd_zones h') = example_config"
proof -
  obtain s x sent where run: "(running_step rfc_lib rfc_msg gcra_lib (\<lambda>_ _. None) DEFAULT_CONFIG)\<^sup>*\<^sup>* (running_start relay_handler) s"
    and log: "rn_log s = [Arrives relay_request, Reloads (\<lambda>_. Inr example_file), Limits x] @ [Sends relay_request sent]"
    using relay_reload_run [of rfc_msg] unfolding append_Cons append_Nil by blast
  let ?l = "[Arrives relay_request, Reloads (\<lambda>_. Inr example_file), Limits x]"
  from concurrent_responses_sequential [OF relay_init run log] obtain j m h h' env where
    j: "j \<le> m" "m < length ?l" "?l ! j = Arrives relay_request"
    and h: "snd (handle_request rfc_lib rfc_msg gcra_lib h relay_request env) = (sent, h')"
      "zs_config (hd_zones h) = config_at rfc_lib (\<lambda>_ _. None) DEFAULT_CONFIG relay_handler (take j ?l)"
      "zs_config (hd_zones h') = config_at rfc_lib (\<lambda>_ _. None) DEFAULT_CONFIG relay_handler ?l" by blast
  have "j \<in> {0, 1, 2}" using j(1,2) by auto
  with j(3) have "j = 0" by auto
  with h(2,3) have "zs_config (hd_zones h) = zs_config relay_zones" "zs_config (hd_zones h') = example_config"
    by (simp_all add: config_at_def relay_handler_def handler_new_def example_reload, simp add: example_zones_def)
  with run log h(1) show ?thesis by blast
qed

text \<open>
  Property C9. Requests always finish, and none is lost. No request ever waits for another: however the
  others stand, each one under way can be answered by at most six steps of its own, in which
  nobody else moves. All together take at most six steps for each request under way; and when
  they have come to an end, every one of them has been answered exactly once, or silently
  dropped by the limiter, and every client of every generation has all its 64 permits back.
\<close>

theorem requests_always_finish:
  assumes "reachable (running_init H G build path P) (running_step H M G build path) s"
  shows "(\<forall>i < length (rn_tasks s). \<exists>n \<le> 6. \<exists>s' sent. (moves_only H M G i ^^ n) s s' \<and>
      rn_tasks s' = remove_nth i (rn_tasks s) \<and> rn_out s' = rn_out s @ [(tk_request (rn_tasks s ! i), sent)]) \<and>
    (\<forall>n s'. (task_step H M G ^^ n) s s' \<longrightarrow> n \<le> 6 * length (rn_tasks s)) \<and>
    (\<forall>s'. (task_step H M G)\<^sup>*\<^sup>* s s' \<and> (\<nexists>s''. task_step H M G s' s'') \<longrightarrow>
       rn_tasks s' = [] \<and>
       mset (map fst (rn_out s')) = mset (map fst (rn_out s)) + mset (map tk_request (rn_tasks s)) \<and>
       (\<forall>zs addr u. zs \<in> set (rn_gens s') \<and> zs_upstreams zs addr = Some u \<longrightarrow> us_permits u = 64))"
proof (intro conjI allI impI)
  note inv = running.invariant [OF assms]
  show "\<exists>n \<le> 6. \<exists>s' sent. (moves_only H M G i ^^ n) s s' \<and> rn_tasks s' = remove_nth i (rn_tasks s) \<and>
      rn_out s' = rn_out s @ [(tk_request (rn_tasks s ! i), sent)]" if "i < length (rn_tasks s)" for i
    using task_answers [OF inv that, of M G] accesses_le [of "tk_phase (rn_tasks s ! i)"] order_trans by blast
  show "n \<le> 6 * length (rn_tasks s)" if "(task_step H M G ^^ n) s s'" for n s'
    using task_steps_bound [OF that] work_le [of "rn_tasks s"] by linarith
  fix s' assume s': "(task_step H M G)\<^sup>*\<^sup>* s s' \<and> (\<nexists>s''. task_step H M G s' s'')"
  then have inv': "running_inv H P s'" using task_steps_inv inv by blast
  then show empty: "rn_tasks s' = []" using task_progress [OF inv', of 0] s' by blast
  with task_steps_requests [of H M G s s'] s'
  show "mset (map fst (rn_out s')) = mset (map fst (rn_out s)) + mset (map tk_request (rn_tasks s))"
    by (simp add: requests_def)
  show "us_permits u = 64" if "zs \<in> set (rn_gens s') \<and> zs_upstreams zs addr = Some u" for zs addr u
  proof -
    from that obtain g where g: "g < length (rn_gens s')" "zs = rn_gens s' ! g" by (auto simp: in_set_conv_nth)
    with running_invD(3) [OF inv' g(1)] that empty show ?thesis
      by (simp add: gen_ok_def client_ok_def holders_def MAX_INFLIGHT_def)
  qed
qed

theorem requests_always_finish_witness:
  "\<exists>n \<le> 6. \<exists>s' sent. (moves_only rfc_lib rfc_msg gcra_lib 0 ^^ n) relay_asking s' \<and>
     rn_tasks s' = [] \<and> rn_out s' = [(relay_request, sent)]"
proof -
  have ts: "0 < length (rn_tasks relay_asking)" "remove_nth 0 (rn_tasks relay_asking) = []" "rn_out relay_asking = []"
    "tk_request (rn_tasks relay_asking ! 0) = relay_request"
    by (simp_all add: relay_asking_def running_start_def remove_nth_def task_new_def)
  from requests_always_finish [OF relay_asking_reachable, of rfc_msg, THEN conjunct1, rule_format, OF ts(1)]
  show ?thesis by (simp add: ts)
qed

end
