(* ===== verification/Spec2Isabelle.thy ===== *)
theory Spec2Isabelle
  imports Zone_Data Synthesis Parse_Print Readback Process Rate Interleave
begin

text \<open>
  PanoptiDNS is an authoritative DNS server that synthesizes IPv6 reverse (PTR) and matching
  forward (AAAA) records on the fly. This is the root of a development that models the whole
  of its logic, the Rust sources under \<open>src/src/\<close>, and proves what makes it correct.

  \<^bold>\<open>The program.\<close> A configuration file is split into directives (\<open>config/parse.rs\<close>) and validated
  (\<open>config/compile.rs\<close>) into a \<open>Config\<close> (\<open>config/mod.rs\<close>), or into a report of every problem
  found (\<open>config/error.rs\<close>). A request is decided by the handler (\<open>server/handler.rs\<close>): the
  zone resolution (\<open>zone/\<close>) matches the query name against the networks and templates with
  the nibble codec (\<open>nibble.rs\<close>), an upstream (\<open>upstream.rs\<close>) may replace a PTR record, the
  rate limiter (\<open>rrl.rs\<close>) decides whether the reply leaves. The process (\<open>main.rs\<close>,
  \<open>server/bind.rs\<close>) binds the sockets, sweeps the limiter and reloads the configuration.

  \<^bold>\<open>Theories.\<close>
  \<^item> \<open>Prelude\<close>: types, byte operations, saturating arithmetic, reachability and the locale
    \<open>inductive_invariant\<close>. \<open>Std_Text\<close> and \<open>Net_Text\<close>: what the sources use of the standard library
    on text, numbers and addresses, translated from its documented behaviour. \<open>Addr_Text\<close>: the
    text of every IPv4, IPv6 and socket address is read back as that address. \<open>Dns_Lib\<close>: the
    interface of the DNS library \<open>hickory_proto\<close>, which is not part of the repository: its
    operations are the record \<open>dns_lib\<close>, its documented laws the locale \<open>dns_laws\<close>, interpreted
    by names after RFC 1035 (\<open>rfc_lib\<close>), on which the witnesses compute.
  \<^item> \<open>Nibble\<close>: \<open>nibble.rs\<close>. Parsing an \<open>ip6.arpa\<close> name is exact, zone names mirror networks, and
    both renderings of host digits, plain and dashed, are codecs (locale \<open>host_codec\<close>,
    interpreted for both).
  \<^item> \<open>Config\<close>, \<open>Config_Error\<close>, \<open>Parse\<close>, \<open>Compile\<close>: \<open>config/\<close>. Acceptance establishes the
    invariants \<open>wf_config\<close> and \<open>wf_params\<close>. A report holds exactly the problems of each stage, and
    every one of them quotes a line of the file, by its number, with a range of bytes in it.
  \<^item> \<open>Parse_Print\<close>: a printer of the configuration format, inverted by the parser. \<open>Readback\<close>:
    suggested networks and displayed addresses are accepted where they can be written.
  \<^item> \<open>Zone\<close>: \<open>zone/\<close>. Forward matching inverts synthesis, the longest prefix wins, PTR answers
    are forward-confirmed, outcomes are sound.
  \<^item> \<open>Zone_Data\<close>: the zone data an operator believes to have configured, as a set of records,
    and that resolution refines it. \<open>Synthesis\<close>: what the bytes of a synthesized name are.
  \<^item> \<open>Rrl\<close>: \<open>rrl.rs\<close>. The limiter of the crate \<open>governor\<close> is a record with laws in the locale
    \<open>keyed_limiter\<close>, interpreted by the generic cell rate algorithm (\<open>gcra_lib\<close>). Budgets do not
    interfere and slips follow the counter. \<open>Rate\<close>: the documented
    quota of a bucket is the locale \<open>token_bucket\<close>, an extension of \<open>keyed_limiter\<close> by a potential;
    over every window of time the limiter lets out no more than the burst and the rate, and
    neither does the sequential server, with its sweeps and reloads, to standard queries over
    UDP. Other requests are answered without the limiter.
  \<^item> \<open>Upstream\<close>: \<open>upstream.rs\<close>. The filter is an allowlist, the breaker trips on the eighth
    consecutive timeout.
  \<^item> \<open>Decide\<close> and \<open>Handler\<close>: \<open>server/handler.rs\<close>. Authority, negative answers, the use of
    upstreams; headers, limits, silence and panics of whole requests. The message library is
    a record with laws in the locale \<open>msg_laws\<close>.
  \<^item> \<open>Bind\<close> and \<open>Server\<close>: \<open>server/bind.rs\<close> and \<open>main.rs\<close>. Binding as the exact sequence of
    system calls; the running server as a state machine of requests, sweeps and reloads with
    the invariant the request path relies on. \<open>Process\<close>: the rest of \<open>main.rs\<close>, from the choice
    of the log filter over the signals and the reloader to the exit code.
  \<^item> \<open>Concurrent\<close>, \<open>Linear\<close> and \<open>Interleave\<close>: requests as tasks that run in parallel. A task stops at every
    access to shared state (the zones, a breaker, the permits, the limiter); between two of them
    any other task, a sweep or a reload may run. An invariant accounts for every permit. The
    steps write a log, a history variable; replaying it gives the configuration and the
    limiter at each point of a run, and each response is that of one call of \<open>handle_request\<close>
    with the configuration at the arrival of the request and the limiter at one place of the
    log. No request waits for another, all finish, and one that runs alone does exactly what
    \<open>handle_request\<close> does.
  \<^item> This theory: what the server answers in any state it can reach.

  \<^bold>\<open>Correspondence.\<close> Structs are records, enums are datatypes, integers are words of their width;
  \<open>usize\<close> values that count bytes of an input are naturals with the saturating operations
  written out. A DNS name is a type parameter. \<open>Result\<close> is a sum with the error on the left,
  panics are an outcome, appended diagnostics are threaded as lists. Times are naturals read
  from the clock as arguments, the results of lookups, deliveries and system calls are
  arguments as well, so every theorem holds for all of them. Loops are structural
  recursions or have a termination proof; no fuel is used.

  \<^bold>\<open>Not modelled.\<close> Serialising messages and the transport itself (\<open>hickory_server\<close>), the resolver
  behind an upstream (\<open>hickory_resolver\<close>), the async runtime, the text of log lines and the
  definition of the command line (\<open>clap\<close>): they are libraries, whose results are arguments, or
  have no effect on a response. \<open>lib.rs\<close> and \<open>server/mod.rs\<close> declare modules only. The lines
  of the sources that no definition translates are comments, attributes, imports and unit tests.

  The order in which the runtime schedules tasks is left open: what is proved holds for all.
\<close>

section \<open>Answers of the running server\<close>

lemma decide_resolved:
  assumes "resolve H (zs_config zs) q t = Answer z rs" and "t = RT_AAAA \<or> t = RT_PTR \<and> zn_upstream z = None"
  shows "re_answers (fst (handler_decide H zs q t CL_IN env)) = rs"
proof -
  have "upstream_override H zs z q t env rs = (rs, zs)" using assms(2) by (auto simp: upstream_override_def)
  moreover have "\<not> (t = RT_SOA \<or> t = RT_NS \<or> t = RT_ANY)" "t \<noteq> RT_AXFR" "t \<noteq> RT_IXFR" using assms(2) by auto
  ultimately show ?thesis using assms(1) by (simp add: handler_decide_def Let_def)
qed

text \<open>
  Property C4. Reverse and forward answers agree in every state the server can reach, whatever it
  was asked, reloaded and swept before: a PTR question for an address in a network without
  upstream is answered with one name, and the AAAA question for that name with that address
  alone, as long as the template of the network does not begin with \<open>*\<close> and no other template
  produces the name.
\<close>

theorem served_ptr_forward_confirmed:
  assumes "dns_laws H" and "reachable (server_init H G build path P) (server_step H M G build path) h"
    and "ptr_name_to_addr H q = Some a" and "zone_for_addr (zs_config (hd_zones h)) a = Some z"
    and "\<not> wildcard_template (zn_fwd z)" and "zn_upstream z = None"
    and "\<forall>n. forward_name H z a = Some n \<longrightarrow>
      (\<forall>z' \<in> set (cf_zones (zs_config (hd_zones h))). z' \<noteq> z \<longrightarrow> match_zone_forward H z' n = None)"
  shows "\<exists>n. re_answers (fst (handler_decide H (hd_zones h) q RT_PTR CL_IN env)) =
      [\<lparr>rr_name = q, rr_class = CL_IN, rr_ttl = zn_ttl z, rr_data = RD_PTR n\<rparr>] \<and>
    re_answers (fst (handler_decide H (hd_zones h) n RT_AAAA CL_IN env')) =
      [\<lparr>rr_name = n, rr_class = CL_IN, rr_ttl = zn_ttl z, rr_data = RD_AAAA a\<rparr>]"
proof -
  have "wf_config H (zs_config (hd_zones h))"
    using server.invariant [OF assms(2)] by (simp add: server_inv_def zones_ok_def)
  from dns_laws.reverse_forward_confirmed [OF assms(1) this assms(3-5,7)] obtain n where
    ptr: "resolve H (zs_config (hd_zones h)) q RT_PTR =
      Answer z [\<lparr>rr_name = q, rr_class = CL_IN, rr_ttl = zn_ttl z, rr_data = RD_PTR n\<rparr>]"
    and aaaa: "resolve H (zs_config (hd_zones h)) n RT_AAAA =
      Answer z [\<lparr>rr_name = n, rr_class = CL_IN, rr_ttl = zn_ttl z, rr_data = RD_AAAA a\<rparr>]" by blast
  show ?thesis
    by (intro exI [of _ n] conjI decide_resolved [OF ptr] decide_resolved [OF aaaa]) (simp_all add: assms(6))
qed

theorem served_ptr_forward_confirmed_witness:
  "\<exists>n. re_answers (fst (handler_decide rfc_lib (hd_zones example_handler)
      (map (\<lambda>c. [c]) ''a20000000000000000000000'' @ map (\<lambda>c. [c]) ''8bd01002'' @ [''ip6'', ''arpa''], True)
      RT_PTR CL_IN example_env)) =
      [\<lparr>rr_name = (map (\<lambda>c. [c]) ''a20000000000000000000000'' @ map (\<lambda>c. [c]) ''8bd01002'' @ [''ip6'', ''arpa''], True),
        rr_class = CL_IN, rr_ttl = zn_ttl example_zone, rr_data = RD_PTR n\<rparr>] \<and>
    re_answers (fst (handler_decide rfc_lib (hd_zones example_handler) n RT_AAAA CL_IN example_env)) =
      [\<lparr>rr_name = n, rr_class = CL_IN, rr_ttl = zn_ttl example_zone,
        rr_data = RD_AAAA 0x20010db800000000000000000000002a\<rparr>]"
proof -
  have r: "reachable (server_init rfc_lib gcra_lib (\<lambda>_ _. None) DEFAULT_CONFIG rrl_params_default)
      (server_step rfc_lib rfc_msg gcra_lib (\<lambda>_ _. None) DEFAULT_CONFIG) example_handler"
    by (rule reachable.start, rule example_init)
  have c: "zs_config (hd_zones example_handler) = example_config"
    by (simp add: example_handler_def handler_new_def example_zones_def)
  show ?thesis
    by (rule served_ptr_forward_confirmed [OF rfc.dns_laws_axioms r example_ptr_name])
      (simp_all add: c example_zone_for example_not_wildcard, simp_all add: example_config_def config_default_def example_zone_def)
qed

end
